(* ===== verification/Prelude.thy ===== *)
theory Prelude
  imports "HOL-Library.Word" "HOL-Library.Sublist"
begin

text \<open>
  Shared vocabulary of the development: the C scalar types as words, C strings as the list of
  bytes before the terminating NUL, port writes as events, and the generic lemmas on lists,
  words and low bytes that the component theories use.
\<close>

unbundle bit_operations_syntax

section \<open>Types\<close>

type_synonym byte = "8 word"
type_synonym cstr = "byte list"
type_synonym port = "16 word"

text \<open>
  \<open>ch\<close> reads a character literal of the C source as a byte, \<open>cs\<close> a string literal (without
  its NUL).
\<close>

definition ch :: "char \<Rightarrow> byte" where
  "ch c = of_char c"

definition cs :: "string \<Rightarrow> cstr" where
  "cs s = map ch s"

text \<open>Values written to an I/O port, in the order the code writes them.\<close>

datatype io_ev = OutB port byte | OutW port "16 word" | OutL port "32 word"

text \<open>
  Facts that rewrite the operations of a component to their effect are collected in
  \<open>model_simps\<close>, the preservation lemmas of a component's invariant in \<open>inv_intros\<close>.
\<close>

named_theorems model_simps \<open>effect of the operations of a component\<close>
named_theorems inv_intros \<open>operations that keep their component's invariant\<close>

section \<open>Words\<close>

lemma low_byte [simp]: "(ucast (v AND 0xFF) :: byte) = ucast (v :: 'a::len word)"
proof -
  have *: "(0xFF :: 'a word) = mask 8" by (simp add: mask_eq_exp_minus_1)
  show ?thesis unfolding * by (intro bit_word_eqI) (auto simp: bit_simps dest: bit_imp_le_length)
qed

lemma unat_lt_power: "unat (x :: 'a::len word) < 2 ^ LENGTH('a)"
  by (rule unsigned_less)

lemma word64_bound: "unat (x :: 64 word) < 18446744073709551616"
  using unat_lt_power [of x] by simp

lemma word32_bound: "unat (x :: 32 word) < 4294967296"
  using unat_lt_power [of x] by simp

lemma word8_bound: "unat (x :: 8 word) < 256"
  using unat_lt_power [of x] by simp

lemma bit_below: "w < 2 ^ n \<Longrightarrow> \<not> bit (w :: 'a::len word) n"
proof
  assume "w < 2 ^ n" and b: "bit w n"
  then have "take_bit n w = w" by (simp add: less_mask_eq take_bit_eq_mask)
  with b have "bit (take_bit n w) n" by simp
  then show False by (simp add: bit_simps)
qed

section \<open>Indices that wrap once\<close>

lemma mod_wrap: "(x :: nat) < 2 * n \<Longrightarrow> x mod n = (if x < n then x else x - n)"
  by (auto simp: le_mod_geq)

section \<open>Lists\<close>

lemma nth_list_update_other [simp]: "i \<noteq> j \<Longrightarrow> (xs[i := v]) ! j = xs ! j"
  by simp

lemma map_upt_eqI:
  "length xs = n \<Longrightarrow> (\<And>i. i < n \<Longrightarrow> f i = xs ! i) \<Longrightarrow> map f [0..<n] = xs"
  by (rule nth_equalityI) auto

lemma dropWhile_decr: "length (dropWhile P xs) \<le> length xs"
  by (rule length_dropWhile_le)

lemma take_while_append_drop: "takeWhile P xs @ dropWhile P xs = xs"
  by (rule takeWhile_dropWhile_id)

end
