(* ===== verification/Vga.thy ===== *)
theory Vga
  imports Prelude
begin

text \<open>
  The text terminal, \<^verbatim>\<open>drivers/vga/vga.c\<close>: an 80 by 25 screen in the frame buffer at 0xB8000,
  a cursor with deferred wrapping, scrolling, and the hardware cursor registers. The frame
  buffer is the list \<open>v_cells\<close> of its 2000 cells; a store outside it would hit other memory, so
  it sets \<open>v_fault\<close>. Port writes are recorded in \<open>v_out\<close>.
\<close>

section \<open>Data\<close>

abbreviation COLS :: int where "COLS \<equiv> 80"
abbreviation ROWS :: int where "ROWS \<equiv> 25"

record vga =
  v_cells :: "16 word list"
  v_row :: int
  v_col :: int
  v_wrap :: bool
  v_attr :: byte
  v_saved_fg :: "32 word"
  v_saved_bg :: "32 word"
  v_out :: "io_ev list"
  v_fault :: bool

text \<open>The statics at boot; what the frame buffer holds before \<open>term_init\<close> is unknown.\<close>

definition vga_boot :: "16 word list \<Rightarrow> vga" where
  "vga_boot cells = \<lparr>v_cells = cells, v_row = 0, v_col = 0, v_wrap = False, v_attr = 0x0F,
     v_saved_fg = 15, v_saved_bg = 0, v_out = [], v_fault = False\<rparr>"

section \<open>Operations\<close>

definition poke :: "int \<Rightarrow> 16 word \<Rightarrow> vga \<Rightarrow> vga" where
  "poke i x v = (if 0 \<le> i \<and> i < int (length (v_cells v))
     then v\<lparr>v_cells := (v_cells v)[nat i := x]\<rparr> else v\<lparr>v_fault := True\<rparr>)"

definition glyph :: "byte \<Rightarrow> byte \<Rightarrow> 16 word" where
  "glyph a c = push_bit 8 (ucast a) OR ucast c"

abbreviation blank :: "vga \<Rightarrow> 16 word" where
  "blank v \<equiv> glyph (v_attr v) 32"

definition update_cursor :: "vga \<Rightarrow> vga" where
  "update_cursor v =
     (let pos = (word_of_int (if v_wrap v then (v_row v + 1) * COLS
                              else v_row v * COLS + v_col v) :: 16 word)
      in v\<lparr>v_out := v_out v @ [OutB 0x3D4 0x0F, OutB 0x3D5 (ucast (pos AND 0xFF)),
                                OutB 0x3D4 0x0E, OutB 0x3D5 (ucast (drop_bit 8 pos))]\<rparr>)"

definition scroll :: "vga \<Rightarrow> vga" where
  "scroll v =
     (let v1 = fold (\<lambda>i v. poke (int i) (v_cells v ! (i + 80)) v) [0..<24 * 80] v;
          v2 = fold (\<lambda>i v. poke (int i) (blank v) v) [24 * 80..<25 * 80] v1
      in v2\<lparr>v_row := ROWS - 1, v_wrap := False\<rparr>)"

definition term_clear :: "vga \<Rightarrow> vga" where
  "term_clear v =
     update_cursor ((fold (\<lambda>i v. poke (int i) (blank v) v) [0..<25 * 80] v)
       \<lparr>v_col := 0, v_row := 0, v_wrap := False\<rparr>)"

definition term_init :: "vga \<Rightarrow> vga" where
  "term_init v = term_clear (v\<lparr>v_attr := 0x0F\<rparr>)"

definition scroll_if_full :: "vga \<Rightarrow> vga" where
  "scroll_if_full v = (if ROWS \<le> v_row v then scroll v else v)"

definition pending_wrap :: "byte \<Rightarrow> vga \<Rightarrow> vga" where
  "pending_wrap c v = (if v_wrap v \<and> c \<noteq> 10 \<and> c \<noteq> 13
     then scroll_if_full (v\<lparr>v_wrap := False, v_col := 0, v_row := v_row v + 1\<rparr>) else v)"

definition put_switch :: "byte \<Rightarrow> vga \<Rightarrow> vga" where
  "put_switch c v =
     (if c = 10 then v\<lparr>v_wrap := False, v_col := 0, v_row := v_row v + 1\<rparr>
      else if c = 13 then v\<lparr>v_wrap := False, v_col := 0\<rparr>
      else if c = 8 then
        (let v1 = (if v_wrap v then v\<lparr>v_wrap := False, v_col := COLS - 1\<rparr> else v) in
         if 0 < v_col v1
         then (let v2 = v1\<lparr>v_col := v_col v1 - 1\<rparr>
               in poke (v_row v2 * COLS + v_col v2) (blank v2) v2)
         else v1)
      else if c = 9 then
        (let v1 = v\<lparr>v_col := (v_col v + 4) AND NOT 3\<rparr> in
         if COLS \<le> v_col v1 then v1\<lparr>v_col := 0, v_row := v_row v1 + 1\<rparr> else v1)
      else
        (let v1 = poke (v_row v * COLS + v_col v) (glyph (v_attr v) c) v;
             v2 = v1\<lparr>v_col := v_col v1 + 1\<rparr>
         in if COLS \<le> v_col v2 then v2\<lparr>v_wrap := True\<rparr> else v2))"

definition term_putc :: "byte \<Rightarrow> vga \<Rightarrow> vga" where
  "term_putc c v = update_cursor (scroll_if_full (put_switch c (pending_wrap c v)))"

definition term_puts :: "cstr \<Rightarrow> vga \<Rightarrow> vga" where
  "term_puts s v = fold term_putc s v"

text \<open>\<open>term_write\<close> is given the bytes the pointer refers to, at least \<open>len\<close> of them.\<close>

definition term_write :: "byte list \<Rightarrow> nat \<Rightarrow> vga \<Rightarrow> vga" where
  "term_write s len v = fold term_putc (take len s) v"

definition term_goto :: "int \<Rightarrow> int \<Rightarrow> vga \<Rightarrow> vga" where
  "term_goto r c v =
     (let r1 = (if r < 0 then 0 else r);
          r2 = (if ROWS \<le> r1 then ROWS - 1 else r1);
          c1 = (if c < 0 then 0 else c);
          c2 = (if COLS \<le> c1 then COLS - 1 else c1)
      in update_cursor (v\<lparr>v_row := r2, v_col := c2, v_wrap := False\<rparr>))"

definition term_set_color :: "32 word \<Rightarrow> 32 word \<Rightarrow> vga \<Rightarrow> vga" where
  "term_set_color fg bg v = v\<lparr>v_attr := ucast (push_bit 4 bg OR (fg AND 0x0F))\<rparr>"

definition term_save_color :: "vga \<Rightarrow> vga" where
  "term_save_color v = v\<lparr>v_saved_fg := ucast (v_attr v) AND 0x0F,
     v_saved_bg := drop_bit 4 (ucast (v_attr v)) AND 0x0F\<rparr>"

definition term_reset_color :: "vga \<Rightarrow> vga" where
  "term_reset_color v = term_set_color (v_saved_fg v) (v_saved_bg v) v"

text \<open>The interface as a whole, for statements about arbitrary sequences of calls.\<close>

datatype term_op =
    Init | Clear | Putc byte | Puts cstr | Write "byte list" nat | Goto int int
  | SetColor "32 word" "32 word" | SaveColor | ResetColor

fun term_apply :: "term_op \<Rightarrow> vga \<Rightarrow> vga" where
  "term_apply Init v = term_init v"
| "term_apply Clear v = term_clear v"
| "term_apply (Putc c) v = term_putc c v"
| "term_apply (Puts s) v = term_puts s v"
| "term_apply (Write s n) v = term_write s n v"
| "term_apply (Goto r c) v = term_goto r c v"
| "term_apply (SetColor f b) v = term_set_color f b v"
| "term_apply SaveColor v = term_save_color v"
| "term_apply ResetColor v = term_reset_color v"

section \<open>Invariant\<close>

definition vga_inv :: "vga \<Rightarrow> bool" where
  "vga_inv v \<longleftrightarrow> length (v_cells v) = 2000 \<and> 0 \<le> v_row v \<and> v_row v < ROWS \<and>
     0 \<le> v_col v \<and> v_col v \<le> COLS \<and> (v_wrap v \<longleftrightarrow> v_col v = COLS) \<and> \<not> v_fault v"

lemma poke_in [simp]:
  "0 \<le> i \<Longrightarrow> i < int (length (v_cells v)) \<Longrightarrow> poke i x v = v\<lparr>v_cells := (v_cells v)[nat i := x]\<rparr>"
  by (simp add: poke_def)

lemma update_cursor_simps [simp]:
  "v_cells (update_cursor v) = v_cells v" "v_row (update_cursor v) = v_row v"
  "v_col (update_cursor v) = v_col v" "v_wrap (update_cursor v) = v_wrap v"
  "v_attr (update_cursor v) = v_attr v" "v_fault (update_cursor v) = v_fault v"
  by (simp_all add: update_cursor_def Let_def)

lemma fill_step:
  assumes "m \<le> n" and "n < length xs"
  shows "(take m xs @ replicate (n - m) b @ drop n xs)[n := b] =
    take m xs @ replicate (Suc n - m) b @ drop (Suc n) xs"
  using assms by (intro nth_equalityI) (auto simp: nth_list_update nth_append)

lemma fill_upt:
  "n \<le> length (v_cells v) \<Longrightarrow> m \<le> n \<Longrightarrow>
     fold (\<lambda>i v. poke (int i) (blank v) v) [m..<n] v =
     v\<lparr>v_cells := take m (v_cells v) @ replicate (n - m) (blank v) @ drop n (v_cells v)\<rparr>"
proof (induction n)
  case (Suc n)
  show ?case
  proof (cases "m \<le> n")
    case True
    with Suc show ?thesis by (simp add: fill_step)
  next
    case False
    with Suc.prems have "m = Suc n" by simp
    then show ?thesis by simp
  qed
qed simp

lemma copy_step:
  assumes "n + w < length xs"
  shows "(take n (drop w xs) @ drop n xs)[n := (take n (drop w xs) @ drop n xs) ! (n + w)] =
    take (Suc n) (drop w xs) @ drop (Suc n) xs"
  using assms by (intro nth_equalityI) (auto simp: nth_list_update nth_append min_absorb2 less_Suc_eq add.commute)

lemma copy_up:
  "n + w \<le> length (v_cells v) \<Longrightarrow>
     fold (\<lambda>i v. poke (int i) (v_cells v ! (i + w)) v) [0..<n] v =
     v\<lparr>v_cells := take n (drop w (v_cells v)) @ drop n (v_cells v)\<rparr>"
proof (induction n)
  case (Suc n)
  then show ?case using copy_step [of n w "v_cells v"] by simp
qed simp

lemma scroll_eq:
  assumes "length (v_cells v) = 2000"
  shows "scroll v = v\<lparr>v_cells := drop 80 (v_cells v) @ replicate 80 (blank v),
    v_row := 24, v_wrap := False\<rparr>"
  using assms by (simp add: scroll_def Let_def copy_up fill_upt del: upt_rec_numeral)

lemma term_clear_eq:
  assumes "length (v_cells v) = 2000"
  shows "term_clear v = update_cursor
    (v\<lparr>v_cells := replicate 2000 (blank v), v_col := 0, v_row := 0, v_wrap := False\<rparr>)"
  using assms by (simp add: term_clear_def fill_upt del: upt_rec_numeral)

lemma tab_stop: "(x :: int) AND NOT 3 = 4 * (x div 4)"
proof -
  have "x AND NOT (mask 2) = push_bit 2 (drop_bit 2 x)"
    by (rule bit_eqI) (auto simp: bit_simps simp flip: add_2_eq_Suc)
  then show ?thesis by (simp add: push_bit_eq_mult drop_bit_eq_div mask_eq_exp_minus_1 mult.commute)
qed

text \<open>
  Between the two halves of \<open>term_putc\<close> the row may be one past the screen, with the cursor in
  column 0; the final scroll brings it back.
\<close>

definition vga_mid :: "vga \<Rightarrow> bool" where
  "vga_mid v \<longleftrightarrow> length (v_cells v) = 2000 \<and> 0 \<le> v_row v \<and> v_row v \<le> ROWS \<and>
     0 \<le> v_col v \<and> v_col v \<le> COLS \<and> (v_wrap v \<longleftrightarrow> v_col v = COLS) \<and> \<not> v_fault v \<and>
     (v_row v = ROWS \<longrightarrow> v_col v = 0)"

lemma scroll_if_full_inv: "vga_mid v \<Longrightarrow> vga_inv (scroll_if_full v)"
  by (auto simp: vga_mid_def vga_inv_def scroll_if_full_def scroll_eq)

lemma pending_wrap_inv: "vga_inv v \<Longrightarrow> vga_inv (pending_wrap c v)"
  by (auto simp: pending_wrap_def scroll_if_full_inv vga_inv_def [of v] vga_mid_def)

lemma pending_wrap_clears:
  "vga_inv v \<Longrightarrow> v_wrap (pending_wrap c v) \<Longrightarrow> c = 10 \<or> c = 13"
  by (auto simp: pending_wrap_def vga_inv_def scroll_if_full_def scroll_eq split: if_splits)

lemma put_switch_mid:
  assumes "vga_inv v" and "v_wrap v \<longrightarrow> c = 10 \<or> c = 13"
  shows "vga_mid (put_switch c v)"
proof (cases "c = 9")
  case True
  have "4 * ((v_col v + 4) div 4) \<le> 80 + 4" "0 \<le> (v_col v + 4) div 4"
    if "0 \<le> v_col v" "v_col v \<le> 80" using that by linarith+
  with True assms show ?thesis
    by (auto simp: put_switch_def vga_inv_def vga_mid_def tab_stop Let_def)
next
  case False
  with assms show ?thesis
    by (auto simp: put_switch_def vga_inv_def vga_mid_def Let_def)
qed

lemma update_cursor_inv [simp]: "vga_inv (update_cursor v) = vga_inv v"
  by (simp add: vga_inv_def)

lemma term_putc_inv [inv_intros]: "vga_inv v \<Longrightarrow> vga_inv (term_putc c v)"
  unfolding term_putc_def
  by (auto intro!: scroll_if_full_inv put_switch_mid pending_wrap_inv dest: pending_wrap_clears)

lemma fold_putc_inv [inv_intros]: "vga_inv v \<Longrightarrow> vga_inv (fold term_putc s v)"
  by (induction s arbitrary: v) (auto intro: inv_intros)

lemma term_clear_inv [inv_intros]: "vga_inv v \<Longrightarrow> vga_inv (term_clear v)"
  by (auto simp: term_clear_eq vga_inv_def)

lemma term_init_inv [inv_intros]: "vga_inv v \<Longrightarrow> vga_inv (term_init v)"
  unfolding term_init_def by (rule term_clear_inv) (simp add: vga_inv_def)

lemma term_goto_inv [inv_intros]: "vga_inv v \<Longrightarrow> vga_inv (term_goto r c v)"
  by (auto simp: term_goto_def vga_inv_def Let_def)

lemma term_color_inv [simp]:
  "vga_inv (term_set_color f b v) = vga_inv v" "vga_inv (term_save_color v) = vga_inv v"
  "vga_inv (term_reset_color v) = vga_inv v"
  by (simp_all add: term_set_color_def term_save_color_def term_reset_color_def vga_inv_def)

lemma term_apply_inv [inv_intros]: "vga_inv v \<Longrightarrow> vga_inv (term_apply op v)"
  by (cases op) (auto simp: term_puts_def term_write_def intro: inv_intros)

section \<open>Printable text\<close>

definition printable :: "byte \<Rightarrow> bool" where
  "printable c \<longleftrightarrow> c \<notin> {8, 9, 10, 13}"

lemma put_printable:
  assumes "vga_inv v" and "printable c" and "\<not> v_wrap v"
  shows "term_putc c v = update_cursor (v\<lparr>
      v_cells := (v_cells v)[nat (v_row v * 80 + v_col v) := glyph (v_attr v) c],
      v_col := v_col v + 1, v_wrap := (v_col v = 79)\<rparr>)"
  using assms
  by (cases v) (auto simp: term_putc_def pending_wrap_def put_switch_def scroll_if_full_def printable_def
      vga_inv_def Let_def)

lemma replicate_80: "replicate 80 x = x # replicate 79 x"
  using replicate_Suc [of 79 x] by simp

lemma put_printable_wrap:
  assumes "vga_inv v" and "printable c" and "v_wrap v"
  shows "term_putc c v = (if v_row v = 24
    then update_cursor (v\<lparr>
      v_cells := drop 80 (v_cells v) @ glyph (v_attr v) c # replicate 79 (blank v),
      v_col := 1, v_wrap := False\<rparr>)
    else update_cursor (v\<lparr>
      v_cells := (v_cells v)[nat (v_row v * 80 + 80) := glyph (v_attr v) c],
      v_row := v_row v + 1, v_col := 1, v_wrap := False\<rparr>))"
  using assms
  by (cases v) (auto simp: term_putc_def pending_wrap_def put_switch_def scroll_if_full_def printable_def
      vga_inv_def Let_def scroll_eq list_update_append replicate_80 algebra_simps)

text \<open>
  What the screen shows after text of \<open>n\<close> printable characters was written from the top left:
  the text in reading order, less the complete lines that were scrolled out. The last line is
  number \<open>(n - 1) div 80\<close>, so \<open>(n - 1) div 80 - 24\<close> lines are gone.
\<close>

definition last_line :: "cstr \<Rightarrow> nat" where
  "last_line s = (length s - 1) div 80"

definition visible :: "cstr \<Rightarrow> cstr" where
  "visible s = drop (80 * (last_line s - 24)) s"

definition text_cells :: "byte \<Rightarrow> cstr \<Rightarrow> 16 word list" where
  "text_cells a s = map (glyph a) (visible s) @ replicate (2000 - length (visible s)) (glyph a 32)"

definition shows_text :: "byte \<Rightarrow> cstr \<Rightarrow> vga \<Rightarrow> bool" where
  "shows_text a s v \<longleftrightarrow> vga_inv v \<and> v_attr v = a \<and> v_cells v = text_cells a s \<and>
     v_row v = int (min 24 (last_line s)) \<and> v_col v = int (length s - 80 * last_line s)"

lemma last_line_snoc:
  "last_line (s @ [c]) = (if s \<noteq> [] \<and> length s = 80 * last_line s + 80
     then last_line s + 1 else last_line s)"
proof (cases "length s")
  case (Suc m)
  define r where "r = m mod 80"
  have "m = 80 * (m div 80) + r" by (simp add: r_def)
  then have "Suc m mod 80 = 0 \<longleftrightarrow> Suc m = 80 * (m div 80) + 80"
    unfolding mod_Suc r_def [symmetric] by (cases "r = 79") (simp_all del: div_mult_self3)
  then show ?thesis using Suc by (auto simp: last_line_def div_Suc)
qed (simp add: last_line_def)

lemma last_line_bounds: "80 * last_line s \<le> length s" "length s \<le> 80 * last_line s + 80"
  using div_mult_mod_eq [of "length s - 1" 80] mod_less_divisor [of 80 "length s - 1"]
  unfolding last_line_def by linarith+

lemma visible_length: "length (visible s) = length s - 80 * (last_line s - 24)"
  by (simp add: visible_def)

lemma fill_next: "0 < k \<Longrightarrow> (xs @ replicate k b)[length xs := y] = xs @ y # replicate (k - 1) b"
  by (cases k) auto

lemma text_cells_next:
  assumes "visible (s @ [c]) = visible s @ [c]" and "length (visible s) < 2000"
  shows "(text_cells a s)[length (visible s) := glyph a c] = text_cells a (s @ [c])"
  using assms fill_next [of "2000 - length (visible s)" "map (glyph a) (visible s)" "glyph a 32" "glyph a c"]
  by (simp add: text_cells_def)

lemma visible_snoc:
  assumes "last_line (s @ [c]) - 24 = last_line s - 24"
  shows "visible (s @ [c]) = visible s @ [c]"
  using assms last_line_bounds [of s] by (simp add: visible_def)

lemma shows_text_snoc:
  assumes sh: "shows_text a s v" and c: "printable c"
  shows "shows_text a (s @ [c]) (term_putc c v)"
proof -
  have inv: "vga_inv v" and inv': "vga_inv (term_putc c v)" and a: "v_attr v = a"
    and cells: "v_cells v = text_cells a s" and row: "v_row v = int (min 24 (last_line s))"
    and col: "v_col v = int (length s - 80 * last_line s)"
    using sh term_putc_inv by (auto simp: shows_text_def)
  have w: "v_wrap v \<longleftrightarrow> v_col v = 80" using inv by (simp add: vga_inv_def)
  note b = last_line_bounds [of s] and vl = visible_length [of s]
  consider (line) "length s < 80 * last_line s + 80"
    | (wrap) "length s = 80 * last_line s + 80" "last_line s < 24"
    | (scroll) "length s = 80 * last_line s + 80" "24 \<le> last_line s"
    using b by linarith
  then show ?thesis
  proof cases
    case line
    then have ll: "last_line (s @ [c]) = last_line s" by (simp add: last_line_snoc)
    have nw: "\<not> v_wrap v" using w col line by auto
    have idx: "nat (v_row v * 80 + v_col v) = length (visible s)"
      using row col b by (auto simp: vl min_def split: if_splits)
    have "length (visible s) < 2000" using line vl by linarith
    then have "v_cells (term_putc c v) = text_cells a (s @ [c])"
      using ll by (simp add: put_printable [OF inv c nw] idx cells a text_cells_next visible_snoc)
    then show ?thesis
      using inv' b line by (simp add: shows_text_def put_printable [OF inv c nw] a row col ll)
  next
    case wrap
    then have ll: "last_line (s @ [c]) = last_line s + 1" by (auto simp: last_line_snoc)
    have yw: "v_wrap v" using w col wrap by auto
    have idx: "nat (v_row v * 80 + 80) = length (visible s)"
      using row wrap by (simp add: vl nat_add_distrib nat_mult_distrib)
    have "length (visible s) < 2000" using wrap vl by simp
    moreover have "v_row v \<noteq> 24" using row wrap by simp
    ultimately have "v_cells (term_putc c v) = text_cells a (s @ [c])"
      using ll wrap(2)
      by (simp add: put_printable_wrap [OF inv c yw] idx cells a text_cells_next visible_snoc)
    then show ?thesis
      using inv' wrap by (simp add: shows_text_def put_printable_wrap [OF inv c yw] a row ll)
  next
    case scroll
    then have ll: "last_line (s @ [c]) = last_line s + 1" by (auto simp: last_line_snoc)
    have yw: "v_wrap v" using w col scroll by auto
    have full: "length (visible s) = 2000" using scroll vl by simp
    have "80 * (last_line s - 23) = 80 + 80 * (last_line s - 24)" using scroll by simp
    then have "visible (s @ [c]) = drop 80 (visible s) @ [c]"
      using scroll by (simp add: visible_def ll)
    then have "text_cells a (s @ [c]) = drop 80 (text_cells a s) @ glyph a c # replicate 79 (glyph a 32)"
      using full by (simp add: text_cells_def drop_map)
    then show ?thesis
      using inv' scroll
      by (simp add: shows_text_def put_printable_wrap [OF inv c yw] cells a row ll)
  qed
qed

lemma shows_text_puts:
  "shows_text a [] v \<Longrightarrow> list_all printable s \<Longrightarrow> shows_text a s (fold term_putc s v)"
  by (induction s rule: rev_induct) (auto intro: shows_text_snoc)

section \<open>Properties\<close>

text \<open>
  (C30) Whatever sequence of terminal calls is made, from any state in which the cursor is on
  the screen, no store leaves the 2000 cells of the frame buffer, and the cursor stays on the
  screen with a wrap pending exactly in column 80.
\<close>

theorem terminal_stays_in_frame_buffer:
  assumes "vga_inv v"
  shows "vga_inv (fold term_apply ops v)"
  using assms by (induction ops arbitrary: v) (auto intro: term_apply_inv)

theorem terminal_stays_in_frame_buffer_witness:
  "vga_inv (fold term_apply [Init, Puts (cs ''ab''), Goto 99 (-3), Putc 9]
     (vga_boot (replicate 2000 0)))"
  by (rule terminal_stays_in_frame_buffer) (simp add: vga_inv_def vga_boot_def)

text \<open>
  (C29) Text of any length without control characters written to a cleared screen appears in
  reading order, wrapped at 80 columns, with the lines that no longer fit scrolled out at the
  top, every other cell blank, and the cursor just after the last character.
\<close>

theorem text_appears_wrapped_and_scrolled:
  assumes "vga_inv v" and "list_all printable s"
  defines "v' \<equiv> term_puts s (term_clear v)"
  shows "v_cells v' = text_cells (v_attr v) s \<and> v_row v' = int (min 24 (last_line s)) \<and>
    v_col v' = int (length s - 80 * last_line s)"
proof -
  have "shows_text (v_attr v) [] (term_clear v)"
    using assms(1) term_clear_inv [OF assms(1)] term_clear_eq [of v]
    by (simp add: shows_text_def text_cells_def visible_def last_line_def vga_inv_def)
  from shows_text_puts [OF this assms(2)] show ?thesis
    by (simp add: v'_def term_puts_def shows_text_def)
qed

theorem text_appears_wrapped_and_scrolled_witness:
  "v_row (term_puts (replicate 2081 65) (term_clear (vga_boot (replicate 2000 0)))) = 24 \<and>
   v_col (term_puts (replicate 2081 65) (term_clear (vga_boot (replicate 2000 0)))) = 1"
proof -
  have "vga_inv (vga_boot (replicate 2000 0))" and "list_all printable (replicate 2081 65)"
    by (simp_all add: vga_inv_def vga_boot_def list_all_length printable_def)
  from text_appears_wrapped_and_scrolled [OF this] show ?thesis by (simp add: last_line_def)
qed

text \<open>
  Echoing a printable character and then a backspace, as the shell does when a character
  is rubbed out, restores the cursor and leaves a blank where the character was, wherever the
  character does not end in the last column.
\<close>

theorem backspace_undoes_character:
  assumes "vga_inv v" and "printable c" and "v_col v < 79"
  defines "v' \<equiv> term_putc 8 (term_putc c v)"
  shows "v_cells v' = (v_cells v)[nat (v_row v * 80 + v_col v) := blank v] \<and>
    v_row v' = v_row v \<and> v_col v' = v_col v \<and> \<not> v_wrap v'"
proof -
  have "\<not> v_wrap v" using assms(1,3) by (simp add: vga_inv_def)
  then show ?thesis
    using assms(1,3) unfolding v'_def put_printable [OF assms(1,2) \<open>\<not> v_wrap v\<close>]
    by (auto simp: term_putc_def pending_wrap_def put_switch_def scroll_if_full_def vga_inv_def Let_def)
qed

theorem backspace_undoes_character_witness:
  "v_col (term_putc 8 (term_putc 65 (vga_boot (replicate 2000 0)))) = 0"
  using backspace_undoes_character [of "vga_boot (replicate 2000 0)" 65]
  by (simp add: vga_inv_def vga_boot_def printable_def)

text \<open>
  In the last column the backspace does not erase: the wrap that is still pending is
  carried out first, the cursor moves to the start of the next line, and the character stays on
  the screen. The branch of the switch that would handle a pending wrap is never reached.
\<close>

theorem backspace_after_last_column:
  assumes "vga_inv v" and "v_wrap v" and "v_row v < 24"
  shows "v_cells (term_putc 8 v) = v_cells v \<and> v_row (term_putc 8 v) = v_row v + 1 \<and>
    v_col (term_putc 8 v) = 0"
  using assms
  by (cases v) (auto simp: term_putc_def pending_wrap_def scroll_if_full_def put_switch_def
      vga_inv_def Let_def)

theorem backspace_after_last_column_witness:
  "v_col (term_putc 8 ((vga_boot (replicate 2000 0))\<lparr>v_col := 80, v_wrap := True\<rparr>)) = 0"
  using backspace_after_last_column [of "(vga_boot (replicate 2000 0))\<lparr>v_col := 80, v_wrap := True\<rparr>"]
  by (simp add: vga_inv_def vga_boot_def)

end
