(* ===== verification/Cpu.thy ===== *)
theory Cpu
  imports Vga
begin

text \<open>
  The processor tables of \<^verbatim>\<open>arch/x86_64/idt.c\<close> and \<^verbatim>\<open>arch/x86_64/gdt.c\<close>: interrupt gates, interrupt controller set-up, the
  exception handler, segment descriptors and the task state segment. The instructions that load the tables are assembly: the model
  gives the table registers their operands. Addresses of symbols (\<open>exception_stub\<close>, \<open>irq1_stub\<close>, the tables, the interrupt
  stack) and the current code segment are parameters.
\<close>

section \<open>Interrupt gates\<close>

record gate =
  offset_low :: "16 word"
  selector :: "16 word"
  ist :: byte
  type_attr :: byte
  offset_mid :: "16 word"
  offset_high :: "32 word"
  gate_zero :: "32 word"

record table_reg =
  tr_limit :: "16 word"
  tr_base :: "64 word"

definition idt_set_gate :: "16 word \<Rightarrow> nat \<Rightarrow> 64 word \<Rightarrow> gate list \<Rightarrow> gate list" where
  "idt_set_gate current_cs n handler idt =
     idt[n := \<lparr>offset_low = ucast (handler AND 0xFFFF), selector = current_cs, ist = 0, type_attr = 0x8E,
       offset_mid = ucast (drop_bit 16 handler AND 0xFFFF), offset_high = ucast (drop_bit 32 handler AND 0xFFFFFFFF), gate_zero = 0\<rparr>]"

definition idt_init :: "16 word \<Rightarrow> 64 word \<Rightarrow> 64 word \<Rightarrow> 64 word \<Rightarrow> gate list \<Rightarrow> gate list \<times> table_reg" where
  "idt_init current_cs exception_stub irq1_stub idt_addr idt =
     (idt_set_gate current_cs 0x21 irq1_stub (fold (\<lambda>i. idt_set_gate current_cs i exception_stub) [0..<32] idt),
      \<lparr>tr_limit = 4095, tr_base = idt_addr\<rparr>)"

text \<open>The exception handler writes its message and stops.\<close>

definition panic :: "vga \<Rightarrow> vga" where
  "panic v = term_puts (ch (CHR 0x0A) # cs ''*** EXCEPTION! CPU found fatality condition ***'' @ [ch (CHR 0x0A)]) (term_set_color 0x0C 0x00 v)"

definition io_wait :: io_ev where
  "io_wait = OutB 0x80 0"

definition pic_init :: "io_ev list" where
  "pic_init = [OutB 0x20 0x11, io_wait, OutB 0xA0 0x11, io_wait, OutB 0x21 0x20, io_wait, OutB 0xA1 0x28, io_wait,
     OutB 0x21 0x04, io_wait, OutB 0xA1 0x02, io_wait, OutB 0x21 0x01, io_wait, OutB 0xA1 0x01, io_wait,
     OutB 0x21 0xFD, io_wait, OutB 0xA1 0xFF, io_wait]"

section \<open>Segments\<close>

record tss64 =
  rsp0 :: "64 word"
  rsp1 :: "64 word"
  rsp2 :: "64 word"
  tss_ist :: "64 word list"
  iomap_base :: "16 word"

abbreviation TSS_SEL :: "16 word" where "TSS_SEL \<equiv> 0x28"

text \<open>The low half of the descriptor of a task state segment.\<close>

definition tss_desc :: "64 word \<Rightarrow> 64 word" where
  "tss_desc base = 0x67 OR push_bit 16 (base AND 0xFFFFFF) OR push_bit 40 0x89 OR push_bit 56 (drop_bit 24 base AND 0xFF)"

definition gdt_install :: "64 word \<Rightarrow> 64 word \<Rightarrow> 64 word \<Rightarrow> tss64 \<Rightarrow> 64 word list \<times> tss64 \<times> table_reg \<times> 16 word" where
  "gdt_install tss_addr kstack_irq_top gdt_addr t =
     ([0, 0x00209A0000000000, 0x0000920000000000, 0x00CFF2000000FFFF, 0x0020FA0000000000,
       tss_desc tss_addr, drop_bit 32 tss_addr],
      t\<lparr>rsp0 := kstack_irq_top, iomap_base := 104\<rparr>, \<lparr>tr_limit = 55, tr_base = gdt_addr\<rparr>, TSS_SEL)"

section \<open>System call registers\<close>

abbreviation MSR_EFER :: "32 word" where "MSR_EFER \<equiv> 0xC0000080"
abbreviation MSR_STAR :: "32 word" where "MSR_STAR \<equiv> 0xC0000081"
abbreviation MSR_LSTAR :: "32 word" where "MSR_LSTAR \<equiv> 0xC0000082"
abbreviation MSR_FMASK :: "32 word" where "MSR_FMASK \<equiv> 0xC0000084"

text \<open>\<open>wrmsr\<close> passes a value in two halves and \<open>rdmsr\<close> joins them; the register file maps a number to its halves.\<close>

type_synonym msrs = "32 word \<Rightarrow> 32 word \<times> 32 word"

definition rdmsr :: "msrs \<Rightarrow> 32 word \<Rightarrow> 64 word" where
  "rdmsr r m = (case r m of (lo, hi) \<Rightarrow> push_bit 32 (ucast hi) OR ucast lo)"

definition wrmsr :: "32 word \<Rightarrow> 64 word \<Rightarrow> msrs \<Rightarrow> msrs" where
  "wrmsr m v r = r(m := (ucast (v AND 0xFFFFFFFF), ucast (drop_bit 32 v)))"

definition syscall_init :: "64 word \<Rightarrow> msrs \<Rightarrow> msrs" where
  "syscall_init syscall_entry r =
     (let efer = rdmsr r MSR_EFER in
      wrmsr MSR_STAR (push_bit 48 0x10 OR push_bit 32 0x08) (wrmsr MSR_FMASK 0x200 (wrmsr MSR_LSTAR syscall_entry (wrmsr MSR_EFER (efer OR 1) r))))"

section \<open>What the processor reads\<close>

definition gate_target :: "gate \<Rightarrow> 64 word" where
  "gate_target g = ucast (offset_low g) OR push_bit 16 (ucast (offset_mid g)) OR push_bit 32 (ucast (offset_high g))"

text \<open>Present bit, privilege level and type of a gate (0xE is an interrupt gate, which masks interrupts).\<close>

definition gate_kind :: "gate \<Rightarrow> bool \<times> nat \<times> nat" where
  "gate_kind g = (bit (type_attr g) 7, unat (drop_bit 5 (type_attr g) AND 3), unat (type_attr g AND 0xF))"

text \<open>Descriptor fields: present, privilege level, executable, 64-bit; and the base of a system descriptor of two entries.\<close>

definition desc_present :: "64 word \<Rightarrow> bool" where "desc_present d \<longleftrightarrow> bit d 47"
definition desc_dpl :: "64 word \<Rightarrow> nat" where "desc_dpl d = unat (drop_bit 45 d AND 3)"
definition desc_code :: "64 word \<Rightarrow> bool" where "desc_code d \<longleftrightarrow> bit d 44 \<and> bit d 43"
definition desc_data :: "64 word \<Rightarrow> bool" where "desc_data d \<longleftrightarrow> bit d 44 \<and> \<not> bit d 43 \<and> bit d 41"
definition desc_long :: "64 word \<Rightarrow> bool" where "desc_long d \<longleftrightarrow> bit d 53"

definition sys_base :: "64 word \<Rightarrow> 64 word \<Rightarrow> 64 word" where
  "sys_base lo hi = (drop_bit 16 lo AND 0xFFFFFF) OR push_bit 24 (drop_bit 56 lo AND 0xFF) OR push_bit 32 hi"

definition sys_kind :: "64 word \<Rightarrow> nat \<times> nat" where
  "sys_kind lo = (unat (drop_bit 40 lo AND 0x1F), unat (lo AND 0xFFFF))"

lemma gate_roundtrip:
  "gate_target \<lparr>offset_low = ucast (h AND 0xFFFF), selector = c, ist = i, type_attr = t,
       offset_mid = ucast (drop_bit 16 h AND 0xFFFF), offset_high = ucast (drop_bit 32 h AND 0xFFFFFFFF), gate_zero = z\<rparr> = h"
proof -
  have m: "(0xFFFF :: 64 word) = mask 16" "(0xFFFFFFFF :: 64 word) = mask 32" by (simp_all add: mask_eq_exp_minus_1)
  show ?thesis unfolding gate_target_def gate.simps m
  proof (rule bit_word_eqI)
    fix n assume "n < LENGTH(64)"
    then consider "n < 16" | "16 \<le> n" "n < 32" | "32 \<le> n" "n < 64" by force
    then show "bit (ucast (ucast (h AND mask 16) :: 16 word) OR push_bit 16 (ucast (ucast (drop_bit 16 h AND mask 16) :: 16 word)) OR
        push_bit 32 (ucast (ucast (drop_bit 32 h AND mask 32) :: 32 word)) :: 64 word) n = bit h n"
      by cases (auto simp: bit_simps)
  qed
qed

lemma fold_gates:
  "length idt = 256 \<Longrightarrow> k \<le> 256 \<Longrightarrow>
     length (fold (\<lambda>i. idt_set_gate c i h) [0..<k] idt) = 256 \<and>
     (\<forall>j < 256. fold (\<lambda>i. idt_set_gate c i h) [0..<k] idt ! j = (if j < k then idt_set_gate c j h idt ! j else idt ! j))"
  by (induction k) (auto simp: idt_set_gate_def nth_list_update less_Suc_eq)

text \<open>The cleared entry a table starts with.\<close>

definition gate0 :: gate where
  "gate0 = \<lparr>offset_low = 0, selector = 0, ist = 0, type_attr = 0, offset_mid = 0, offset_high = 0, gate_zero = 0\<rparr>"

text \<open>
  The interrupt table: after \<open>idt_init\<close> each of the 32 exception vectors leads to the exception stub and vector 0x21 to
  the keyboard stub, through present interrupt gates of ring 0 in the kernel's code segment; all other gates are
  as before, and the register's limit covers exactly the 256 gates of 16 bytes.
\<close>

theorem idt_init_gates:
  assumes "length idt = 256"
  shows "(let (idt', r) = idt_init c exc irq base idt in
    length idt' = 256 \<and> unat (tr_limit r) + 1 = 16 * length idt' \<and> tr_base r = base \<and>
    (\<forall>j < 256. if j < 32 \<or> j = 0x21
       then gate_target (idt' ! j) = (if j < 32 then exc else irq) \<and> gate_kind (idt' ! j) = (True, 0, 0xE) \<and> selector (idt' ! j) = c
       else idt' ! j = idt ! j))"
proof -
  note f = fold_gates [OF assms, of 32 c exc]
  have g: "idt_set_gate c j h xs ! j = \<lparr>offset_low = ucast (h AND 0xFFFF), selector = c, ist = 0, type_attr = 0x8E,
       offset_mid = ucast (drop_bit 16 h AND 0xFFFF), offset_high = ucast (drop_bit 32 h AND 0xFFFFFFFF), gate_zero = 0\<rparr>"
    if "j < length xs" for j h xs using that by (simp add: idt_set_gate_def)
  have o: "idt_set_gate c 0x21 irq xs ! j = xs ! j" if "j \<noteq> 0x21" for j xs using that by (simp add: idt_set_gate_def)
  have k: "gate_kind (idt_set_gate c j h xs ! j) = (True, 0, 0xE)" if "j < length xs" for j h xs
    unfolding g [OF that] by (simp add: gate_kind_def)
  have t: "gate_target (idt_set_gate c j h xs ! j) = h" "selector (idt_set_gate c j h xs ! j) = c" if "j < length xs" for j h xs
    unfolding g [OF that] by (simp_all only: gate_roundtrip gate.simps)
  have l: "length (idt_set_gate c j h xs) = length xs" for j h xs by (simp add: idt_set_gate_def)
  show ?thesis using f assms
    by (auto simp: idt_init_def Let_def l k t o)
qed

theorem idt_init_gates_witness:
  "gate_target (fst (idt_init 8 0x101000 0x102000 0x5000 (replicate 256 gate0)) ! 0x21) = 0x102000"
  using idt_init_gates [of "replicate 256 gate0" 8 "0x101000" "0x102000" "0x5000"] by (auto simp: Let_def split: prod.splits)

section \<open>Segments of the two rings\<close>

lemma rdmsr_wrmsr: "rdmsr (wrmsr m v r) n = (if n = m then v else rdmsr r n)"
proof -
  have mm: "(0xFFFFFFFF :: 64 word) = mask 32" by (simp add: mask_eq_exp_minus_1)
  have "push_bit 32 (ucast (ucast (drop_bit 32 v) :: 32 word)) OR ucast (ucast (v AND mask 32) :: 32 word) = v"
  proof (rule bit_word_eqI)
    fix n assume "n < LENGTH(64)"
    then consider "n < 32" | "32 \<le> n" "n < 64" by force
    then show "bit (push_bit 32 (ucast (ucast (drop_bit 32 v) :: 32 word)) OR ucast (ucast (v AND mask 32) :: 32 word) :: 64 word) n = bit v n"
      by cases (auto simp: bit_simps)
  qed
  then show ?thesis by (simp add: rdmsr_def wrmsr_def mm)
qed

lemma low_const: "bit (0x67 :: 64 word) n \<Longrightarrow> n < 7" "bit (0x89 :: 64 word) n \<Longrightarrow> n < 8"
proof -
  have c: "(0x67 :: 64 word) = 0x67 AND mask 7" "(0x89 :: 64 word) = 0x89 AND mask 8" by (simp_all add: mask_eq_exp_minus_1)
  show "bit (0x67 :: 64 word) n \<Longrightarrow> n < 7" by (subst (asm) c(1)) (simp add: bit_simps)
  show "bit (0x89 :: 64 word) n \<Longrightarrow> n < 8" by (subst (asm) c(2)) (simp add: bit_simps)
qed

lemma desc_fields:
  fixes a x y :: "64 word"
  assumes x: "\<And>n. bit x n \<Longrightarrow> n < 7" and y: "\<And>n. bit y n \<Longrightarrow> n < 8"
  defines "d \<equiv> x OR push_bit 16 (a AND mask 24) OR push_bit 40 y OR push_bit 56 (drop_bit 24 a AND mask 8)"
  shows "(drop_bit 16 d AND mask 24) OR push_bit 24 (drop_bit 56 d AND mask 8) OR push_bit 32 (drop_bit 32 a) = a"
    "drop_bit 40 d AND mask 5 = y AND mask 5" "d AND mask 16 = x"
proof -
  show "(drop_bit 16 d AND mask 24) OR push_bit 24 (drop_bit 56 d AND mask 8) OR push_bit 32 (drop_bit 32 a) = a"
  proof (rule bit_word_eqI)
    fix n assume "n < LENGTH(64)"
    then consider "n < 24" | "24 \<le> n" "n < 32" | "32 \<le> n" "n < 64" by force
    then show "bit ((drop_bit 16 d AND mask 24) OR push_bit 24 (drop_bit 56 d AND mask 8) OR push_bit 32 (drop_bit 32 a)) n = bit a n"
      by cases (auto simp: d_def bit_simps dest: x y)
  qed
  show "drop_bit 40 d AND mask 5 = y AND mask 5" by (rule bit_word_eqI) (auto simp: d_def bit_simps dest: x y)
  show "d AND mask 16 = x" by (rule bit_word_eqI) (auto simp: d_def bit_simps dest: x y)
qed

lemma tss_fields: "sys_base (tss_desc a) (drop_bit 32 a) = a" "sys_kind (tss_desc a) = (9, 0x67)"
proof -
  have m: "(0xFFFFFF :: 64 word) = mask 24" "(0xFF :: 64 word) = mask 8" "(0x1F :: 64 word) = mask 5" "(0xFFFF :: 64 word) = mask 16"
    by (simp_all add: mask_eq_exp_minus_1)
  note d = desc_fields [of "0x67" "0x89" a, OF low_const]
  show "sys_base (tss_desc a) (drop_bit 32 a) = a" unfolding sys_base_def tss_desc_def m by (rule d(1))
  have "(0x89 :: 64 word) AND mask 5 = 9" by (simp add: mask_eq_exp_minus_1)
  then have "drop_bit 40 (tss_desc a) AND mask 5 = 9" "tss_desc a AND mask 16 = 0x67" using d(2,3) unfolding tss_desc_def m by metis+
  then show "sys_kind (tss_desc a) = (9, 0x67)" unfolding sys_kind_def m by simp
qed

text \<open>
  (C25) The segments of kernel and user mode fit together: with the descriptors of \<open>gdt_install\<close> and the registers of \<open>syscall_init\<close>,
  the selectors a system call loads name ring-0 segments, and the selectors its return loads (16 and 8 above the upper field of \<open>STAR\<close>)
  are the ones \<open>jump_usermode\<close> pushes, 0x23 and 0x1B, and name a 64-bit code and a data segment of ring 3; system
  calls are enabled with interrupts masked, all other registers keep their value, and the task register's descriptor is an available
  task state segment at the address of \<open>tss\<close> whose limit is that of its 104 bytes, with the interrupt stack in \<open>rsp0\<close>.
\<close>

theorem rings_fit_together:
  "(let (gdt, t, reg, tr) = gdt_install tss_addr kstack base t0; r' = syscall_init entry r; star = rdmsr r' MSR_STAR;
        cs0 = unat (drop_bit 32 star AND 0xFFFF); cs3 = unat (drop_bit 48 star AND 0xFFFF) in
    unat (tr_limit reg) + 1 = 8 * length gdt \<and> rsp0 t = kstack \<and>
    desc_code (gdt ! (cs0 div 8)) \<and> desc_dpl (gdt ! (cs0 div 8)) = 0 \<and> desc_long (gdt ! (cs0 div 8)) \<and>
    desc_data (gdt ! ((cs0 + 8) div 8)) \<and> desc_dpl (gdt ! ((cs0 + 8) div 8)) = 0 \<and>
    cs3 + 16 + 3 = 0x23 \<and> cs3 + 8 + 3 = 0x1B \<and>
    desc_code (gdt ! (0x23 div 8)) \<and> desc_dpl (gdt ! (0x23 div 8)) = 3 \<and> desc_long (gdt ! (0x23 div 8)) \<and>
    desc_data (gdt ! (0x1B div 8)) \<and> desc_dpl (gdt ! (0x1B div 8)) = 3 \<and>
    (\<forall>j \<in> {1..4}. desc_present (gdt ! j)) \<and>
    bit (rdmsr r' MSR_EFER) 0 \<and> rdmsr r' MSR_LSTAR = entry \<and> rdmsr r' MSR_FMASK = 0x200 \<and>
    (\<forall>n. n \<notin> {MSR_EFER, MSR_STAR, MSR_LSTAR, MSR_FMASK} \<longrightarrow> rdmsr r' n = rdmsr r n) \<and>
    sys_base (gdt ! (unat tr div 8)) (gdt ! (unat tr div 8 + 1)) = tss_addr \<and> sys_kind (gdt ! (unat tr div 8)) = (9, unat (iomap_base t) - 1))"
proof -
  have s4: "{1..4 :: nat} = {1, 2, 3, 4}" by auto
  show ?thesis
    unfolding gdt_install_def syscall_init_def Let_def split s4
    by (simp add: rdmsr_wrmsr tss_fields desc_code_def desc_dpl_def desc_long_def desc_data_def desc_present_def bit_or_iff)
qed

theorem rings_fit_together_witness:
  "rdmsr (syscall_init 0x101000 (\<lambda>n. (0x500, 0))) 0xC0000100 = 0x500 \<and>
   sys_base (fst (gdt_install 0x104000 0x106000 0x105000 \<lparr>rsp0 = 0, rsp1 = 0, rsp2 = 0, tss_ist = [], iomap_base = 0\<rparr>) ! 5)
     (fst (gdt_install 0x104000 0x106000 0x105000 \<lparr>rsp0 = 0, rsp1 = 0, rsp2 = 0, tss_ist = [], iomap_base = 0\<rparr>) ! 6) = 0x104000"
proof -
  note f = rings_fit_together [of "0x104000" "0x106000" "0x105000" "\<lparr>rsp0 = 0, rsp1 = 0, rsp2 = 0, tss_ist = [], iomap_base = 0\<rparr>"
    "0x101000" "\<lambda>n. (0x500, 0)"]
  have "rdmsr (\<lambda>n. (0x500, 0)) 0xC0000100 = 0x500" by (simp add: rdmsr_def)
  moreover have "rdmsr (syscall_init 0x101000 (\<lambda>n. (0x500, 0))) 0xC0000100 = rdmsr (\<lambda>n. (0x500, 0)) 0xC0000100"
    using f unfolding Let_def split_beta by (elim conjE) (erule allE [of _ "0xC0000100"], simp)
  ultimately show ?thesis using f unfolding Let_def split_beta by (simp add: gdt_install_def)
qed

end
