(* ===== verification/Keyboard.thy ===== *)
theory Keyboard
  imports Prelude
begin

text \<open>
  The PS/2 keyboard driver, \<^verbatim>\<open>drivers/keyboard/keyboard.c\<close>: the scan-code decoder, the 32-slot
  ring buffer between the interrupt handler (producer) and \<open>getchar\<close> (consumer), and the
  interleavings of the two as a step relation. The locale \<open>bounded_queue\<close> states what the
  system-call layer relies on; the ring is an interpretation of it.
\<close>

section \<open>Data\<close>

definition KEY_UP :: byte where "KEY_UP = 0x80"
definition KEY_DOWN :: byte where "KEY_DOWN = 0x81"
definition KEY_LEFT :: byte where "KEY_LEFT = 0x82"
definition KEY_RIGHT :: byte where "KEY_RIGHT = 0x83"
definition KEY_DEL :: byte where "KEY_DEL = 0x84"

lemmas key_defs = KEY_UP_def KEY_DOWN_def KEY_LEFT_def KEY_RIGHT_def KEY_DEL_def

definition BUFSIZE :: nat where "BUFSIZE = 32"

text \<open>
  Both tables have 128 entries; the initialisers give 59 and C fills the rest with 0.
\<close>

definition kbd_map :: "byte list" where
  "kbd_map = [0, 27] @ cs ''1234567890-='' @ [8, 9] @ cs ''qwertyuiop[]'' @ [10, 0]
     @ cs ''asdfghjkl;'' @ [39, 96, 0, 92] @ cs ''zxcvbnm,./'' @ [0, 42, 0, 32, 0]
     @ replicate 69 0"

definition shift_map :: "byte list" where
  "shift_map = [0, 27] @ cs ''!@#$%^&*()_+'' @ [8, 9] @ cs ''QWERTYUIOP{}'' @ [10, 0]
     @ cs ''ASDFGHJKL:'' @ [34, 126, 0, 124] @ cs ''ZXCVBNM<>?'' @ [0, 42, 0, 32, 0]
     @ replicate 69 0"

text \<open>The file's static variables.\<close>

record kbd =
  k_buf :: "byte list"
  k_head :: nat
  k_tail :: nat
  k_e0 :: bool
  k_shift :: bool
  k_caps :: bool

definition kbd_init :: kbd where
  "kbd_init = \<lparr>k_buf = replicate BUFSIZE 0, k_head = 0, k_tail = 0,
     k_e0 = False, k_shift = False, k_caps = False\<rparr>"

section \<open>Operations\<close>

definition push :: "byte \<Rightarrow> kbd \<Rightarrow> kbd" where
  "push c k = (let nxt = (k_head k + 1) mod BUFSIZE in
     if nxt = k_tail k then k
     else k\<lparr>k_buf := (k_buf k)[k_head k := c], k_head := nxt\<rparr>)"

text \<open>\<open>None\<close> is the \<open>hlt\<close> loop: nothing is buffered and the caller waits for an interrupt.\<close>

definition getchar :: "kbd \<Rightarrow> (byte \<times> kbd) option" where
  "getchar k = (if k_tail k = k_head k then None
     else Some (k_buf k ! k_tail k, k\<lparr>k_tail := (k_tail k + 1) mod BUFSIZE\<rparr>))"

text \<open>
  \<open>kbd_decode\<close> takes the values its three pointer arguments refer to and returns the result
  and their new values. All results lie between 0 and 0x84.
\<close>

definition kbd_decode :: "byte \<Rightarrow> bool \<Rightarrow> bool \<Rightarrow> bool \<Rightarrow> byte \<times> bool \<times> bool \<times> bool" where
  "kbd_decode sc e0s shifts capsv =
     (if sc = 0xE0 then (0, True, shifts, capsv)
      else if sc = 0x2A \<or> sc = 0x36 then (0, e0s, True, capsv)
      else if sc = 0xAA \<or> sc = 0xB6 then (0, e0s, False, capsv)
      else if sc = 0x3A then (0, e0s, shifts, \<not> capsv)
      else if e0s then
        ((if sc AND 0x80 \<noteq> 0 then 0
          else if sc = 0x48 then KEY_UP
          else if sc = 0x50 then KEY_DOWN
          else if sc = 0x4B then KEY_LEFT
          else if sc = 0x4D then KEY_RIGHT
          else if sc = 0x53 then KEY_DEL
          else 0), False, shifts, capsv)
      else if 128 \<le> sc \<or> sc AND 0x80 \<noteq> 0 then (0, e0s, shifts, capsv)
      else (let base = kbd_map ! unat sc in
        (if base = 0 then 0
         else if ch (CHR ''a'') \<le> base \<and> base \<le> ch (CHR ''z'')
           then (if shifts \<noteq> capsv then base - 32 else base)
         else if shifts then shift_map ! unat sc else base,
         e0s, shifts, capsv)))"

text \<open>\<open>keyboard_handler\<close> takes the byte read from port 0x60 and ends with the PIC's EOI.\<close>

definition keyboard_handler :: "byte \<Rightarrow> kbd \<Rightarrow> kbd \<times> io_ev list" where
  "keyboard_handler sc k =
     (let (c, e, s, p) = kbd_decode sc (k_e0 k) (k_shift k) (k_caps k);
          k1 = k\<lparr>k_e0 := e, k_shift := s, k_caps := p\<rparr>
      in (if c \<noteq> 0 then push c k1 else k1, [OutB 0x20 0x20]))"

section \<open>The ring as a bounded queue\<close>

definition ring_len :: "kbd \<Rightarrow> nat" where
  "ring_len k = (k_head k + BUFSIZE - k_tail k) mod BUFSIZE"

definition contents :: "kbd \<Rightarrow> byte list" where
  "contents k = map (\<lambda>i. k_buf k ! ((k_tail k + i) mod BUFSIZE)) [0..<ring_len k]"

definition kbd_inv :: "kbd \<Rightarrow> bool" where
  "kbd_inv k \<longleftrightarrow> length (k_buf k) = BUFSIZE \<and> k_head k < BUFSIZE \<and> k_tail k < BUFSIZE"

locale bounded_queue =
  fixes enq :: "'a \<Rightarrow> 'q \<Rightarrow> 'q"
    and deq :: "'q \<Rightarrow> ('a \<times> 'q) option"
    and list_of :: "'q \<Rightarrow> 'a list"
    and invar :: "'q \<Rightarrow> bool"
    and cap :: nat
  assumes list_enq: "invar q \<Longrightarrow>
      list_of (enq x q) = (if length (list_of q) < cap then list_of q @ [x] else list_of q)"
    and invar_enq: "invar q \<Longrightarrow> invar (enq x q)"
    and deq_None: "invar q \<Longrightarrow> deq q = None \<longleftrightarrow> list_of q = []"
    and deq_Some: "invar q \<Longrightarrow> deq q = Some (x, q') \<Longrightarrow> list_of q = x # list_of q' \<and> invar q'"
    and list_cap: "invar q \<Longrightarrow> length (list_of q) \<le> cap"
begin

lemma invar_enqs: "invar q \<Longrightarrow> invar (fold enq xs q)"
  by (induction xs arbitrary: q) (auto simp: invar_enq)

text \<open>A burst keeps its first elements, as many as fit, in order; the rest is dropped.\<close>

lemma list_enqs:
  "invar q \<Longrightarrow> list_of (fold enq xs q) = list_of q @ take (cap - length (list_of q)) xs"
proof (induction xs arbitrary: q)
  case (Cons x xs)
  then show ?case
    using Cons.IH [of "enq x q"] list_cap [of q]
    by (auto simp: invar_enq list_enq take_Cons' Suc_diff_Suc)
qed simp

lemma deq_enqs_first:
  assumes "invar q" and "list_of q = []" and "0 < cap"
  shows "\<exists>q'. deq (fold enq (x # xs) q) = Some (x, q')"
proof -
  have inv: "invar (fold enq (x # xs) q)" using assms(1) by (rule invar_enqs)
  have l: "list_of (fold enq (x # xs) q) = take cap (x # xs)"
    using list_enqs [OF assms(1), of "x # xs"] assms(2) by simp
  with assms(3) have "deq (fold enq (x # xs) q) \<noteq> None"
    using deq_None [OF inv] by (cases cap) auto
  then obtain y q' where y: "deq (fold enq (x # xs) q) = Some (y, q')" by auto
  then have "y = x" using deq_Some [OF inv y] l assms(3) by (cases cap) auto
  with y show ?thesis by blast
qed

end

lemma length_contents [simp]: "length (contents k) = ring_len k"
  by (simp add: contents_def)

lemma ring_len_less: "ring_len k < BUFSIZE"
  by (simp add: ring_len_def BUFSIZE_def)

lemma ring_len_eq:
  "kbd_inv k \<Longrightarrow> ring_len k = (if k_tail k \<le> k_head k then k_head k - k_tail k else k_head k + 32 - k_tail k)"
  by (auto simp: kbd_inv_def ring_len_def BUFSIZE_def mod_wrap)

lemma ring_full_iff:
  "kbd_inv k \<Longrightarrow> (k_head k + 1) mod BUFSIZE = k_tail k \<longleftrightarrow> ring_len k = 31"
  by (auto simp: ring_len_eq kbd_inv_def BUFSIZE_def mod_wrap)

lemma push_inv [inv_intros]: "kbd_inv k \<Longrightarrow> kbd_inv (push c k)"
  by (auto simp: kbd_inv_def push_def Let_def BUFSIZE_def)

text \<open>The slots of the buffered bytes are not the next free slot, which follows them.\<close>

lemma ring_slot: "kbd_inv k \<Longrightarrow> i < ring_len k \<Longrightarrow> (k_tail k + i) mod BUFSIZE \<noteq> k_head k"
  by (auto simp: ring_len_eq kbd_inv_def BUFSIZE_def mod_wrap split: if_splits)

lemma ring_slot_head: "kbd_inv k \<Longrightarrow> (k_tail k + ring_len k) mod BUFSIZE = k_head k"
  by (auto simp: ring_len_eq kbd_inv_def BUFSIZE_def mod_wrap)

lemma contents_push:
  assumes inv: "kbd_inv k"
  shows "contents (push c k) = (if ring_len k < 31 then contents k @ [c] else contents k)"
proof (cases "ring_len k < 31")
  case True
  let ?k = "k\<lparr>k_buf := (k_buf k)[k_head k := c], k_head := (k_head k + 1) mod BUFSIZE\<rparr>"
  have push: "push c k = ?k"
    using True ring_full_iff [OF inv] by (simp add: push_def Let_def)
  with push_inv [OF inv, of c] have inv': "kbd_inv ?k" by simp
  have len: "ring_len ?k = Suc (ring_len k)"
    using True unfolding ring_len_eq [OF inv'] ring_len_eq [OF inv]
    using inv by (auto simp: kbd_inv_def BUFSIZE_def mod_wrap split: if_splits)
  have "contents ?k = contents k @ [c]"
    unfolding contents_def len
    using inv ring_slot_head [OF inv]
    by (auto simp: kbd_inv_def ring_slot [OF inv] ring_slot [OF inv, symmetric])
  with True push show ?thesis by simp
next
  case False
  then have "ring_len k = 31" using ring_len_less [of k] by (simp add: BUFSIZE_def)
  then show ?thesis using ring_full_iff [OF inv] by (simp add: push_def Let_def)
qed

lemma getchar_None: "kbd_inv k \<Longrightarrow> getchar k = None \<longleftrightarrow> contents k = []"
  by (auto simp: getchar_def contents_def ring_len_eq kbd_inv_def BUFSIZE_def)

lemma getchar_inv [inv_intros]: "kbd_inv k \<Longrightarrow> getchar k = Some (c, k') \<Longrightarrow> kbd_inv k'"
  by (auto simp: getchar_def kbd_inv_def BUFSIZE_def split: if_splits)

lemma contents_getchar:
  assumes inv: "kbd_inv k" and got: "getchar k = Some (c, k')"
  shows "contents k = c # contents k'"
proof -
  from got have ne: "k_tail k \<noteq> k_head k" and c: "c = k_buf k ! k_tail k"
    and k': "k' = k\<lparr>k_tail := (k_tail k + 1) mod BUFSIZE\<rparr>"
    by (auto simp: getchar_def split: if_splits)
  have len: "ring_len k = Suc (ring_len k')"
    unfolding ring_len_eq [OF inv] ring_len_eq [OF getchar_inv [OF inv got]]
    using inv ne by (auto simp: k' kbd_inv_def BUFSIZE_def mod_wrap)
  show ?thesis
    using inv unfolding contents_def len
    by (simp add: map_upt_Suc c k' kbd_inv_def mod_simps del: upt_Suc)
qed

interpretation ring: bounded_queue push getchar contents kbd_inv 31
proof unfold_locales
  show "length (contents q) \<le> 31" for q
    using ring_len_less [of q] by (simp add: BUFSIZE_def)
qed (auto simp: contents_push push_inv getchar_None dest: getchar_inv contents_getchar)

section \<open>Interrupts and readers interleaved\<close>

text \<open>
  \<open>getchar\<close> runs with interrupts enabled, so an interrupt can come between any two reads. A
  step is one interrupt (labelled with its scan code) or one completed read (labelled with the
  byte it returns); a read on an empty ring has no step, it waits.
\<close>

datatype kbd_label = Irq byte | Got byte

inductive kbd_step :: "kbd \<Rightarrow> kbd_label \<Rightarrow> kbd \<Rightarrow> bool" where
  irq: "kbd_step k (Irq sc) (fst (keyboard_handler sc k))"
| got: "getchar k = Some (c, k') \<Longrightarrow> kbd_step k (Got c) k'"

inductive kbd_steps :: "kbd \<Rightarrow> kbd_label list \<Rightarrow> kbd \<Rightarrow> bool" where
  none: "kbd_steps k [] k"
| more: "kbd_step k l k1 \<Longrightarrow> kbd_steps k1 ls k2 \<Longrightarrow> kbd_steps k (l # ls) k2"

inductive_cases kbd_step_IrqE: "kbd_step k (Irq sc) k'"
inductive_cases kbd_step_GotE: "kbd_step k (Got c) k'"
inductive_simps kbd_steps_simps: "kbd_steps k [] k'" "kbd_steps k (l # ls) k'"

fun delivered :: "kbd_label list \<Rightarrow> byte list" where
  "delivered [] = []"
| "delivered (Got c # ls) = c # delivered ls"
| "delivered (Irq sc # ls) = delivered ls"

text \<open>What the user typed: the non-zero decodings of the scan codes, in order.\<close>

fun typed :: "bool \<times> bool \<times> bool \<Rightarrow> kbd_label list \<Rightarrow> byte list" where
  "typed m [] = []"
| "typed m (Got c # ls) = typed m ls"
| "typed (e, s, p) (Irq sc # ls) =
     (let (c, m') = kbd_decode sc e s p in (if c \<noteq> 0 then [c] else []) @ typed m' ls)"

abbreviation kmods :: "kbd \<Rightarrow> bool \<times> bool \<times> bool" where
  "kmods k \<equiv> (k_e0 k, k_shift k, k_caps k)"

lemma contents_mods [simp]: "contents (k\<lparr>k_e0 := e, k_shift := s, k_caps := p\<rparr>) = contents k"
  by (simp add: contents_def ring_len_def)

lemma kbd_inv_mods [simp]: "kbd_inv (k\<lparr>k_e0 := e, k_shift := s, k_caps := p\<rparr>) = kbd_inv k"
  by (simp add: kbd_inv_def)

lemma push_mods [simp]: "k_e0 (push c k) = k_e0 k" "k_shift (push c k) = k_shift k" "k_caps (push c k) = k_caps k"
  by (simp_all add: push_def Let_def)

lemma getchar_mods: "getchar k = Some (c, k') \<Longrightarrow> kmods k' = kmods k"
  by (auto simp: getchar_def split: if_splits)

lemma keyboard_handler_inv [inv_intros]: "kbd_inv k \<Longrightarrow> kbd_inv (fst (keyboard_handler sc k))"
  by (auto simp: keyboard_handler_def Let_def push_inv split: prod.splits)

lemma kbd_step_inv [inv_intros]: "kbd_step k l k' \<Longrightarrow> kbd_inv k \<Longrightarrow> kbd_inv k'"
  by (induction rule: kbd_step.induct) (auto intro: inv_intros)

lemma handler_mods:
  "kbd_decode sc (k_e0 k) (k_shift k) (k_caps k) = (c, m) \<Longrightarrow> kmods (fst (keyboard_handler sc k)) = m"
  by (cases m) (auto simp: keyboard_handler_def Let_def)

lemma handler_contents:
  assumes "kbd_inv k" and "kbd_decode sc (k_e0 k) (k_shift k) (k_caps k) = (c, m)"
  shows "contents (fst (keyboard_handler sc k)) =
    contents k @ (if c \<noteq> 0 \<and> ring_len k < 31 then [c] else [])"
proof -
  have "ring_len (k\<lparr>k_e0 := e, k_shift := s, k_caps := p\<rparr>) = ring_len k" for e s p
    by (simp add: ring_len_def)
  with assms show ?thesis
    by (cases m) (auto simp: keyboard_handler_def Let_def contents_push)
qed

lemma kbd_steps_subseq:
  "kbd_steps k ls k' \<Longrightarrow> kbd_inv k \<Longrightarrow>
     subseq (delivered ls @ contents k') (contents k @ typed (kmods k) ls)"
proof (induction rule: kbd_steps.induct)
  case (more k l k1 ls k2)
  have IH: "subseq (delivered ls @ contents k2) (contents k1 @ typed (kmods k1) ls)"
    using more kbd_step_inv by blast
  show ?case
  proof (cases l)
    case (Irq sc)
    then have k1: "k1 = fst (keyboard_handler sc k)" using more.hyps by (auto elim: kbd_step_IrqE)
    obtain c m where d: "kbd_decode sc (k_e0 k) (k_shift k) (k_caps k) = (c, m)" by (meson surj_pair)
    have "subseq (contents k1 @ typed (kmods k1) ls) (contents k @ typed (kmods k) (l # ls))"
      unfolding k1 handler_mods [OF d] handler_contents [OF more.prems d]
      by (auto simp: d Irq subseq_append')
    with IH show ?thesis by (auto simp: Irq intro: subseq_order.trans)
  next
    case (Got c)
    then have g: "getchar k = Some (c, k1)" using more.hyps by (auto elim: kbd_step_GotE)
    show ?thesis
      using IH contents_getchar [OF more.prems g] getchar_mods [OF g] by (simp add: Got)
  qed
qed simp

lemma kbd_steps_lossless:
  "kbd_steps k ls k' \<Longrightarrow> kbd_inv k \<Longrightarrow> length (contents k @ typed (kmods k) ls) \<le> 31 \<Longrightarrow>
     delivered ls @ contents k' = contents k @ typed (kmods k) ls"
proof (induction rule: kbd_steps.induct)
  case (more k l k1 ls k2)
  have inv1: "kbd_inv k1" using more kbd_step_inv by blast
  show ?case
  proof (cases l)
    case (Irq sc)
    then have k1: "k1 = fst (keyboard_handler sc k)" using more.hyps by (auto elim: kbd_step_IrqE)
    obtain c m where d: "kbd_decode sc (k_e0 k) (k_shift k) (k_caps k) = (c, m)" by (meson surj_pair)
    have "contents k1 @ typed (kmods k1) ls = contents k @ typed (kmods k) (l # ls)"
      using more.prems unfolding k1 handler_mods [OF d] handler_contents [OF more.prems(1) d]
      by (auto simp: d Irq split: if_splits)
    with more.IH [OF inv1] more.prems show ?thesis by (simp add: Irq)
  next
    case (Got c)
    then have g: "getchar k = Some (c, k1)" using more.hyps by (auto elim: kbd_step_GotE)
    show ?thesis
      using more.IH [OF inv1] more.prems contents_getchar [OF more.prems(1) g] getchar_mods [OF g]
      by (simp add: Got)
  qed
qed simp

lemma kbd_inv_init: "kbd_inv kbd_init"
  and contents_init: "contents kbd_init = []"
  and kmods_init: "kmods kbd_init = (False, False, False)"
  by (simp_all add: kbd_inv_def kbd_init_def BUFSIZE_def contents_def ring_len_def)

section \<open>Properties\<close>

text \<open>
  (C14) Under every interleaving of interrupts and reads from the initial state, what the
  readers have received followed by what is still buffered is a subsequence of what was typed
  (nothing is invented, duplicated or reordered), and it is exactly what was typed as long as
  no more than 31 characters were typed.
\<close>

theorem keyboard_delivery:
  assumes "kbd_steps kbd_init ls k"
  shows "subseq (delivered ls @ contents k) (typed (False, False, False) ls) \<and>
    (length (typed (False, False, False) ls) \<le> 31 \<longrightarrow>
      delivered ls @ contents k = typed (False, False, False) ls)"
  using kbd_steps_subseq [OF assms kbd_inv_init] kbd_steps_lossless [OF assms kbd_inv_init]
  unfolding contents_init kmods_init by simp

theorem keyboard_delivery_witness:
  "\<exists>k. kbd_steps kbd_init [Irq 0x2A, Irq 0x1E, Got 65, Irq 0x30] k \<and>
     delivered [Irq 0x2A, Irq 0x1E, Got 65, Irq 0x30] @ contents k = [65, 66]"
proof -
  let ?ls = "[Irq 0x2A, Irq 0x1E, Got 65, Irq 0x30]"
  have t: "typed (False, False, False) ?ls = [65, 66]"
    by (simp add: kbd_decode_def kbd_map_def cs_def ch_def)
  define k2 where "k2 = fst (keyboard_handler 0x1E (fst (keyboard_handler 0x2A kbd_init)))"
  have "getchar k2 = Some (65, snd (the (getchar k2)))"
    by (simp add: k2_def keyboard_handler_def kbd_decode_def kbd_map_def cs_def ch_def kbd_init_def
        push_def getchar_def BUFSIZE_def)
  then obtain k where k: "kbd_steps kbd_init ?ls k"
    unfolding k2_def by (blast intro: kbd_steps.intros kbd_step.intros)
  show ?thesis using keyboard_delivery [OF k] k unfolding t by auto
qed

text \<open>
  A burst of characters with no reader keeps the first 31 in order and drops the rest:
  the 32-slot ring holds one less than its size.
\<close>

theorem keyboard_burst: "contents (fold push xs kbd_init) = take 31 xs"
  using ring.list_enqs [OF kbd_inv_init, of xs] by (simp add: contents_init)

text \<open>The two tables agree on the letters and hold ASCII only.\<close>

lemma tables_agree:
  "list_all2 (\<lambda>b t. b < 128 \<and> t < 128 \<and> (b = 0 \<longleftrightarrow> t = 0) \<and> (97 \<le> b \<and> b \<le> 122 \<longrightarrow> t = b - 32))
     kbd_map shift_map"
  by (simp add: kbd_map_def shift_map_def cs_def ch_def list_all2_conv_all_nth [of _ "replicate _ _"])

lemma kbd_map_length: "length kbd_map = 128" "length shift_map = 128"
  by (simp_all add: kbd_map_def shift_map_def cs_def)

lemma bit7_small: "sc < 128 \<Longrightarrow> sc AND 0x80 = (0 :: byte)"
  using bit_below [of sc 7] and_exp_eq_0_iff_not_bit [of sc 7] by simp

text \<open>
  Outside an E0 sequence a key-down code that is not a modifier yields the entry of the
  layout table that the modifiers select: for a letter the shifted table exactly when one of
  Shift and Caps Lock is active, for any other key the shifted table exactly when Shift is. The
  result is an ASCII character, never one of the extended keys, and the modifiers are kept.
\<close>

theorem decode_plain_key:
  assumes "sc < 128" and "sc \<notin> {0x2A, 0x36, 0x3A}"
  shows "kbd_decode sc False s p =
      ((if (if 97 \<le> kbd_map ! unat sc \<and> kbd_map ! unat sc \<le> 122 then s \<noteq> p else s)
        then shift_map ! unat sc else kbd_map ! unat sc), False, s, p)
    \<and> fst (kbd_decode sc False s p) < 128"
proof -
  have n: "unat sc < 128" using assms(1) by (simp add: word_less_nat_alt)
  with tables_agree have t: "kbd_map ! unat sc < 128" "shift_map ! unat sc < 128"
    "kbd_map ! unat sc = 0 \<longleftrightarrow> shift_map ! unat sc = 0"
    "97 \<le> kbd_map ! unat sc \<and> kbd_map ! unat sc \<le> 122 \<Longrightarrow> shift_map ! unat sc = kbd_map ! unat sc - 32"
    by (auto simp: list_all2_conv_all_nth kbd_map_length)
  have ne: "sc \<noteq> 0xE0" "sc \<noteq> 0xAA" "sc \<noteq> 0xB6" "\<not> 128 \<le> sc"
    using assms(1) by auto
  have *: "kbd_decode sc False s p =
      ((if (if 97 \<le> kbd_map ! unat sc \<and> kbd_map ! unat sc \<le> 122 then s \<noteq> p else s)
        then shift_map ! unat sc else kbd_map ! unat sc), False, s, p)"
    using assms ne t(3,4) bit7_small [OF assms(1)]
    by (auto simp: kbd_decode_def ch_def Let_def)
  then show ?thesis using t(1,2) by simp
qed

theorem decode_plain_key_witness:
  "(0x1E :: byte) < 128 \<and> kbd_decode 0x1E False True False = (65, False, True, False)"
  using decode_plain_key [of "0x1E" True False]
  by (simp add: kbd_map_def shift_map_def cs_def ch_def)

text \<open>
  The E0 prefix is not consumed by a Shift code, which some keyboards send after it (the
  "fake shift" around the navigation keys): the release sequence E0 AA leaves the prefix
  pending, and the next ordinary key-down, here the letter a, is lost.
\<close>

theorem e0_prefix_leaks:
  "typed (False, s, p) [Irq 0xE0, Irq 0xAA, Irq 0x1E] = [] \<and>
   typed (False, False, False) [Irq 0x1E] = [ch (CHR ''a'')]"
  by (simp add: kbd_decode_def kbd_map_def cs_def ch_def)

end
