(* ===== verification/Codec.thy ===== *)
theory Codec
  imports Prelude
begin

text \<open>
  The little-endian accessors of \<^verbatim>\<open>kernel/fat.c\<close> (\<open>rd16\<close>, \<open>rd32\<close>, \<open>wr16\<close>, \<open>wr32\<close>). A C
  pointer into a sector buffer is the buffer and an offset. The locale \<open>le_codec\<close> is the
  interface the directory and FAT code relies on: what was put is got back, and a put changes
  only the bytes of its own field.
\<close>

section \<open>Accessors\<close>

definition rd16 :: "byte list \<Rightarrow> nat \<Rightarrow> 16 word" where
  "rd16 xs p = ucast (xs ! p) OR push_bit 8 (ucast (xs ! (p + 1)))"

definition rd32 :: "byte list \<Rightarrow> nat \<Rightarrow> 32 word" where
  "rd32 xs p = ucast (xs ! p) OR push_bit 8 (ucast (xs ! (p + 1))) OR
     push_bit 16 (ucast (xs ! (p + 2))) OR push_bit 24 (ucast (xs ! (p + 3)))"

definition wr16 :: "nat \<Rightarrow> 16 word \<Rightarrow> byte list \<Rightarrow> byte list" where
  "wr16 p v xs = xs[p := ucast (v AND 0xFF), p + 1 := ucast (drop_bit 8 v AND 0xFF)]"

definition wr32 :: "nat \<Rightarrow> 32 word \<Rightarrow> byte list \<Rightarrow> byte list" where
  "wr32 p v xs = xs[p := ucast (v AND 0xFF), p + 1 := ucast (drop_bit 8 v AND 0xFF),
     p + 2 := ucast (drop_bit 16 v AND 0xFF), p + 3 := ucast (drop_bit 24 v AND 0xFF)]"

section \<open>The interface\<close>

locale le_codec =
  fixes get :: "byte list \<Rightarrow> nat \<Rightarrow> 'a::len word"
    and put :: "nat \<Rightarrow> 'a word \<Rightarrow> byte list \<Rightarrow> byte list"
    and width :: nat
  assumes get_put: "p + width \<le> length xs \<Longrightarrow> get (put p v xs) p = v"
    and length_put: "length (put p v xs) = length xs"
    and nth_put: "i < p \<or> p + width \<le> i \<Longrightarrow> put p v xs ! i = xs ! i"
    and get_cong: "(\<And>i. p \<le> i \<Longrightarrow> i < p + width \<Longrightarrow> xs ! i = ys ! i) \<Longrightarrow> get xs p = get ys p"
begin

text \<open>A field is not disturbed by a put to a field that does not overlap it.\<close>

lemma get_put_disjoint:
  assumes "q + width \<le> p \<or> p + width \<le> q"
  shows "get (put p v xs) q = get xs q"
  using assms by (intro get_cong nth_put) auto

lemma get_update_disjoint:
  assumes "i < p \<or> p + width \<le> i"
  shows "get (xs[i := b]) p = get xs p"
  using assms by (intro get_cong) auto

end

lemma join16:
  "ucast (ucast v :: byte) OR push_bit 8 (ucast (ucast (drop_bit 8 v) :: byte)) = (v :: 16 word)"
  (is "?l = v")
proof (rule bit_word_eqI)
  fix n assume "n < LENGTH(16)"
  then consider "n < 8" | "8 \<le> n" "n < 16" by force
  then show "bit ?l n = bit v n" by cases (auto simp: bit_simps)
qed

lemma join32:
  "ucast (ucast v :: byte) OR push_bit 8 (ucast (ucast (drop_bit 8 v) :: byte)) OR
     push_bit 16 (ucast (ucast (drop_bit 16 v) :: byte)) OR
     push_bit 24 (ucast (ucast (drop_bit 24 v) :: byte)) = (v :: 32 word)"
  (is "?l = v")
proof (rule bit_word_eqI)
  fix n assume "n < LENGTH(32)"
  then consider "n < 8" | "8 \<le> n" "n < 16" | "16 \<le> n" "n < 24" | "24 \<le> n" "n < 32" by force
  then show "bit ?l n = bit v n" by cases (auto simp: bit_simps)
qed

interpretation le16: le_codec rd16 wr16 2
  by unfold_locales (auto simp: rd16_def wr16_def join16 nth_list_update)

interpretation le32: le_codec rd32 wr32 4
  by unfold_locales (auto simp: rd32_def wr32_def join32 nth_list_update)

lemmas codec_length [simp] = le16.length_put le32.length_put

end
