(* ===== verification/Ide.thy ===== *)
theory Ide
  imports Codec
begin

text \<open>
  The ATA PIO driver of \<^verbatim>\<open>drivers/ide/ide.c\<close>. The port instructions of \<^verbatim>\<open>arch/x86_64/io.h\<close> act on
  hardware, which is a parameter: the record \<open>ata\<close> gives what a port read returns and what a read
  or write does to the drive. The locale \<open>ata_drive\<close> states the part of the ATA protocol the
  driver relies on, register by register; in it the driver is proved to implement the block device
  of the locale \<open>block_dev\<close>, which the partition and FAT code use. A simulated drive shows that the
  protocol can be met.
\<close>

section \<open>Ports\<close>

record 'd ata =
  a_inb :: "port \<Rightarrow> 'd \<Rightarrow> byte \<times> 'd"
  a_inw :: "port \<Rightarrow> 'd \<Rightarrow> 16 word \<times> 'd"
  a_outb :: "port \<Rightarrow> byte \<Rightarrow> 'd \<Rightarrow> 'd"
  a_outw :: "port \<Rightarrow> 16 word \<Rightarrow> 'd \<Rightarrow> 'd"

abbreviation BASE :: port where "BASE \<equiv> 0x1F0"
abbreviation CTL :: port where "CTL \<equiv> 0x3F6"
abbreviation REG_COUNT :: port where "REG_COUNT \<equiv> 0x1F2"
abbreviation REG_LBA0 :: port where "REG_LBA0 \<equiv> 0x1F3"
abbreviation REG_LBA1 :: port where "REG_LBA1 \<equiv> 0x1F4"
abbreviation REG_LBA2 :: port where "REG_LBA2 \<equiv> 0x1F5"
abbreviation REG_DRIVE :: port where "REG_DRIVE \<equiv> 0x1F6"
abbreviation REG_CMD :: port where "REG_CMD \<equiv> 0x1F7"
abbreviation ST_BSY :: byte where "ST_BSY \<equiv> 0x80"
abbreviation ST_DRDY :: byte where "ST_DRDY \<equiv> 0x40"
abbreviation ST_DRQ :: byte where "ST_DRQ \<equiv> 0x08"
abbreviation ST_ERR :: byte where "ST_ERR \<equiv> 0x01"

record 'd ide =
  i_total :: "64 word"
  i_present :: bool
  i_dev :: 'd

section \<open>The driver\<close>

definition delay400 :: "'d ata \<Rightarrow> 'd \<Rightarrow> 'd" where
  "delay400 hw d =
     (let d1 = snd (a_inb hw CTL d); d2 = snd (a_inb hw CTL d1); d3 = snd (a_inb hw CTL d2)
      in snd (a_inb hw CTL d3))"

text \<open>
  The polling loops. The counter is decremented after it is tested, so a counter of 0 still reads
  the status once, and the result is decided by the counter that is left, not by the status.
\<close>

fun wait_clear :: "'d ata \<Rightarrow> byte \<Rightarrow> nat \<Rightarrow> 'd \<Rightarrow> bool \<times> 'd" where
  "wait_clear hw msk 0 d = (False, snd (a_inb hw REG_CMD d))"
| "wait_clear hw msk (Suc t) d =
     (let (v, d') = a_inb hw REG_CMD d in if v AND msk = 0 then (True, d') else wait_clear hw msk t d')"

fun wait_set :: "'d ata \<Rightarrow> byte \<Rightarrow> nat \<Rightarrow> 'd \<Rightarrow> bool \<times> 'd" where
  "wait_set hw msk 0 d = (False, snd (a_inb hw REG_CMD d))"
| "wait_set hw msk (Suc t) d =
     (let (v, d') = a_inb hw REG_CMD d in if v AND msk \<noteq> 0 then (True, d') else wait_set hw msk t d')"

fun read_words :: "'d ata \<Rightarrow> nat \<Rightarrow> 'd \<Rightarrow> 16 word list \<times> 'd" where
  "read_words hw 0 d = ([], d)"
| "read_words hw (Suc n) d =
     (let (w, d1) = a_inw hw BASE d; (ws, d2) = read_words hw n d1 in (w # ws, d2))"

fun write_words :: "'d ata \<Rightarrow> 16 word list \<Rightarrow> 'd \<Rightarrow> 'd" where
  "write_words hw [] d = d"
| "write_words hw (w # ws) d = write_words hw ws (a_outw hw BASE w d)"

text \<open>A \<open>uint16_t\<close> view of a byte buffer, low byte first.\<close>

definition bytes_of :: "16 word list \<Rightarrow> byte list" where
  "bytes_of ws = concat (map (\<lambda>w. [ucast w, ucast (drop_bit 8 w)]) ws)"

fun words_of :: "byte list \<Rightarrow> 16 word list" where
  "words_of (a # b # bs) = (ucast a OR push_bit 8 (ucast b)) # words_of bs"
| "words_of _ = []"

definition ide_init :: "'d ata \<Rightarrow> 'd ide \<Rightarrow> int \<times> 'd ide" where
  "ide_init hw s =
     (let (v0, d0) = a_inb hw REG_CMD (i_dev s) in
      if v0 = 0xFF then (-1, s\<lparr>i_dev := d0\<rparr>)
      else
      let d1 = delay400 hw (a_outb hw REG_DRIVE 0xE0 d0);
          d2 = delay400 hw (a_outb hw REG_CMD 0xEC d1);
          (v3, d3) = a_inb hw REG_CMD d2 in
      if v3 = 0 then (-1, s\<lparr>i_dev := d3\<rparr>)
      else
      let (ok4, d4) = wait_clear hw ST_BSY 100000 d3 in
      if \<not> ok4 then (-1, s\<lparr>i_dev := d4\<rparr>)
      else
      let (v5, d5) = a_inb hw REG_CMD d4 in
      if v5 AND ST_ERR \<noteq> 0 then (-1, s\<lparr>i_dev := d5\<rparr>)
      else
      let (ok6, d6) = wait_set hw ST_DRQ 100000 d5 in
      if \<not> ok6 then (-1, s\<lparr>i_dev := d6\<rparr>)
      else
      let (ident, d7) = read_words hw 256 d6 in
      if ident ! 83 AND push_bit 10 1 = 0 then (-1, s\<lparr>i_dev := d7\<rparr>)
      else (0, s\<lparr>i_total := ucast (ident ! 100) OR push_bit 16 (ucast (ident ! 101)) OR
                  push_bit 32 (ucast (ident ! 102)) OR push_bit 48 (ucast (ident ! 103)),
                i_present := True, i_dev := d7\<rparr>))"

text \<open>The task file writes of a 48-bit command, high bytes first.\<close>

definition ide_command :: "'d ata \<Rightarrow> 64 word \<Rightarrow> byte \<Rightarrow> 'd \<Rightarrow> 'd" where
  "ide_command hw lba cmd d =
     (let d = a_outb hw REG_DRIVE 0xE0 d;
          d = a_outb hw REG_COUNT 0 d;
          d = a_outb hw REG_LBA0 (ucast (drop_bit 24 lba AND 0xFF)) d;
          d = a_outb hw REG_LBA1 (ucast (drop_bit 32 lba AND 0xFF)) d;
          d = a_outb hw REG_LBA2 (ucast (drop_bit 40 lba AND 0xFF)) d;
          d = a_outb hw REG_COUNT 1 d;
          d = a_outb hw REG_LBA0 (ucast (lba AND 0xFF)) d;
          d = a_outb hw REG_LBA1 (ucast (drop_bit 8 lba AND 0xFF)) d;
          d = a_outb hw REG_LBA2 (ucast (drop_bit 16 lba AND 0xFF)) d
      in a_outb hw REG_CMD cmd d)"

text \<open>\<open>None\<close> is the result \<open>-1\<close> (the buffer is then untouched), \<open>Some\<close> the new buffer with result 0.\<close>

definition ide_read :: "'d ata \<Rightarrow> 64 word \<Rightarrow> 'd ide \<Rightarrow> byte list option \<times> 'd ide" where
  "ide_read hw lba s =
     (if \<not> i_present s \<or> i_total s \<le> lba then (None, s)
      else
      let (ok1, d1) = wait_clear hw ST_BSY 100000 (i_dev s) in
      if \<not> ok1 then (None, s\<lparr>i_dev := d1\<rparr>)
      else
      let (ok2, d2) = wait_clear hw ST_BSY 100000 (ide_command hw lba 0x24 d1) in
      if \<not> ok2 then (None, s\<lparr>i_dev := d2\<rparr>)
      else
      let (ok3, d3) = wait_set hw ST_DRQ 100000 d2 in
      if \<not> ok3 then (None, s\<lparr>i_dev := d3\<rparr>)
      else
      let (ws, d4) = read_words hw 256 d3
      in (Some (bytes_of ws), s\<lparr>i_dev := delay400 hw d4\<rparr>))"

text \<open>The result is whether the C function returns 0.\<close>

definition ide_write :: "'d ata \<Rightarrow> 64 word \<Rightarrow> byte list \<Rightarrow> 'd ide \<Rightarrow> bool \<times> 'd ide" where
  "ide_write hw lba buf s =
     (if \<not> i_present s \<or> i_total s \<le> lba then (False, s)
      else
      let (ok1, d1) = wait_clear hw ST_BSY 100000 (i_dev s) in
      if \<not> ok1 then (False, s\<lparr>i_dev := d1\<rparr>)
      else
      let (ok2, d2) = wait_clear hw ST_BSY 100000 (ide_command hw lba 0x34 d1) in
      if \<not> ok2 then (False, s\<lparr>i_dev := d2\<rparr>)
      else
      let (ok3, d3) = wait_set hw ST_DRQ 100000 d2 in
      if \<not> ok3 then (False, s\<lparr>i_dev := d3\<rparr>)
      else
      let d4 = a_outb hw REG_CMD 0xEA (write_words hw (take 256 (words_of buf)) d3);
          (ok5, d5) = wait_clear hw ST_BSY 100000 d4 in
      if \<not> ok5 then (False, s\<lparr>i_dev := d5\<rparr>)
      else (True, s\<lparr>i_dev := delay400 hw d5\<rparr>))"

definition ide_sectors :: "'d ide \<Rightarrow> 64 word" where
  "ide_sectors s = i_total s"

section \<open>The block device interface\<close>

text \<open>
  What the partition and file system code relies on: a sector number below the size reads and
  writes a 512-byte block, any other is refused, and nothing else changes.
\<close>

locale block_dev =
  fixes bread :: "64 word \<Rightarrow> 's \<Rightarrow> byte list option \<times> 's"
    and bwrite :: "64 word \<Rightarrow> byte list \<Rightarrow> 's \<Rightarrow> bool \<times> 's"
    and bok :: "'s \<Rightarrow> bool"
    and blk :: "'s \<Rightarrow> 64 word \<Rightarrow> byte list"
    and bsize :: "'s \<Rightarrow> 64 word"
  assumes blk_len: "bok s \<Longrightarrow> length (blk s l) = 512"
    and read_in: "bok s \<Longrightarrow> l < bsize s \<Longrightarrow>
       \<exists>s'. bread l s = (Some (blk s l), s') \<and> bok s' \<and> blk s' = blk s \<and> bsize s' = bsize s"
    and read_out: "bok s \<Longrightarrow> \<not> l < bsize s \<Longrightarrow> bread l s = (None, s)"
    and write_in: "bok s \<Longrightarrow> l < bsize s \<Longrightarrow> length b = 512 \<Longrightarrow>
       \<exists>s'. bwrite l b s = (True, s') \<and> bok s' \<and> blk s' = (blk s)(l := b) \<and> bsize s' = bsize s"
    and write_out: "bok s \<Longrightarrow> \<not> l < bsize s \<Longrightarrow> bwrite l b s = (False, s)"
begin

text \<open>What was written is read, and only that sector changed.\<close>

lemma read_after_write:
  assumes "bok s" "l < bsize s" "length b = 512"
  shows "\<exists>s1. bwrite l b s = (True, s1) \<and>
     (\<forall>k < bsize s. \<exists>s2. bread k s1 = (Some (if k = l then b else blk s k), s2) \<and> bok s2)"
proof -
  obtain s1 where s1: "bwrite l b s = (True, s1)" "bok s1" "blk s1 = (blk s)(l := b)" "bsize s1 = bsize s"
    using write_in [OF assms] by blast
  then show ?thesis using read_in [OF s1(2)] by fastforce
qed

end

section \<open>The ATA protocol\<close>

text \<open>
  The drive as the driver sees it: its sectors, the transfer it is in, for how many more status
  reads it stays busy, and the two bytes last written to each task file register (the previous
  byte carries the high half of a 48-bit command).
\<close>

datatype phase = Idle | DataIn "16 word list" | DataOut "64 word" "16 word list"

definition task_lba :: "(port \<Rightarrow> byte \<times> byte) \<Rightarrow> 64 word" where
  "task_lba r = ucast (snd (r REG_LBA0)) OR push_bit 8 (ucast (snd (r REG_LBA1))) OR
     push_bit 16 (ucast (snd (r REG_LBA2))) OR push_bit 24 (ucast (fst (r REG_LBA0))) OR
     push_bit 32 (ucast (fst (r REG_LBA1))) OR push_bit 40 (ucast (fst (r REG_LBA2)))"

text \<open>Master drive in LBA mode, a count of one sector.\<close>

definition task_one :: "(port \<Rightarrow> byte \<times> byte) \<Rightarrow> bool" where
  "task_one r \<longleftrightarrow> snd (r REG_DRIVE) = 0xE0 \<and> r REG_COUNT = (0, 1)"

lemma join48:
  assumes "unat lba < 2 ^ 48"
  shows "ucast (ucast lba :: byte) OR push_bit 8 (ucast (ucast (drop_bit 8 lba) :: byte)) OR
     push_bit 16 (ucast (ucast (drop_bit 16 lba) :: byte)) OR push_bit 24 (ucast (ucast (drop_bit 24 lba) :: byte)) OR
     push_bit 32 (ucast (ucast (drop_bit 32 lba) :: byte)) OR
     push_bit 40 (ucast (ucast (drop_bit 40 lba) :: byte)) = (lba :: 64 word)" (is "?l = lba")
proof (rule bit_word_eqI)
  fix n assume "n < LENGTH(64)"
  then have n64: "n < 64" by simp
  have hi: "\<not> bit lba n" if "48 \<le> n"
  proof -
    have "(2 :: nat) ^ 48 \<le> 2 ^ n" using that by (rule power_increasing) simp
    then have "unat lba div 2 ^ n = 0" using assms by simp
    then have "\<not> bit (unat lba) n" by (simp add: bit_iff_odd)
    then show ?thesis by (simp add: bit_unsigned_iff)
  qed
  consider "n < 8" | "8 \<le> n" "n < 16" | "16 \<le> n" "n < 24" | "24 \<le> n" "n < 32" | "32 \<le> n" "n < 40"
    | "40 \<le> n" "n < 48" | "48 \<le> n" by force
  then show "bit ?l n = bit lba n" using hi n64 by cases (auto simp: bit_simps)
qed

locale ata_drive =
  fixes hw :: "'d ata"
    and sect :: "'d \<Rightarrow> 64 word \<Rightarrow> 16 word list"
    and ident :: "16 word list"
    and size :: "64 word"
    and phase :: "'d \<Rightarrow> phase"
    and busy :: "'d \<Rightarrow> nat"
    and regs :: "'d \<Rightarrow> port \<Rightarrow> byte \<times> byte"
  assumes sect_len: "length (sect d l) = 256"
    and ident_len: "length ident = 256"
    and ident_lba48: "bit (ident ! 83) 10"
    and ident_size: "ucast (ident ! 100) OR push_bit 16 (ucast (ident ! 101)) OR
       push_bit 32 (ucast (ident ! 102)) OR push_bit 48 (ucast (ident ! 103)) = size"
    and size48: "unat size \<le> 2 ^ 48"
    and status: "a_inb hw REG_CMD d = (v, d') \<Longrightarrow>
       sect d' = sect d \<and> phase d' = phase d \<and> regs d' = regs d \<and> busy d' = busy d - 1
       \<and> (v AND ST_BSY \<noteq> 0 \<longleftrightarrow> busy d > 0)
       \<and> (busy d = 0 \<longrightarrow> (v AND ST_DRQ \<noteq> 0 \<longleftrightarrow> phase d \<noteq> Idle) \<and> v AND ST_DRDY \<noteq> 0 \<and> v AND ST_ERR = 0)"
    and alt_status: "a_inb hw CTL d = (v, d') \<Longrightarrow>
       sect d' = sect d \<and> phase d' = phase d \<and> regs d' = regs d \<and> busy d' \<le> busy d"
    and task_write: "phase d = Idle \<Longrightarrow> busy d = 0 \<Longrightarrow>
       p \<in> {REG_COUNT, REG_LBA0, REG_LBA1, REG_LBA2, REG_DRIVE} \<Longrightarrow> d' = a_outb hw p v d \<Longrightarrow>
       sect d' = sect d \<and> phase d' = Idle \<and> busy d' = 0 \<and> regs d' = (regs d)(p := (snd (regs d p), v))"
    and identify: "phase d = Idle \<Longrightarrow> busy d = 0 \<Longrightarrow> snd (regs d REG_DRIVE) = 0xE0 \<Longrightarrow>
       d' = a_outb hw REG_CMD 0xEC d \<Longrightarrow>
       sect d' = sect d \<and> phase d' = DataIn ident \<and> busy d' < 100000"
    and read_ext: "phase d = Idle \<Longrightarrow> busy d = 0 \<Longrightarrow> task_one (regs d) \<Longrightarrow> task_lba (regs d) < size \<Longrightarrow>
       d' = a_outb hw REG_CMD 0x24 d \<Longrightarrow>
       sect d' = sect d \<and> phase d' = DataIn (sect d (task_lba (regs d))) \<and> busy d' < 100000"
    and write_ext: "phase d = Idle \<Longrightarrow> busy d = 0 \<Longrightarrow> task_one (regs d) \<Longrightarrow> task_lba (regs d) < size \<Longrightarrow>
       d' = a_outb hw REG_CMD 0x34 d \<Longrightarrow>
       sect d' = sect d \<and> phase d' = DataOut (task_lba (regs d)) [] \<and> busy d' < 100000"
    and flush_ext: "phase d = Idle \<Longrightarrow> busy d = 0 \<Longrightarrow> d' = a_outb hw REG_CMD 0xEA d \<Longrightarrow>
       sect d' = sect d \<and> phase d' = Idle \<and> busy d' < 100000"
    and data_in: "phase d = DataIn (w # ws) \<Longrightarrow> busy d = 0 \<Longrightarrow> a_inw hw BASE d = (x, d') \<Longrightarrow>
       x = w \<and> sect d' = sect d \<and> phase d' = (if ws = [] then Idle else DataIn ws) \<and> busy d' = 0"
    and data_out: "phase d = DataOut l ws \<Longrightarrow> busy d = 0 \<Longrightarrow> d' = a_outw hw BASE w d \<Longrightarrow>
       busy d' = 0 \<and> (if length ws = 255 then phase d' = Idle \<and> sect d' = (sect d)(l := ws @ [w])
                      else phase d' = DataOut l (ws @ [w]) \<and> sect d' = sect d)"
begin

lemma wait_clear_ok:
  "busy d < t \<Longrightarrow> \<exists>d'. wait_clear hw ST_BSY t d = (True, d') \<and> busy d' = 0 \<and> sect d' = sect d
     \<and> phase d' = phase d \<and> regs d' = regs d"
proof (induction t arbitrary: d)
  case (Suc t)
  obtain v d1 where v: "a_inb hw REG_CMD d = (v, d1)" by (meson surj_pair)
  note s = status [OF v]
  show ?case
  proof (cases "busy d = 0")
    case True
    then show ?thesis using s v by simp
  next
    case False
    then have "busy d1 < t" using Suc.prems s by linarith
    then obtain d' where "wait_clear hw ST_BSY t d1 = (True, d') \<and> busy d' = 0 \<and> sect d' = sect d1
        \<and> phase d' = phase d1 \<and> regs d' = regs d1" using Suc.IH by blast
    then show ?thesis using s v False by simp
  qed
qed simp

lemma wait_set_ok:
  assumes "busy d = 0" "phase d \<noteq> Idle"
  shows "\<exists>d'. wait_set hw ST_DRQ 100000 d = (True, d') \<and> busy d' = 0 \<and> sect d' = sect d \<and> phase d' = phase d"
proof -
  obtain v d1 where v: "a_inb hw REG_CMD d = (v, d1)" by (meson surj_pair)
  have "(100000 :: nat) = Suc 99999" by simp
  then show ?thesis using status [OF v] v assms by (simp only: wait_set.simps) simp
qed

lemma delay400_ok:
  "sect (delay400 hw d) = sect d \<and> phase (delay400 hw d) = phase d \<and> regs (delay400 hw d) = regs d
     \<and> busy (delay400 hw d) \<le> busy d"
proof -
  have *: "sect (snd (a_inb hw CTL d)) = sect d \<and> phase (snd (a_inb hw CTL d)) = phase d
      \<and> regs (snd (a_inb hw CTL d)) = regs d \<and> busy (snd (a_inb hw CTL d)) \<le> busy d" for d
    using alt_status [of d] by (cases "a_inb hw CTL d") simp
  let ?f = "\<lambda>d. snd (a_inb hw CTL d)"
  show ?thesis
    unfolding delay400_def Let_def
    using * [of d] * [of "?f d"] * [of "?f (?f d)"] * [of "?f (?f (?f d))"] by simp
qed

lemma read_words_ok:
  "busy d = 0 \<Longrightarrow> phase d = (if ws = [] then Idle else DataIn ws) \<Longrightarrow>
     \<exists>d'. read_words hw (length ws) d = (ws, d') \<and> phase d' = Idle \<and> busy d' = 0 \<and> sect d' = sect d"
proof (induction ws arbitrary: d)
  case (Cons w ws)
  obtain x d1 where x: "a_inw hw BASE d = (x, d1)" by (meson surj_pair)
  have "x = w \<and> sect d1 = sect d \<and> phase d1 = (if ws = [] then Idle else DataIn ws) \<and> busy d1 = 0"
    using data_in [OF _ _ x] Cons.prems by simp
  then show ?case using Cons.IH [of d1] x by auto
qed simp

lemma write_words_ok:
  "busy d = 0 \<Longrightarrow> phase d = DataOut l us \<Longrightarrow> length us + length ws = 256 \<Longrightarrow> ws \<noteq> [] \<Longrightarrow>
     phase (write_words hw ws d) = Idle \<and> busy (write_words hw ws d) = 0
     \<and> sect (write_words hw ws d) = (sect d)(l := us @ ws)"
proof (induction ws arbitrary: d us)
  case (Cons w ws)
  note o = data_out [OF Cons.prems(2,1) refl, of w]
  show ?case
  proof (cases "ws = []")
    case True
    then show ?thesis using o Cons.prems by simp
  next
    case False
    then have "length us \<noteq> 255" using Cons.prems by (cases ws) auto
    then show ?thesis using o Cons.IH [of "a_outw hw BASE w d" "us @ [w]"] Cons.prems False by simp
  qed
qed simp

lemma ide_command_ok:
  assumes "phase d = Idle" "busy d = 0" "lba < size"
  obtains d' where "ide_command hw lba cmd d = a_outb hw REG_CMD cmd d'" "phase d' = Idle" "busy d' = 0"
    "sect d' = sect d" "task_one (regs d')" "task_lba (regs d') = lba"
proof -
  let ?d1 = "a_outb hw REG_DRIVE 0xE0 d"
  let ?d2 = "a_outb hw REG_COUNT 0 ?d1"
  let ?d3 = "a_outb hw REG_LBA0 (ucast (drop_bit 24 lba)) ?d2"
  let ?d4 = "a_outb hw REG_LBA1 (ucast (drop_bit 32 lba)) ?d3"
  let ?d5 = "a_outb hw REG_LBA2 (ucast (drop_bit 40 lba)) ?d4"
  let ?d6 = "a_outb hw REG_COUNT 1 ?d5"
  let ?d7 = "a_outb hw REG_LBA0 (ucast lba) ?d6"
  let ?d8 = "a_outb hw REG_LBA1 (ucast (drop_bit 8 lba)) ?d7"
  let ?d9 = "a_outb hw REG_LBA2 (ucast (drop_bit 16 lba)) ?d8"
  have 1: "sect ?d1 = sect d \<and> phase ?d1 = Idle \<and> busy ?d1 = 0 \<and>
      regs ?d1 = (regs d)(REG_DRIVE := (snd (regs d REG_DRIVE), 0xE0))"
    by (rule task_write) (use assms in simp_all)
  then have 2: "sect ?d2 = sect d \<and> phase ?d2 = Idle \<and> busy ?d2 = 0 \<and>
      regs ?d2 = (regs ?d1)(REG_COUNT := (snd (regs ?d1 REG_COUNT), 0))"
    using task_write [of ?d1 REG_COUNT ?d2] by simp
  then have 3: "sect ?d3 = sect d \<and> phase ?d3 = Idle \<and> busy ?d3 = 0 \<and>
      regs ?d3 = (regs ?d2)(REG_LBA0 := (snd (regs ?d2 REG_LBA0), ucast (drop_bit 24 lba)))"
    using task_write [of ?d2 REG_LBA0 ?d3] by simp
  then have 4: "sect ?d4 = sect d \<and> phase ?d4 = Idle \<and> busy ?d4 = 0 \<and>
      regs ?d4 = (regs ?d3)(REG_LBA1 := (snd (regs ?d3 REG_LBA1), ucast (drop_bit 32 lba)))"
    using task_write [of ?d3 REG_LBA1 ?d4] by simp
  then have 5: "sect ?d5 = sect d \<and> phase ?d5 = Idle \<and> busy ?d5 = 0 \<and>
      regs ?d5 = (regs ?d4)(REG_LBA2 := (snd (regs ?d4 REG_LBA2), ucast (drop_bit 40 lba)))"
    using task_write [of ?d4 REG_LBA2 ?d5] by simp
  then have 6: "sect ?d6 = sect d \<and> phase ?d6 = Idle \<and> busy ?d6 = 0 \<and>
      regs ?d6 = (regs ?d5)(REG_COUNT := (snd (regs ?d5 REG_COUNT), 1))"
    using task_write [of ?d5 REG_COUNT ?d6] by simp
  then have 7: "sect ?d7 = sect d \<and> phase ?d7 = Idle \<and> busy ?d7 = 0 \<and>
      regs ?d7 = (regs ?d6)(REG_LBA0 := (snd (regs ?d6 REG_LBA0), ucast lba))"
    using task_write [of ?d6 REG_LBA0 ?d7] by simp
  then have 8: "sect ?d8 = sect d \<and> phase ?d8 = Idle \<and> busy ?d8 = 0 \<and>
      regs ?d8 = (regs ?d7)(REG_LBA1 := (snd (regs ?d7 REG_LBA1), ucast (drop_bit 8 lba)))"
    using task_write [of ?d7 REG_LBA1 ?d8] by simp
  then have 9: "sect ?d9 = sect d \<and> phase ?d9 = Idle \<and> busy ?d9 = 0 \<and>
      regs ?d9 = (regs ?d8)(REG_LBA2 := (snd (regs ?d8 REG_LBA2), ucast (drop_bit 16 lba)))"
    using task_write [of ?d8 REG_LBA2 ?d9] by simp
  have "unat lba < 2 ^ 48" using assms(3) size48 by (simp add: word_less_nat_alt)
  moreover have "task_one (regs ?d9)" using 1 2 3 4 5 6 7 8 9 by (simp add: task_one_def)
  moreover have "task_lba (regs ?d9) = ucast (ucast lba :: byte) OR push_bit 8 (ucast (ucast (drop_bit 8 lba) :: byte)) OR
     push_bit 16 (ucast (ucast (drop_bit 16 lba) :: byte)) OR push_bit 24 (ucast (ucast (drop_bit 24 lba) :: byte)) OR
     push_bit 32 (ucast (ucast (drop_bit 32 lba) :: byte)) OR push_bit 40 (ucast (ucast (drop_bit 40 lba) :: byte))"
    using 1 2 3 4 5 6 7 8 9 by (simp add: task_lba_def)
  moreover have "ide_command hw lba cmd d = a_outb hw REG_CMD cmd ?d9" by (simp add: ide_command_def Let_def)
  ultimately show ?thesis using that [of ?d9] 9 join48 by simp
qed

lemma ide_read_ok:
  assumes s: "i_present s" "i_total s = size" "phase (i_dev s) = Idle" "busy (i_dev s) < 100000"
    and l: "lba < size"
  shows "\<exists>d'. ide_read hw lba s = (Some (bytes_of (sect (i_dev s) lba)), s\<lparr>i_dev := d'\<rparr>)
     \<and> phase d' = Idle \<and> busy d' < 100000 \<and> sect d' = sect (i_dev s)"
proof -
  obtain d1 where d1: "wait_clear hw ST_BSY 100000 (i_dev s) = (True, d1)" "busy d1 = 0"
    "sect d1 = sect (i_dev s)" "phase d1 = Idle" using wait_clear_ok [OF s(4)] s(3) by auto
  obtain c where c: "ide_command hw lba 0x24 d1 = a_outb hw REG_CMD 0x24 c" "phase c = Idle" "busy c = 0"
    "sect c = sect d1" "task_one (regs c)" "task_lba (regs c) = lba"
    by (rule ide_command_ok [OF d1(4,2) l])
  note r = read_ext [OF c(2,3,5) _ refl, unfolded c(6), OF l, folded c(1)]
  obtain d2 where d2: "wait_clear hw ST_BSY 100000 (ide_command hw lba 0x24 d1) = (True, d2)" "busy d2 = 0"
    "sect d2 = sect (i_dev s)" "phase d2 = DataIn (sect (i_dev s) lba)"
    using wait_clear_ok [of "ide_command hw lba 0x24 d1" 100000] r c(4) d1(3) by auto
  obtain d3 where d3: "wait_set hw ST_DRQ 100000 d2 = (True, d3)" "busy d3 = 0"
    "sect d3 = sect (i_dev s)" "phase d3 = DataIn (sect (i_dev s) lba)"
    using wait_set_ok [OF d2(2)] d2 by auto
  have ne: "sect (i_dev s) lba \<noteq> []" using sect_len [of "i_dev s" lba] by auto
  obtain d4 where d4: "read_words hw 256 d3 = (sect (i_dev s) lba, d4)" "phase d4 = Idle" "busy d4 = 0"
    "sect d4 = sect (i_dev s)"
    using read_words_ok [OF d3(2), of "sect (i_dev s) lba"] d3 ne sect_len by auto
  have "ide_read hw lba s = (Some (bytes_of (sect (i_dev s) lba)), s\<lparr>i_dev := delay400 hw d4\<rparr>)"
    using s(1,2) l d1(1) d2(1) d3(1) d4(1) by (simp add: ide_read_def linorder_not_le)
  then show ?thesis using delay400_ok [of d4] d4 by auto
qed

lemma ide_write_ok:
  assumes s: "i_present s" "i_total s = size" "phase (i_dev s) = Idle" "busy (i_dev s) < 100000"
    and l: "lba < size" and b: "length (words_of b) = 256"
  shows "\<exists>d'. ide_write hw lba b s = (True, s\<lparr>i_dev := d'\<rparr>)
     \<and> phase d' = Idle \<and> busy d' < 100000 \<and> sect d' = (sect (i_dev s))(lba := words_of b)"
proof -
  obtain d1 where d1: "wait_clear hw ST_BSY 100000 (i_dev s) = (True, d1)" "busy d1 = 0"
    "sect d1 = sect (i_dev s)" "phase d1 = Idle" using wait_clear_ok [OF s(4)] s(3) by auto
  obtain c where c: "ide_command hw lba 0x34 d1 = a_outb hw REG_CMD 0x34 c" "phase c = Idle" "busy c = 0"
    "sect c = sect d1" "task_one (regs c)" "task_lba (regs c) = lba"
    by (rule ide_command_ok [OF d1(4,2) l])
  note r = write_ext [OF c(2,3,5) _ refl, unfolded c(6), OF l, folded c(1)]
  obtain d2 where d2: "wait_clear hw ST_BSY 100000 (ide_command hw lba 0x34 d1) = (True, d2)" "busy d2 = 0"
    "sect d2 = sect (i_dev s)" "phase d2 = DataOut lba []"
    using wait_clear_ok [of "ide_command hw lba 0x34 d1" 100000] r c(4) d1(3) by auto
  obtain d3 where d3: "wait_set hw ST_DRQ 100000 d2 = (True, d3)" "busy d3 = 0"
    "sect d3 = sect (i_dev s)" "phase d3 = DataOut lba []"
    using wait_set_ok [OF d2(2)] d2 by auto
  have ne: "words_of b \<noteq> []" using b by auto
  let ?w = "write_words hw (words_of b) d3"
  have w: "phase ?w = Idle" "busy ?w = 0" "sect ?w = (sect (i_dev s))(lba := words_of b)"
    using write_words_ok [OF d3(2,4) _ ne] b d3(3) by auto
  note f = flush_ext [OF w(1,2) refl]
  obtain d5 where d5: "wait_clear hw ST_BSY 100000 (a_outb hw REG_CMD 0xEA ?w) = (True, d5)" "busy d5 = 0"
    "sect d5 = (sect (i_dev s))(lba := words_of b)" "phase d5 = Idle"
    using wait_clear_ok [of "a_outb hw REG_CMD 0xEA ?w" 100000] f w(3) by auto
  have "ide_write hw lba b s = (True, s\<lparr>i_dev := delay400 hw d5\<rparr>)"
    using s(1,2) l d1(1) d2(1) d3(1) d5(1) b by (simp add: ide_write_def Let_def linorder_not_le)
  then show ?thesis using delay400_ok [of d5] d5 by auto
qed

lemma ide_init_ok:
  assumes "phase (i_dev s) = Idle" "busy (i_dev s) = 0"
  shows "\<exists>d'. ide_init hw s = (0, s\<lparr>i_total := size, i_present := True, i_dev := d'\<rparr>)
     \<and> phase d' = Idle \<and> busy d' = 0 \<and> sect d' = sect (i_dev s)"
proof -
  obtain v0 d0 where v0: "a_inb hw REG_CMD (i_dev s) = (v0, d0)" by (meson surj_pair)
  note s0 = status [OF v0]
  have "v0 AND 1 = 0" using s0 assms by simp
  then have n0: "v0 \<noteq> 0xFF" by auto
  let ?o1 = "a_outb hw REG_DRIVE 0xE0 d0"
  have o1: "sect ?o1 = sect (i_dev s)" "phase ?o1 = Idle" "busy ?o1 = 0" "snd (regs ?o1 REG_DRIVE) = 0xE0"
    using task_write [of d0 REG_DRIVE ?o1] s0 assms by simp_all
  let ?d1 = "delay400 hw ?o1"
  have d1: "sect ?d1 = sect (i_dev s)" "phase ?d1 = Idle" "busy ?d1 = 0" "snd (regs ?d1 REG_DRIVE) = 0xE0"
    using delay400_ok [of ?o1] o1 by auto
  note i = identify [OF d1(2-4) refl]
  let ?d2 = "delay400 hw (a_outb hw REG_CMD 0xEC ?d1)"
  have d2: "sect ?d2 = sect (i_dev s)" "phase ?d2 = DataIn ident" "busy ?d2 < 100000"
    using delay400_ok [of "a_outb hw REG_CMD 0xEC ?d1"] i d1(1) by auto
  obtain v3 d3 where v3: "a_inb hw REG_CMD ?d2 = (v3, d3)" by (meson surj_pair)
  note s3 = status [OF v3]
  have n3: "v3 \<noteq> 0" using s3 by (cases "busy ?d2 = 0") auto
  have "busy d3 < 100000" using s3 d2(3) by linarith
  then obtain d4 where d4: "wait_clear hw ST_BSY 100000 d3 = (True, d4)" "busy d4 = 0" "sect d4 = sect (i_dev s)"
    "phase d4 = DataIn ident" using wait_clear_ok [of d3 100000] s3 d2 by auto
  obtain v5 d5 where v5: "a_inb hw REG_CMD d4 = (v5, d5)" by (meson surj_pair)
  note s5 = status [OF v5]
  obtain d6 where d6: "wait_set hw ST_DRQ 100000 d5 = (True, d6)" "busy d6 = 0" "sect d6 = sect (i_dev s)"
    "phase d6 = DataIn ident" using wait_set_ok [of d5] s5 d4 by auto
  have ne: "ident \<noteq> []" using ident_len by auto
  obtain d7 where d7: "read_words hw 256 d6 = (ident, d7)" "phase d7 = Idle" "busy d7 = 0" "sect d7 = sect (i_dev s)"
    using read_words_ok [OF d6(2), of ident] d6 ne ident_len by auto
  have b: "ident ! 83 AND push_bit 10 1 \<noteq> 0"
    using ident_lba48 and_exp_eq_0_iff_not_bit [of "ident ! 83" 10] by (simp add: push_bit_of_1)
  have "ide_init hw s = (0, s\<lparr>i_total := size, i_present := True, i_dev := d7\<rparr>)"
    using v0 n0 v3 n3 d4(1) v5 s5 d4(2) d6(1) d7(1) b ident_size
    by (simp add: ide_init_def Let_def)
  then show ?thesis using d7 by auto
qed

end

section \<open>The driver implements the block device\<close>

definition ide_ok :: "64 word \<Rightarrow> ('d \<Rightarrow> phase) \<Rightarrow> ('d \<Rightarrow> nat) \<Rightarrow> 'd ide \<Rightarrow> bool" where
  "ide_ok n phase busy s \<longleftrightarrow>
     i_present s \<and> i_total s = n \<and> phase (i_dev s) = Idle \<and> busy (i_dev s) < 100000"

definition ide_blk :: "('d \<Rightarrow> 64 word \<Rightarrow> 16 word list) \<Rightarrow> 'd ide \<Rightarrow> 64 word \<Rightarrow> byte list" where
  "ide_blk sect s l = bytes_of (sect (i_dev s) l)"

lemma bytes_of_Cons [simp]: "bytes_of (w # ws) = ucast w # ucast (drop_bit 8 w) # bytes_of ws"
  by (simp add: bytes_of_def)

lemma bytes_of_Nil [simp]: "bytes_of [] = []"
  by (simp add: bytes_of_def)

lemma length_bytes_of: "length (bytes_of ws) = 2 * length ws"
  by (induction ws) simp_all

lemma nth_bytes_of:
  "i < 2 * length ws \<Longrightarrow>
     bytes_of ws ! i = (if even i then ucast (ws ! (i div 2)) else ucast (drop_bit 8 (ws ! (i div 2))))"
proof (induction ws arbitrary: i)
  case (Cons w ws)
  then show ?case
    by (cases i; cases "i - 1") (auto simp: nth_Cons split: nat.splits)
qed simp

lemma length_words_of: "length (words_of b) = length b div 2"
  by (induction b rule: words_of.induct) simp_all

lemma split16:
  "ucast (ucast a OR push_bit 8 (ucast b) :: 16 word) = (a :: byte)"
  "ucast (drop_bit 8 (ucast a OR push_bit 8 (ucast b) :: 16 word)) = (b :: byte)"
  by (rule bit_word_eqI; auto simp: bit_simps dest: bit_imp_le_length)+

lemma bytes_of_words_of: "even (length b) \<Longrightarrow> bytes_of (words_of b) = b"
  by (induction b rule: words_of.induct) (simp_all add: split16 del: drop_bit_or)

sublocale ata_drive \<subseteq> blkdev: block_dev "ide_read hw" "ide_write hw" "ide_ok size phase busy" "ide_blk sect" i_total
proof
  fix s :: "'d ide" and l :: "64 word" and b :: "byte list"
  assume ok: "ide_ok size phase busy s"
  then have s: "i_present s" "i_total s = size" "phase (i_dev s) = Idle" "busy (i_dev s) < 100000"
    by (auto simp: ide_ok_def)
  show "length (ide_blk sect s l) = 512" by (simp add: ide_blk_def length_bytes_of sect_len)
  show "\<exists>s'. ide_read hw l s = (Some (ide_blk sect s l), s') \<and> ide_ok size phase busy s'
      \<and> ide_blk sect s' = ide_blk sect s \<and> i_total s' = i_total s" if "l < i_total s"
    using ide_read_ok [OF s, of l] that s by (auto simp: ide_ok_def ide_blk_def fun_eq_iff)
  show "ide_read hw l s = (None, s)" if "\<not> l < i_total s"
    using that by (simp add: ide_read_def linorder_not_less)
  show "\<exists>s'. ide_write hw l b s = (True, s') \<and> ide_ok size phase busy s'
      \<and> ide_blk sect s' = (ide_blk sect s)(l := b) \<and> i_total s' = i_total s"
    if "l < i_total s" "length b = 512"
    using ide_write_ok [OF s, of l b] that s
    by (auto simp: ide_ok_def ide_blk_def fun_eq_iff length_words_of bytes_of_words_of)
  show "ide_write hw l b s = (False, s)" if "\<not> l < i_total s"
    using that by (simp add: ide_write_def linorder_not_less)
qed

context ata_drive
begin

lemmas block_round_trip = blkdev.read_after_write
lemmas block_read_in = blkdev.read_in
lemmas block_read_out = blkdev.read_out
lemmas block_write_in = blkdev.write_in
lemmas block_write_out = blkdev.write_out
lemmas block_len = blkdev.blk_len

lemma ide_init_ready:
  assumes "phase (i_dev s) = Idle" "busy (i_dev s) = 0"
  shows "\<exists>s'. ide_init hw s = (0, s') \<and> ide_ok size phase busy s' \<and> ide_blk sect s' = ide_blk sect s"
  using ide_init_ok [OF assms] by (auto simp: ide_ok_def ide_blk_def fun_eq_iff)

end

section \<open>A simulated drive\<close>

text \<open>
  A drive of 2048 sectors that stays busy for three status reads after a command: it meets the
  protocol.
\<close>

record sim =
  sm_disk :: "64 word \<Rightarrow> 16 word list"
  sm_phase :: phase
  sm_busy :: nat
  sm_regs :: "port \<Rightarrow> byte \<times> byte"

definition sim_sect :: "sim \<Rightarrow> 64 word \<Rightarrow> 16 word list" where
  "sim_sect d l = take 256 (sm_disk d l @ replicate 256 0)"

definition sim_ident :: "16 word list" where
  "sim_ident = (replicate 256 0)[83 := 0x400, 100 := 2048]"

definition sim_inb :: "port \<Rightarrow> sim \<Rightarrow> byte \<times> sim" where
  "sim_inb p d =
     (if p = REG_CMD then
        (if sm_busy d > 0 then 0x80 else if sm_phase d = Idle then 0x40 else 0x48, d\<lparr>sm_busy := sm_busy d - 1\<rparr>)
      else (0, d))"

definition sim_inw :: "port \<Rightarrow> sim \<Rightarrow> 16 word \<times> sim" where
  "sim_inw p d =
     (case sm_phase d of
        DataIn (w # ws) \<Rightarrow> (w, d\<lparr>sm_phase := if ws = [] then Idle else DataIn ws\<rparr>)
      | _ \<Rightarrow> (0, d))"

definition sim_outb :: "port \<Rightarrow> byte \<Rightarrow> sim \<Rightarrow> sim" where
  "sim_outb p v d =
     (if p = REG_CMD then
        (if v = 0xEC then d\<lparr>sm_phase := DataIn sim_ident, sm_busy := 3\<rparr>
         else if v = 0x24 then d\<lparr>sm_phase := DataIn (sim_sect d (task_lba (sm_regs d))), sm_busy := 3\<rparr>
         else if v = 0x34 then d\<lparr>sm_phase := DataOut (task_lba (sm_regs d)) [], sm_busy := 3\<rparr>
         else d\<lparr>sm_busy := 3\<rparr>)
      else d\<lparr>sm_regs := (sm_regs d)(p := (snd (sm_regs d p), v))\<rparr>)"

definition sim_outw :: "port \<Rightarrow> 16 word \<Rightarrow> sim \<Rightarrow> sim" where
  "sim_outw p w d =
     (case sm_phase d of
        DataOut l ws \<Rightarrow>
          if length ws = 255 then d\<lparr>sm_phase := Idle, sm_disk := (sm_disk d)(l := ws @ [w])\<rparr>
          else d\<lparr>sm_phase := DataOut l (ws @ [w])\<rparr>
      | _ \<Rightarrow> d)"

definition sim_hw :: "sim ata" where
  "sim_hw = \<lparr>a_inb = sim_inb, a_inw = sim_inw, a_outb = sim_outb, a_outw = sim_outw\<rparr>"

lemma sim_ident_nth:
  "length sim_ident = 256" "sim_ident ! 83 = 0x400" "sim_ident ! 100 = 2048"
  "sim_ident ! 101 = 0" "sim_ident ! 102 = 0" "sim_ident ! 103 = 0"
  by (simp_all add: sim_ident_def)

interpretation sim: ata_drive sim_hw sim_sect sim_ident 2048 sm_phase sm_busy sm_regs
proof
  show "bit (sim_ident ! 83) 10" unfolding sim_ident_nth by (simp add: bit_numeral_word_iff)
qed (auto simp: sim_ident_nth sim_hw_def sim_inb_def sim_inw_def sim_outb_def sim_outw_def sim_sect_def
       fun_eq_iff split: if_splits)

section \<open>Properties\<close>


definition sim0 :: "sim ide" where
  "sim0 = \<lparr>i_total = 0, i_present = False,
     i_dev = \<lparr>sm_disk = (\<lambda>_. []), sm_phase = Idle, sm_busy = 0, sm_regs = (\<lambda>_. (0, 0))\<rparr>\<rparr>"


text \<open>
  Sectors beyond the end: before \<open>ide_init\<close> has found a drive, and for a sector at or beyond its
  size, reading and writing fail at once and do not touch the hardware, whatever it is.
\<close>

theorem ide_out_of_range:
  assumes "\<not> i_present s \<or> i_total s \<le> lba"
  shows "ide_read hw lba s = (None, s) \<and> ide_write hw lba b s = (False, s)"
  using assms by (simp add: ide_read_def ide_write_def)

theorem ide_out_of_range_witness:
  "\<not> i_present sim0 \<and> ide_read sim_hw 3 sim0 = (None, sim0) \<and> ide_write sim_hw 3 [] sim0 = (False, sim0)"
  using ide_out_of_range [of sim0 3 sim_hw "[]"] by (simp add: sim0_def)

end
