(* ===== verification/Part.thy ===== *)
theory Part
  imports Ide
begin

text \<open>
  The MBR partition table of \<^verbatim>\<open>kernel/part.c\<close>. The static array keeps its four slots; \<open>nparts\<close> says
  how many are filled.
\<close>

record part =
  pt_type :: byte
  pt_lba :: "64 word"
  pt_sectors :: "64 word"

definition PART_MAX :: nat where "PART_MAX = 4"

record ptab =
  pt_parts :: "part list"
  pt_n :: nat
  pt_sec :: "byte list"

text \<open>One turn of the loop over the table entries.\<close>

definition part_entry :: "byte list \<Rightarrow> nat \<Rightarrow> ptab \<Rightarrow> ptab" where
  "part_entry sec i t =
     (let e = 0x1BE + i * 16;
          ty = sec ! (e + 4)
      in if ty = 0 then t
         else t\<lparr>pt_parts := (pt_parts t)[pt_n t := \<lparr>pt_type = ty, pt_lba = ucast (rd32 sec (e + 8)),
                  pt_sectors = ucast (rd32 sec (e + 12))\<rparr>],
                pt_n := pt_n t + 1\<rparr>)"

definition part_scan :: "'d ata \<Rightarrow> 'd ide \<Rightarrow> ptab \<Rightarrow> int \<times> 'd ide \<times> ptab" where
  "part_scan hw s t0 =
     (let t = t0\<lparr>pt_n := 0\<rparr>;
          (r1, s1) = ide_init hw s in
      if r1 \<noteq> 0 then (-1, s1, t)
      else case ide_read hw 0 s1 of
        (None, s2) \<Rightarrow> (-1, s2, t)
      | (Some sec, s2) \<Rightarrow>
        let t = t\<lparr>pt_sec := sec\<rparr> in
        if sec ! 510 \<noteq> 0x55 \<or> sec ! 511 \<noteq> 0xAA then (0, s2, t)
        else let t' = fold (part_entry sec) [0..<PART_MAX] t in (int (pt_n t'), s2, t'))"

definition part_count :: "ptab \<Rightarrow> int" where
  "part_count t = int (pt_n t)"

definition part_get :: "ptab \<Rightarrow> int \<Rightarrow> part option" where
  "part_get t idx = (if idx < 0 \<or> int (pt_n t) \<le> idx then None else Some (pt_parts t ! nat idx))"

section \<open>Properties\<close>

text \<open>The partitions a boot sector describes: its non-empty primary entries, in order.\<close>

definition mbr_entry :: "byte list \<Rightarrow> nat \<Rightarrow> part" where
  "mbr_entry sec i = \<lparr>pt_type = sec ! (0x1BE + i * 16 + 4), pt_lba = ucast (rd32 sec (0x1BE + i * 16 + 8)),
     pt_sectors = ucast (rd32 sec (0x1BE + i * 16 + 12))\<rparr>"

definition mbr :: "byte list \<Rightarrow> part list" where
  "mbr sec = (if sec ! 510 = 0x55 \<and> sec ! 511 = 0xAA
     then filter (\<lambda>p. pt_type p \<noteq> 0) (map (mbr_entry sec) [0..<4]) else [])"

lemma part_entries:
  assumes "length (pt_parts t) = PART_MAX" "pt_n t + length is \<le> PART_MAX"
  shows "pt_n (fold (part_entry sec) is t) =
       pt_n t + length (filter (\<lambda>p. pt_type p \<noteq> 0) (map (mbr_entry sec) is))
     \<and> length (pt_parts (fold (part_entry sec) is t)) = PART_MAX
     \<and> take (pt_n (fold (part_entry sec) is t)) (pt_parts (fold (part_entry sec) is t)) =
         take (pt_n t) (pt_parts t) @ filter (\<lambda>p. pt_type p \<noteq> 0) (map (mbr_entry sec) is)"
  using assms
proof (induction "is" arbitrary: t)
  case (Cons i "is")
  show ?case
  proof (cases "sec ! (0x1BE + i * 16 + 4) = 0")
    case True
    then have "part_entry sec i t = t" "pt_type (mbr_entry sec i) = 0"
      by (simp_all add: part_entry_def mbr_entry_def)
    then show ?thesis using Cons.IH [of t] Cons.prems by auto
  next
    case False
    let ?t = "t\<lparr>pt_parts := (pt_parts t)[pt_n t := mbr_entry sec i], pt_n := pt_n t + 1\<rparr>"
    have e: "part_entry sec i t = ?t" "pt_type (mbr_entry sec i) \<noteq> 0"
      using False by (simp_all add: part_entry_def mbr_entry_def)
    have "take (pt_n t + 1) ((pt_parts t)[pt_n t := mbr_entry sec i]) = take (pt_n t) (pt_parts t) @ [mbr_entry sec i]"
      using Cons.prems by (simp add: take_Suc_conv_app_nth)
    then show ?thesis using Cons.IH [of ?t] Cons.prems e by auto
  qed
qed simp

lemma part_get_nth:
  assumes "take (pt_n t) (pt_parts t) = es" "pt_n t = length es" "length (pt_parts t) = PART_MAX"
  shows "part_get t idx = (if 0 \<le> idx \<and> idx < int (length es) then Some (es ! nat idx) else None)"
  using assms(1,2) nth_take [of "nat idx" "pt_n t" "pt_parts t"] by (auto simp: part_get_def)


text \<open>A disk with one FAT32 partition of 512 sectors at sector 64.\<close>

definition mbr_disk :: "sim ide" where
  "mbr_disk = \<lparr>i_total = 0, i_present = False,
     i_dev = \<lparr>sm_disk = (\<lambda>l. if l = 0 then (replicate 256 0)[225 := 0x0C, 227 := 64, 229 := 512, 255 := 0xAA55] else []),
              sm_phase = Idle, sm_busy = 0, sm_regs = (\<lambda>_. (0, 0))\<rparr>\<rparr>"

lemma mbr_of_mbr_disk:
  "mbr (ide_blk sim_sect mbr_disk 0) = [\<lparr>pt_type = 0x0C, pt_lba = 64, pt_sectors = 512\<rparr>]"
proof -
  have *: "ide_blk sim_sect mbr_disk 0 ! i =
      (if i = 450 then 0x0C else if i = 454 then 64 else if i = 459 then 2 else if i = 510 then 0x55
       else if i = 511 then 0xAA else 0)" if "i < 512" for i
    using that
    by (cases "even i")
      (auto simp: ide_blk_def sim_sect_def mbr_disk_def nth_bytes_of nth_list_update elim!: evenE oddE,
       (drule arg_cong [where f = even], simp)+)
  obtain sec where sec: "sec = ide_blk sim_sect mbr_disk 0" by simp
  note at = * [folded sec]
  have "mbr_entry sec 0 = \<lparr>pt_type = 0x0C, pt_lba = 64, pt_sectors = 512\<rparr>"
    by (simp add: mbr_entry_def rd32_def at)
  moreover have "pt_type (mbr_entry sec i) = 0" if "i \<in> {1, 2, 3}" for i
    using that by (auto simp: mbr_entry_def at)
  moreover have "sec ! 510 = 0x55" "sec ! 511 = 0xAA" by (simp_all add: at)
  moreover have "[0..<4] = [0, 1, 2, 3 :: nat]" by (simp add: upt_rec)
  ultimately show ?thesis unfolding sec [symmetric] mbr_def by simp
qed


end
