(* ===== verification/Ramfs.thy ===== *)
theory Ramfs
  imports Prelude
begin

text \<open>
  The RAM file system of \<^verbatim>\<open>kernel/fs.c\<close>: the node table, path resolution and the operations as
  they behave while no FAT volume is mounted (the theory of the mount switch adds the rest).
  Node indices are natural numbers, the result \<open>-1\<close> of the helpers is \<open>None\<close>, the
  functions' codes are integers, and an out buffer is the list of bytes written to it.
\<close>

section \<open>The node table\<close>

record node =
  n_name :: cstr
  n_parent :: int
  n_dir :: bool
  n_used :: bool
  n_mode :: nat
  n_data :: "byte list"
  n_len :: nat

record ramfs =
  f_nodes :: "node list"
  f_cwd :: nat

definition FS_MAX :: nat where "FS_MAX = 64"
definition NAME_MAX :: nat where "NAME_MAX = 32"
definition FILE_MAX :: nat where "FILE_MAX = 4096"

definition FS_OK :: int where "FS_OK = 0"
definition FS_BADPATH :: int where "FS_BADPATH = -1"
definition FS_EXISTS :: int where "FS_EXISTS = -2"
definition FS_FULL :: int where "FS_FULL = -3"
definition FS_USAGE :: int where "FS_USAGE = -4"
definition FS_BADNAME :: int where "FS_BADNAME = -5"
definition FS_RO :: int where "FS_RO = -6"

lemmas fs_codes = FS_OK_def FS_BADPATH_def FS_EXISTS_def FS_FULL_def FS_USAGE_def FS_BADNAME_def FS_RO_def

abbreviation slash :: byte where "slash \<equiv> 47"
abbreviation dot :: cstr where "dot \<equiv> [46]"
abbreviation dotdot :: cstr where "dotdot \<equiv> [46, 46]"

section \<open>Names and paths\<close>

fun same_condition :: "cstr \<Rightarrow> cstr \<Rightarrow> bool" where
  "same_condition (a # as) (b # bs) = (a = b \<and> same_condition as bs)"
| "same_condition [] [] = True"
| "same_condition _ _ = False"

lemma same_condition_eq [simp]: "same_condition a b \<longleftrightarrow> a = b"
  by (induction a b rule: same_condition.induct) auto

definition name_cp :: "cstr \<Rightarrow> cstr" where
  "name_cp s = take (NAME_MAX - 1) s"

definition find_kid :: "node list \<Rightarrow> nat \<Rightarrow> cstr \<Rightarrow> nat option" where
  "find_kid ns dir name =
     find (\<lambda>i. n_used (ns ! i) \<and> n_parent (ns ! i) = int dir \<and> same_condition (n_name (ns ! i)) name)
       [0..<FS_MAX]"

definition skip_slash :: "cstr \<Rightarrow> cstr" where
  "skip_slash p = dropWhile (\<lambda>c. c = slash) p"

definition next_part :: "cstr \<Rightarrow> cstr" where
  "next_part p = take (NAME_MAX - 1) (takeWhile (\<lambda>c. c \<noteq> slash) (skip_slash p))"

text \<open>
  The loop of \<open>resolve\<close>. The name is taken from the position after leading slashes, so the position
  always advances.
\<close>

function resolve_loop :: "node list \<Rightarrow> nat \<Rightarrow> cstr \<Rightarrow> nat option" where
  "resolve_loop ns cur p =
     (let p1 = skip_slash p in
      if p1 = [] then Some cur
      else
        let part = next_part p1;
            p2 = skip_slash (drop (length part) p1)
        in if same_condition part dot then resolve_loop ns cur p2
           else if same_condition part dotdot then
             resolve_loop ns (if n_parent (ns ! cur) \<ge> 0 then nat (n_parent (ns ! cur)) else cur) p2
           else (case find_kid ns cur part of
               None \<Rightarrow> None
             | Some k \<Rightarrow> if p2 \<noteq> [] \<and> \<not> n_dir (ns ! k) then None else resolve_loop ns k p2))"
  by pat_completeness auto

lemma skip_slash_len: "length (skip_slash p) \<le> length p"
  by (simp add: skip_slash_def length_dropWhile_le)

lemma skip_slash_hd: "skip_slash p = c # q \<Longrightarrow> c \<noteq> slash"
  by (metis (mono_tags) dropWhile_eq_Cons_conv skip_slash_def)

lemma skip_slash_idem [simp]: "skip_slash (skip_slash p) = skip_slash p"
  by (simp add: skip_slash_def)

lemma next_part_pos: "skip_slash p \<noteq> [] \<Longrightarrow> next_part p \<noteq> []"
proof -
  assume "skip_slash p \<noteq> []"
  then obtain c q where "skip_slash p = c # q" by (cases "skip_slash p") auto
  with skip_slash_hd [OF this] show ?thesis by (simp add: next_part_def NAME_MAX_def)
qed

lemma resolve_decr:
  assumes "skip_slash p \<noteq> []"
  shows "length (skip_slash (drop (length (next_part (skip_slash p))) (skip_slash p))) < length p"
proof -
  have "length (next_part (skip_slash p)) > 0" using next_part_pos assms by simp
  then have "length (drop (length (next_part (skip_slash p))) (skip_slash p)) < length p"
    using skip_slash_len [of p] assms by (simp add: less_le_trans [OF diff_less])
  then show ?thesis using skip_slash_len le_less_trans by blast
qed

termination resolve_loop
  by (relation "measure (\<lambda>(ns, cur, p). length p)") (use resolve_decr in \<open>fastforce+\<close>)

declare resolve_loop.simps [simp del]

definition resolve :: "ramfs \<Rightarrow> cstr \<Rightarrow> nat option" where
  "resolve s path =
     (let cur = (case path of [] \<Rightarrow> f_cwd s | c # _ \<Rightarrow> if c = slash then 0 else f_cwd s)
      in if path = [] \<or> same_condition path dot then Some cur
         else resolve_loop (f_nodes s) cur path)"

definition resolve_dir :: "ramfs \<Rightarrow> cstr \<Rightarrow> nat option" where
  "resolve_dir s path =
     (case resolve s path of None \<Rightarrow> None
      | Some d \<Rightarrow> if \<not> n_dir (f_nodes s ! d) then None else Some d)"

definition free_slot :: "node list \<Rightarrow> nat option" where
  "free_slot ns = find (\<lambda>i. \<not> n_used (ns ! i)) [0..<FS_MAX]"

text \<open>The index of the last slash, as the loop of \<open>split_parent\<close> leaves it (\<open>None\<close> for \<open>-1\<close>).\<close>

definition last_slash :: "cstr \<Rightarrow> nat option" where
  "last_slash arg = fold (\<lambda>i l. if arg ! i = slash then Some i else l) [0..<length arg] None"

definition split_parent :: "ramfs \<Rightarrow> cstr \<Rightarrow> (nat \<times> cstr) option" where
  "split_parent s arg =
     (case last_slash arg of
        Some i \<Rightarrow>
          let pbuf = take 127 (take i arg) in
          (case resolve_dir s (if pbuf \<noteq> [] then pbuf else [slash]) of
             None \<Rightarrow> None
           | Some pdir \<Rightarrow> Some (pdir, next_part (drop (i + 1) arg)))
      | None \<Rightarrow> Some (f_cwd s, next_part arg))"

section \<open>The operations\<close>

text \<open>The modes are octal \<open>0755\<close> and \<open>0644\<close> in the source.\<close>

definition fs_init :: "ramfs \<Rightarrow> ramfs" where
  "fs_init s =
     (let ns = map (\<lambda>n. n\<lparr>n_used := False\<rparr>) (f_nodes s)
      in s\<lparr>f_nodes := ns[0 := (ns ! 0)\<lparr>n_name := [], n_parent := -1, n_dir := True,
             n_used := True, n_mode := 493\<rparr>], f_cwd := 0\<rparr>)"

definition bad_leaf :: "cstr \<Rightarrow> bool" where
  "bad_leaf leaf \<longleftrightarrow> leaf = [] \<or> same_condition leaf dot \<or> same_condition leaf dotdot"

definition ram_mkdir :: "ramfs \<Rightarrow> cstr \<Rightarrow> int \<times> ramfs" where
  "ram_mkdir s arg =
     (if arg = [] then (FS_USAGE, s)
      else case split_parent s arg of
        None \<Rightarrow> (FS_BADPATH, s)
      | Some (pdir, leaf) \<Rightarrow>
        if bad_leaf leaf then (FS_BADNAME, s)
        else if find_kid (f_nodes s) pdir leaf \<noteq> None then (FS_EXISTS, s)
        else case free_slot (f_nodes s) of
          None \<Rightarrow> (FS_FULL, s)
        | Some fr \<Rightarrow>
          (FS_OK, s\<lparr>f_nodes := (f_nodes s)[fr := (f_nodes s ! fr)\<lparr>n_name := name_cp leaf,
             n_parent := int pdir, n_dir := True, n_used := True, n_mode := 493, n_len := 0\<rparr>]\<rparr>))"

text \<open>The copy loop of \<open>fs_fwrite\<close>, into the file's fixed buffer.\<close>

definition put_data :: "node \<Rightarrow> byte list \<Rightarrow> node" where
  "put_data n buf = n\<lparr>n_data := buf @ drop (length buf) (n_data n), n_len := length buf\<rparr>"

definition ram_fwrite :: "ramfs \<Rightarrow> cstr \<Rightarrow> byte list \<Rightarrow> int \<times> ramfs" where
  "ram_fwrite s path buf =
     (if path = [] then (FS_BADPATH, s)
      else if length buf > FILE_MAX then (FS_FULL, s)
      else case split_parent s path of
        None \<Rightarrow> (FS_BADPATH, s)
      | Some (pdir, leaf) \<Rightarrow>
        if bad_leaf leaf then (FS_BADNAME, s)
        else case find_kid (f_nodes s) pdir leaf of
          Some k \<Rightarrow>
            if n_dir (f_nodes s ! k) then (FS_BADPATH, s)
            else (FS_OK, s\<lparr>f_nodes := (f_nodes s)[k := put_data (f_nodes s ! k) buf]\<rparr>)
        | None \<Rightarrow>
          (case free_slot (f_nodes s) of
             None \<Rightarrow> (FS_FULL, s)
           | Some k \<Rightarrow>
             (FS_OK, s\<lparr>f_nodes := (f_nodes s)[k := put_data ((f_nodes s ! k)\<lparr>n_name := name_cp leaf,
                n_parent := int pdir, n_dir := False, n_used := True, n_mode := 420\<rparr>) buf]\<rparr>)))"

definition fs_fread_ram :: "ramfs \<Rightarrow> cstr \<Rightarrow> nat \<Rightarrow> int \<times> byte list" where
  "fs_fread_ram s path cap =
     (case resolve s path of
        None \<Rightarrow> (-1, [])
      | Some idx \<Rightarrow>
        if n_dir (f_nodes s ! idx) then (-1, [])
        else let n = min (n_len (f_nodes s ! idx)) cap
             in (int n, take n (n_data (f_nodes s ! idx))))"

definition ram_chdir :: "ramfs \<Rightarrow> cstr \<Rightarrow> int \<times> ramfs" where
  "ram_chdir s path =
     (if path = [] then (FS_OK, s\<lparr>f_cwd := 0\<rparr>)
      else case resolve_dir s path of
        None \<Rightarrow> (FS_BADPATH, s)
      | Some dir \<Rightarrow> (FS_OK, s\<lparr>f_cwd := dir\<rparr>))"

definition list_line :: "node \<Rightarrow> byte list" where
  "list_line n = n_name n @ (if n_dir n then [slash] else []) @ [10]"

fun list_loop :: "node list \<Rightarrow> nat \<Rightarrow> nat \<Rightarrow> nat list \<Rightarrow> byte list \<Rightarrow> byte list" where
  "list_loop ns dir cap [] out = out"
| "list_loop ns dir cap (i # is) out =
     (if \<not> n_used (ns ! i) \<or> n_parent (ns ! i) \<noteq> int dir then list_loop ns dir cap is out
      else if length out + length (n_name (ns ! i)) + 2 > cap then out
      else list_loop ns dir cap is (out @ list_line (ns ! i)))"

definition ram_listdir :: "ramfs \<Rightarrow> cstr \<Rightarrow> nat \<Rightarrow> int \<times> byte list" where
  "ram_listdir s path cap =
     (let run = (\<lambda>dir. let out = list_loop (f_nodes s) dir cap [0..<FS_MAX] [] in (int (length out), out))
      in if path = [] then run (f_cwd s)
         else case resolve_dir s path of None \<Rightarrow> (FS_BADPATH, []) | Some dir \<Rightarrow> run dir)"

text \<open>The stack of \<open>fs_getcwd\<close>, deepest node first; the number is how many more nodes fit.\<close>

fun cwd_stack :: "node list \<Rightarrow> nat \<Rightarrow> nat \<Rightarrow> nat list" where
  "cwd_stack ns cur 0 = []"
| "cwd_stack ns cur (Suc n) =
     (if cur = 0 then [] else cur # cwd_stack ns (nat (n_parent (ns ! cur))) n)"

fun cwd_out :: "node list \<Rightarrow> nat \<Rightarrow> nat list \<Rightarrow> byte list \<Rightarrow> bool \<times> byte list" where
  "cwd_out ns cap [] out = (True, out)"
| "cwd_out ns cap (i # is) out =
     (if length out + length (n_name (ns ! i)) + 2 > cap then (False, out)
      else cwd_out ns cap is (out @ slash # n_name (ns ! i)))"

definition ram_getcwd :: "ramfs \<Rightarrow> nat \<Rightarrow> int \<times> cstr" where
  "ram_getcwd s cap =
     (if cap < 2 then (FS_BADPATH, [])
      else if f_cwd s = 0 then (1, [slash])
      else case cwd_out (f_nodes s) cap (rev (cwd_stack (f_nodes s) (f_cwd s) FS_MAX)) [] of
        (done, out) \<Rightarrow> (if done then int (length out) else FS_BADPATH, out))"

section \<open>The table invariant\<close>

definition good_name :: "cstr \<Rightarrow> bool" where
  "good_name x \<longleftrightarrow> \<not> bad_leaf x \<and> length x \<le> 31 \<and> slash \<notin> set x"

definition node_ok :: "node list \<Rightarrow> nat \<Rightarrow> bool" where
  "node_ok ns i \<longleftrightarrow> (if i = 0 then n_name (ns ! i) = [] \<and> n_parent (ns ! i) = -1 \<and> n_dir (ns ! i)
     else good_name (n_name (ns ! i)) \<and>
       (\<exists>p < i. n_parent (ns ! i) = int p \<and> n_used (ns ! p) \<and> n_dir (ns ! p)))"

text \<open>
  The used nodes are a prefix of the table and form a tree rooted at node 0: every other used node
  has a proper name and hangs below an earlier directory, and no two entries of a directory have
  the same name. File lengths stay within the fixed buffers.
\<close>

definition table_ok :: "node list \<Rightarrow> bool" where
  "table_ok ns \<longleftrightarrow> length ns = FS_MAX \<and> n_used (ns ! 0)
     \<and> (\<forall>i < FS_MAX. \<forall>j < i. n_used (ns ! i) \<longrightarrow> n_used (ns ! j))
     \<and> (\<forall>i < FS_MAX. n_used (ns ! i) \<longrightarrow> node_ok ns i)
     \<and> (\<forall>i < FS_MAX. \<forall>j < FS_MAX. n_used (ns ! i) \<longrightarrow> n_used (ns ! j) \<longrightarrow>
          n_parent (ns ! i) = n_parent (ns ! j) \<longrightarrow> n_name (ns ! i) = n_name (ns ! j) \<longrightarrow> i = j)
     \<and> (\<forall>i < FS_MAX. length (n_data (ns ! i)) = FILE_MAX \<and> (n_used (ns ! i) \<longrightarrow> \<not> n_dir (ns ! i) \<longrightarrow> n_len (ns ! i) \<le> FILE_MAX))"

definition live :: "node list \<Rightarrow> nat \<Rightarrow> bool" where
  "live ns i \<longleftrightarrow> i < FS_MAX \<and> n_used (ns ! i)"

definition fs_ok :: "ramfs \<Rightarrow> bool" where
  "fs_ok s \<longleftrightarrow> table_ok (f_nodes s) \<and> live (f_nodes s) (f_cwd s) \<and> n_dir (f_nodes s ! f_cwd s)"

lemma table_okD:
  assumes "table_ok ns"
  shows "length ns = FS_MAX" "n_used (ns ! 0)"
    "\<And>i j. live ns i \<Longrightarrow> j < i \<Longrightarrow> n_used (ns ! j)"
    "\<And>i. live ns i \<Longrightarrow> node_ok ns i"
    "\<And>i j. live ns i \<Longrightarrow> live ns j \<Longrightarrow> n_parent (ns ! i) = n_parent (ns ! j) \<Longrightarrow>
       n_name (ns ! i) = n_name (ns ! j) \<Longrightarrow> i = j"
    "\<And>i. i < FS_MAX \<Longrightarrow> length (n_data (ns ! i)) = FILE_MAX"
    "\<And>i. live ns i \<Longrightarrow> \<not> n_dir (ns ! i) \<Longrightarrow> n_len (ns ! i) \<le> FILE_MAX"
  using assms unfolding table_ok_def live_def by blast+

lemma root_ok:
  assumes "table_ok ns"
  shows "live ns 0" "n_name (ns ! 0) = []" "n_parent (ns ! 0) = -1" "n_dir (ns ! 0)"
proof -
  show l: "live ns 0" using table_okD(2) [OF assms] by (simp add: live_def FS_MAX_def)
  show "n_name (ns ! 0) = []" "n_parent (ns ! 0) = -1" "n_dir (ns ! 0)"
    using table_okD(4) [OF assms l] by (simp_all add: node_ok_def)
qed

lemma parent_ok:
  assumes "table_ok ns" "live ns i" "i \<noteq> 0"
  obtains p where "p < i" "n_parent (ns ! i) = int p" "live ns p" "n_dir (ns ! p)"
    "good_name (n_name (ns ! i))"
  using table_okD(4) [OF assms(1,2)] assms(2,3) unfolding node_ok_def live_def
  by (auto intro: less_trans)

definition is_kid :: "node list \<Rightarrow> nat \<Rightarrow> cstr \<Rightarrow> nat \<Rightarrow> bool" where
  "is_kid ns d x i \<longleftrightarrow> live ns i \<and> n_parent (ns ! i) = int d \<and> n_name (ns ! i) = x"

lemma is_kid_unique: "table_ok ns \<Longrightarrow> is_kid ns d x i \<Longrightarrow> is_kid ns d x j \<Longrightarrow> i = j"
  unfolding is_kid_def using table_okD(5) by metis

lemma find_kid_is_kid: "find_kid ns d x = Some k \<Longrightarrow> is_kid ns d x k"
  by (auto simp: find_kid_def is_kid_def live_def find_Some_iff)

lemma find_kid_None: "find_kid ns d x = None \<longleftrightarrow> (\<forall>i. \<not> is_kid ns d x i)"
  by (auto simp: find_kid_def is_kid_def live_def find_None_iff)

lemma find_kid_iff: "table_ok ns \<Longrightarrow> find_kid ns d x = Some k \<longleftrightarrow> is_kid ns d x k"
  by (metis find_kid_None find_kid_is_kid is_kid_unique not_None_eq)

lemma kid_props:
  assumes "table_ok ns" "is_kid ns d x k"
  shows "live ns k" "live ns d" "n_dir (ns ! d)" "d < k" "good_name x" "k \<noteq> 0"
proof -
  show l: "live ns k" using assms(2) by (simp add: is_kid_def)
  show k0: "k \<noteq> 0"
    using assms root_ok(3) by (cases k) (auto simp: is_kid_def)
  obtain p where "p < k" "n_parent (ns ! k) = int p" "live ns p" "n_dir (ns ! p)"
    "good_name (n_name (ns ! k))" by (rule parent_ok [OF assms(1) l k0])
  then show "live ns d" "n_dir (ns ! d)" "d < k" "good_name x"
    using assms(2) by (auto simp: is_kid_def)
qed

lemma free_slot_Some: "free_slot ns = Some i \<Longrightarrow> i < FS_MAX \<and> \<not> n_used (ns ! i) \<and> (\<forall>j < i. n_used (ns ! j))"
  by (auto simp: free_slot_def find_Some_iff)

lemma free_slot_None: "free_slot ns = None \<longleftrightarrow> (\<forall>i < FS_MAX. n_used (ns ! i))"
  by (auto simp: free_slot_def find_None_iff)

lemma good_name_take: "good_name x \<Longrightarrow> name_cp x = x"
  by (simp add: good_name_def name_cp_def NAME_MAX_def)

subsection \<open>Adding a node, changing a file\<close>

lemma add_node_ok:
  assumes ok: "table_ok ns" and fr: "free_slot ns = Some fr"
    and p: "live ns pdir" "n_dir (ns ! pdir)" "good_name (n_name n)" "find_kid ns pdir (n_name n) = None"
    and n: "n_used n" "n_parent n = int pdir" "length (n_data n) = FILE_MAX" "n_len n \<le> FILE_MAX"
  shows "table_ok (ns[fr := n])"
proof -
  note len = table_okD(1) [OF ok]
  have f: "fr < FS_MAX" "\<not> n_used (ns ! fr)" "\<And>j. j < fr \<Longrightarrow> n_used (ns ! j)"
    using free_slot_Some [OF fr] by auto
  have pf: "pdir < fr" using table_okD(3) [OF ok p(1)] f p(1) by (metis linorder_neqE_nat live_def)
  have f0: "fr \<noteq> 0" using pf by simp
  have at: "ns[fr := n] ! i = (if i = fr then n else ns ! i)" for i using f len by (simp add: nth_list_update)
  have node: "node_ok (ns[fr := n]) i" if "live ns i" for i
  proof -
    have i: "i \<noteq> fr" using that f(2) by (auto simp: live_def)
    have "\<exists>p < i. n_parent (ns ! i) = int p \<and> n_used (ns[fr := n] ! p) \<and> n_dir (ns[fr := n] ! p)" if i0: "i \<noteq> 0"
    proof -
      obtain p where "p < i" "n_parent (ns ! i) = int p" "live ns p" "n_dir (ns ! p)"
        by (rule parent_ok [OF ok \<open>live ns i\<close> i0])
      moreover from this f(2) have "p \<noteq> fr" by (auto simp: live_def)
      ultimately show ?thesis by (auto simp: live_def)
    qed
    then show ?thesis using table_okD(4) [OF ok that] i by (cases "i = 0") (simp_all add: node_ok_def)
  qed
  have "node_ok (ns[fr := n]) fr"
    using f0 p n pf unfolding node_ok_def at by (auto simp: live_def)
  moreover have nokid: "\<not> is_kid ns pdir (n_name n) i" for i using p(4) find_kid_None by blast
  ultimately show ?thesis
    unfolding table_ok_def
  proof (intro conjI allI impI)
    fix i j
    assume l: "i < FS_MAX" "j < FS_MAX" and u: "n_used (ns[fr := n] ! i)" "n_used (ns[fr := n] ! j)"
      and e: "n_parent (ns[fr := n] ! i) = n_parent (ns[fr := n] ! j)"
        "n_name (ns[fr := n] ! i) = n_name (ns[fr := n] ! j)"
    consider "i = fr" "j = fr" | "i = fr" "j \<noteq> fr" | "i \<noteq> fr" "j = fr" | "i \<noteq> fr" "j \<noteq> fr" by blast
    then show "i = j"
    proof cases
      case 2
      then have "is_kid ns pdir (n_name n) j" using l u e n(2) unfolding at is_kid_def live_def by simp
      with nokid show ?thesis by blast
    next
      case 3
      then have "is_kid ns pdir (n_name n) i" using l u e n(2) unfolding at is_kid_def live_def by simp
      with nokid show ?thesis by blast
    next
      case 4
      then show ?thesis using table_okD(5) [OF ok, of i j] l u e unfolding at live_def by simp
    qed simp
  qed (use f f0 len node n table_okD [OF ok] in \<open>auto simp: at live_def split: if_splits\<close>)
qed

lemma put_data_ok:
  assumes ok: "table_ok ns" and k: "live ns k" "\<not> n_dir (ns ! k)" and b: "length buf \<le> FILE_MAX"
  shows "table_ok (ns[k := put_data (ns ! k) buf])"
proof -
  note len = table_okD(1) [OF ok]
  let ?ns = "ns[k := put_data (ns ! k) buf]"
  have at0: "?ns ! i = (if i = k then put_data (ns ! k) buf else ns ! i)" for i
    using k(1) len by (simp add: nth_list_update live_def)
  have at: "n_used (?ns ! i) = n_used (ns ! i)" "n_parent (?ns ! i) = n_parent (ns ! i)"
    "n_name (?ns ! i) = n_name (ns ! i)" "n_dir (?ns ! i) = n_dir (ns ! i)" for i
    unfolding at0 by (simp_all add: put_data_def)
  have d: "length (n_data (?ns ! i)) = FILE_MAX" if "i < FS_MAX" for i
    using table_okD(6) [OF ok that] b unfolding at0 by (auto simp: put_data_def)
  have l: "n_len (?ns ! i) \<le> FILE_MAX" if "i < FS_MAX" "n_used (ns ! i)" "\<not> n_dir (ns ! i)" for i
    using table_okD(7) [OF ok, of i] b that unfolding at0 by (auto simp: put_data_def live_def)
  show ?thesis
    using ok d l unfolding table_ok_def node_ok_def at by simp
qed

section \<open>The tree of paths\<close>

fun walk_path :: "node list \<Rightarrow> nat \<Rightarrow> cstr list \<Rightarrow> nat option" where
  "walk_path ns k [] = Some k"
| "walk_path ns k (x # xs) = (case find_kid ns k x of None \<Rightarrow> None | Some j \<Rightarrow> walk_path ns j xs)"

datatype entry = ADir | AFile "byte list"

definition content :: "node \<Rightarrow> entry" where
  "content n = (if n_dir n then ADir else AFile (take (n_len n) (n_data n)))"

text \<open>The abstract state: which paths from the root exist, and what they hold.\<close>

definition tree :: "node list \<Rightarrow> cstr list \<Rightarrow> entry option" where
  "tree ns path = map_option (\<lambda>k. content (ns ! k)) (walk_path ns 0 path)"

definition path_of :: "node list \<Rightarrow> nat \<Rightarrow> cstr list" where
  "path_of ns k = map (\<lambda>i. n_name (ns ! i)) (rev (cwd_stack ns k FS_MAX))"

lemma walk_path_snoc:
  "walk_path ns k (xs @ [x]) = (case walk_path ns k xs of None \<Rightarrow> None | Some j \<Rightarrow> find_kid ns j x)"
  by (induction xs arbitrary: k) (auto split: option.splits)

lemma cwd_stack_fuel:
  assumes "table_ok ns" "live ns k" "k \<le> n" "k \<le> m"
  shows "cwd_stack ns k n = cwd_stack ns k m"
  using assms
proof (induction n arbitrary: k m)
  case 0
  then show ?case by (cases m) auto
next
  case (Suc n)
  show ?case
  proof (cases "k = 0")
    case True
    then show ?thesis by (cases m) auto
  next
    case False
    obtain p where p: "p < k" "n_parent (ns ! k) = int p" "live ns p" "n_dir (ns ! p)"
      "good_name (n_name (ns ! k))" by (rule parent_ok [OF Suc.prems(1,2) False])
    obtain m' where "m = Suc m'" using False Suc.prems by (cases m) auto
    then show ?thesis using Suc.IH [OF Suc.prems(1) p(3), of m'] p Suc.prems by simp
  qed
qed

lemma path_of_root [simp]: "path_of ns 0 = []"
  by (simp add: path_of_def FS_MAX_def numeral_eq_Suc)

lemma path_of_kid:
  assumes "table_ok ns" "is_kid ns d x k"
  shows "path_of ns k = path_of ns d @ [x]"
proof -
  note kp = kid_props [OF assms]
  have k: "k < FS_MAX" using kp(1) by (simp add: live_def)
  have "cwd_stack ns k FS_MAX = k # cwd_stack ns d (FS_MAX - 1)"
    using kp(6) assms(2) by (simp add: FS_MAX_def numeral_eq_Suc is_kid_def)
  also have "cwd_stack ns d (FS_MAX - 1) = cwd_stack ns d FS_MAX"
    using cwd_stack_fuel [OF assms(1) kp(2)] kp(4) k by simp
  finally show ?thesis using assms(2) by (simp add: path_of_def is_kid_def)
qed

lemma walk_path_path_of:
  assumes "table_ok ns" "walk_path ns 0 p = Some k"
  shows "p = path_of ns k"
  using assms(2)
proof (induction p arbitrary: k rule: rev_induct)
  case Nil
  then show ?case by simp
next
  case (snoc x p)
  then obtain j where "walk_path ns 0 p = Some j" "find_kid ns j x = Some k"
    by (auto simp: walk_path_snoc split: option.splits)
  then show ?case using snoc.IH path_of_kid assms(1) find_kid_is_kid by metis
qed

lemma path_of_walk:
  assumes "table_ok ns" "live ns k"
  shows "walk_path ns 0 (path_of ns k) = Some k"
  using assms(2)
proof (induction k rule: less_induct)
  case (less k)
  show ?case
  proof (cases "k = 0")
    case False
    obtain p where p: "p < k" "n_parent (ns ! k) = int p" "live ns p" "n_dir (ns ! p)"
      "good_name (n_name (ns ! k))" by (rule parent_ok [OF assms(1) less.prems False])
    then have kid: "is_kid ns p (n_name (ns ! k)) k" using less.prems by (simp add: is_kid_def)
    then show ?thesis
      using path_of_kid [OF assms(1) kid] less.IH [OF p(1,3)] find_kid_iff [OF assms(1)]
      by (simp add: walk_path_snoc)
  qed simp
qed

lemma path_of_inj: "table_ok ns \<Longrightarrow> live ns i \<Longrightarrow> live ns j \<Longrightarrow> path_of ns i = path_of ns j \<longleftrightarrow> i = j"
  by (metis option.inject path_of_walk)

lemma walk_live: "table_ok ns \<Longrightarrow> live ns k \<Longrightarrow> walk_path ns k p = Some j \<Longrightarrow> live ns j"
  by (induction p arbitrary: k) (auto split: option.splits dest!: find_kid_is_kid simp: is_kid_def)

lemma tree_path_of: "table_ok ns \<Longrightarrow> live ns k \<Longrightarrow> tree ns (path_of ns k) = Some (content (ns ! k))"
  by (simp add: tree_def path_of_walk)

lemma tree_snoc:
  "table_ok ns \<Longrightarrow> live ns d \<Longrightarrow>
     tree ns (path_of ns d @ [x]) = map_option (\<lambda>k. content (ns ! k)) (find_kid ns d x)"
  by (simp add: tree_def walk_path_snoc path_of_walk)

lemma content_dir [simp]: "content n = ADir \<longleftrightarrow> n_dir n"
  by (simp add: content_def)

lemma tree_add_node:
  assumes ok: "table_ok ns" and fr: "free_slot ns = Some fr"
    and p: "live ns pdir" "find_kid ns pdir (n_name n) = None"
    and n: "n_used n" "n_parent n = int pdir"
  shows "tree (ns[fr := n]) = (tree ns)(path_of ns pdir @ [n_name n] \<mapsto> content n)"
proof -
  note len = table_okD(1) [OF ok]
  let ?ns = "ns[fr := n]" and ?P = "path_of ns pdir @ [n_name n]"
  have f: "fr < FS_MAX" "\<not> n_used (ns ! fr)" using free_slot_Some [OF fr] by auto
  have at: "?ns ! i = (if i = fr then n else ns ! i)" for i using f len by (simp add: nth_list_update)
  have nf: "pdir \<noteq> fr" using p(1) f(2) by (auto simp: live_def)
  have kid: "is_kid ?ns d x i \<longleftrightarrow> (if i = fr then d = pdir \<and> x = n_name n else is_kid ns d x i)" for d x i
    unfolding is_kid_def live_def at using n f by auto
  have nokid: "\<not> is_kid ns fr x i" for x i using kid_props(2) [OF ok] f(2) by (auto simp: live_def)
  have fk: "find_kid ?ns d x = (if d = pdir \<and> x = n_name n then Some fr else find_kid ns d x)" for d x
  proof (cases "d = pdir \<and> x = n_name n")
    case True
    then have "is_kid ?ns d x i \<longleftrightarrow> i = fr" for i using p(2) find_kid_None by (simp add: kid)
    then show ?thesis using True find_kid_is_kid find_kid_None by (metis option.exhaust)
  next
    case False
    then have eq: "is_kid ?ns d x i = is_kid ns d x i" for i
      unfolding kid using f by (auto simp: is_kid_def live_def)
    show ?thesis using eq False find_kid_is_kid find_kid_None find_kid_iff [OF ok]
      by (metis (no_types, lifting) option.exhaust)
  qed
  have walk: "walk_path ?ns 0 q = (if q = ?P then Some fr else walk_path ns 0 q)" for q
  proof (induction q rule: rev_induct)
    case (snoc x q)
    show ?case
    proof (cases "q = ?P")
      case True
      have "walk_path ns 0 ?P = None" using p path_of_walk [OF ok p(1)] by (simp add: walk_path_snoc)
      moreover have "find_kid ?ns fr x = None" using nf nokid find_kid_None by (simp add: fk)
      ultimately show ?thesis
        using snoc True walk_path_snoc [of ?ns 0 q x] walk_path_snoc [of ns 0 q x] by simp
    next
      case False
      then have "walk_path ?ns 0 q = walk_path ns 0 q" using snoc by simp
      moreover have "walk_path ns 0 q = Some pdir \<longleftrightarrow> q = path_of ns pdir"
        using walk_path_path_of [OF ok] path_of_walk [OF ok p(1)] by blast
      ultimately show ?thesis
        by (cases "walk_path ns 0 q") (auto simp: walk_path_snoc fk)
    qed
  qed simp
  have "tree ?ns q = (if q = ?P then Some (content n) else tree ns q)" for q
  proof (cases "walk_path ns 0 q")
    case (Some k)
    then have "live ns k" using walk_live [OF ok root_ok(1) [OF ok]] by blast
    then have "k \<noteq> fr" using f(2) by (auto simp: live_def)
    then show ?thesis using Some f len by (simp add: tree_def walk at)
  next
    case None
    then show ?thesis using f len by (simp add: tree_def walk at)
  qed
  then show ?thesis by auto
qed

lemma tree_put_data:
  assumes ok: "table_ok ns" and k: "live ns k" "\<not> n_dir (ns ! k)"
  shows "tree (ns[k := put_data (ns ! k) buf]) = (tree ns)(path_of ns k \<mapsto> AFile buf)"
proof -
  note len = table_okD(1) [OF ok]
  let ?ns = "ns[k := put_data (ns ! k) buf]"
  have at: "?ns ! i = (if i = k then put_data (ns ! k) buf else ns ! i)" for i
    using k(1) len by (simp add: nth_list_update live_def)
  have fk: "find_kid ?ns d x = find_kid ns d x" for d x
  proof -
    have "n_used (?ns ! i) = n_used (ns ! i)" "n_parent (?ns ! i) = n_parent (ns ! i)"
      "n_name (?ns ! i) = n_name (ns ! i)" for i unfolding at by (simp_all add: put_data_def)
    then show ?thesis by (simp add: find_kid_def)
  qed
  have "walk_path ?ns j q = walk_path ns j q" for j q
    by (induction q arbitrary: j) (simp_all add: fk split: option.splits)
  moreover have "walk_path ns 0 q = Some k \<longleftrightarrow> q = path_of ns k" for q
    using walk_path_path_of [OF ok] path_of_walk [OF ok k(1)] by blast
  moreover have "content (?ns ! i) = (if i = k then AFile buf else content (ns ! i))" for i
    unfolding at using k(2) by (simp add: content_def put_data_def)
  ultimately show ?thesis
    by (intro ext) (auto simp: tree_def intro!: option.map_cong)
qed

section \<open>Paths: the specification\<close>

text \<open>The components of a path, and the path an absolute or relative path leads to in a tree.\<close>

function parts :: "cstr \<Rightarrow> cstr list" where
  "parts p =
     (let p1 = skip_slash p in
      if p1 = [] then []
      else takeWhile (\<lambda>c. c \<noteq> slash) p1 # parts (dropWhile (\<lambda>c. c \<noteq> slash) p1))"
  by pat_completeness auto

termination
proof (relation "measure length")
  fix p p1
  assume p1: "p1 = skip_slash p" "p1 \<noteq> []"
  then obtain c q where c: "p1 = c # q" "c \<noteq> slash" using skip_slash_hd by (metis neq_Nil_conv)
  then have "length (dropWhile (\<lambda>c. c \<noteq> slash) p1) \<le> length q" by (simp add: length_dropWhile_le)
  then show "(dropWhile (\<lambda>c. c \<noteq> slash) p1, p) \<in> measure length"
    using c p1 skip_slash_len [of p] by simp
qed simp

declare parts.simps [simp del]

fun go :: "(cstr list \<Rightarrow> entry option) \<Rightarrow> cstr list \<Rightarrow> cstr list \<Rightarrow> cstr list option" where
  "go t cur [] = Some cur"
| "go t cur (x # xs) =
     (if x = dot then go t cur xs
      else if x = dotdot then go t (butlast cur) xs
      else (case t (cur @ [x]) of
          None \<Rightarrow> None
        | Some e \<Rightarrow> if xs \<noteq> [] \<and> e \<noteq> ADir then None else go t (cur @ [x]) xs))"

definition is_abs :: "cstr \<Rightarrow> bool" where
  "is_abs p \<longleftrightarrow> (case p of [] \<Rightarrow> False | c # _ \<Rightarrow> c = slash)"

definition spec_resolve :: "(cstr list \<Rightarrow> entry option) \<Rightarrow> cstr list \<Rightarrow> cstr \<Rightarrow> cstr list option" where
  "spec_resolve t cwd p = go t (if is_abs p then [] else cwd) (parts p)"

abbreviation short :: "cstr \<Rightarrow> bool" where
  "short p \<equiv> (\<forall>x \<in> set (parts p). length x \<le> 31)"

definition cwd_path :: "ramfs \<Rightarrow> cstr list" where
  "cwd_path s = path_of (f_nodes s) (f_cwd s)"

lemma parts_skip [simp]: "parts (skip_slash p) = parts p"
  by (subst (1 2) parts.simps) simp

lemma parts_Nil [simp]: "parts [] = []"
  by (simp add: parts.simps skip_slash_def)

lemma parts_eq_Nil: "parts p = [] \<longleftrightarrow> skip_slash p = []"
  by (subst parts.simps) (simp add: Let_def)

lemma parts_Cons:
  assumes "skip_slash p \<noteq> []" "length (takeWhile (\<lambda>c. c \<noteq> slash) (skip_slash p)) \<le> 31"
  shows "parts p = next_part (skip_slash p) #
           parts (skip_slash (drop (length (next_part (skip_slash p))) (skip_slash p)))"
proof -
  have "next_part (skip_slash p) = takeWhile (\<lambda>c. c \<noteq> slash) (skip_slash p)"
    using assms by (simp add: next_part_def NAME_MAX_def)
  then show ?thesis using assms(1) by (subst parts.simps) (simp add: Let_def dropWhile_eq_drop)
qed

lemma kid_dot: "table_ok ns \<Longrightarrow> find_kid ns d dot = None" "table_ok ns \<Longrightarrow> find_kid ns d dotdot = None"
  using kid_props(5) unfolding find_kid_None good_name_def bad_leaf_def by fastforce+

lemma path_of_parent:
  assumes "table_ok ns" "live ns k"
  shows "path_of ns (if n_parent (ns ! k) \<ge> 0 then nat (n_parent (ns ! k)) else k) = butlast (path_of ns k)"
    and "live ns (if n_parent (ns ! k) \<ge> 0 then nat (n_parent (ns ! k)) else k)"
proof -
  let ?p = "if n_parent (ns ! k) \<ge> 0 then nat (n_parent (ns ! k)) else k"
  have "path_of ns ?p = butlast (path_of ns k) \<and> live ns ?p"
  proof (cases "k = 0")
    case True
    then show ?thesis using root_ok [OF assms(1)] by simp
  next
    case False
    obtain p where p: "p < k" "n_parent (ns ! k) = int p" "live ns p" "n_dir (ns ! p)"
      "good_name (n_name (ns ! k))" by (rule parent_ok [OF assms False])
    then have "is_kid ns p (n_name (ns ! k)) k" using assms(2) by (simp add: is_kid_def)
    then show ?thesis using path_of_kid [OF assms(1)] p by simp
  qed
  then show "path_of ns ?p = butlast (path_of ns k)" "live ns ?p" by blast+
qed

lemma resolve_loop_step:
  assumes "skip_slash p \<noteq> []"
  defines "x \<equiv> next_part (skip_slash p)"
  defines "q \<equiv> skip_slash (drop (length x) (skip_slash p))"
  shows "resolve_loop ns cur p = (if x = dot then resolve_loop ns cur q
      else if x = dotdot then
        resolve_loop ns (if n_parent (ns ! cur) \<ge> 0 then nat (n_parent (ns ! cur)) else cur) q
      else (case find_kid ns cur x of None \<Rightarrow> None
        | Some k \<Rightarrow> if q \<noteq> [] \<and> \<not> n_dir (ns ! k) then None else resolve_loop ns k q))"
  using assms(1) unfolding q_def x_def by (subst resolve_loop.simps) (simp add: Let_def)

section \<open>Path resolution refines the specification\<close>

lemma resolve_loop_refines:
  assumes "table_ok ns" "live ns cur" "short p"
  shows "map_option (path_of ns) (resolve_loop ns cur p) = go (tree ns) (path_of ns cur) (parts p)
     \<and> (\<forall>k. resolve_loop ns cur p = Some k \<longrightarrow> live ns k)"
  using assms
proof (induction ns cur p rule: resolve_loop.induct)
  case (1 ns cur p)
  note ok = "1.prems"(1) and lv = "1.prems"(2)
  show ?case
  proof (cases "skip_slash p = []")
    case True
    then have "parts p = []" by (simp add: parts_eq_Nil)
    with True show ?thesis using lv by (simp add: resolve_loop.simps)
  next
    case False
    let ?x = "next_part (skip_slash p)"
    let ?q = "skip_slash (drop (length ?x) (skip_slash p))"
    let ?up = "if n_parent (ns ! cur) \<ge> 0 then nat (n_parent (ns ! cur)) else cur"
    have "takeWhile (\<lambda>c. c \<noteq> slash) (skip_slash p) \<in> set (parts p)"
      using False by (subst parts.simps) (simp add: Let_def)
    then have pc: "parts p = ?x # parts ?q" using parts_Cons [OF False] "1.prems"(3) by blast
    then have sq: "short ?q" using "1.prems"(3) by simp
    have q: "parts ?q \<noteq> [] \<longleftrightarrow> ?q \<noteq> []" by (simp add: parts_eq_Nil)
    have eq: "resolve_loop ns cur p = (if ?x = dot then resolve_loop ns cur ?q
        else if ?x = dotdot then resolve_loop ns ?up ?q
        else (case find_kid ns cur ?x of None \<Rightarrow> None
          | Some k \<Rightarrow> if ?q \<noteq> [] \<and> \<not> n_dir (ns ! k) then None else resolve_loop ns k ?q))"
      by (rule resolve_loop_step [OF False])
    consider "?x = dot" | "?x = dotdot" | "?x \<noteq> dot" "?x \<noteq> dotdot" by blast
    then show ?thesis
    proof cases
      case 1
      show ?thesis
        unfolding eq pc using 1 "1.IH"(1) [OF refl False refl refl _ ok lv sq] by simp
    next
      case 2
      note up = path_of_parent [OF ok lv]
      show ?thesis
        unfolding eq pc using 2 "1.IH"(2) [OF refl False refl refl _ _ ok up(2) sq] up(1) by simp
    next
      case 3
      show ?thesis
      proof (cases "find_kid ns cur ?x")
        case None
        then show ?thesis
          unfolding eq pc using 3 tree_snoc [OF ok lv] by simp
      next
        case (Some k)
        then have kid: "is_kid ns cur ?x k" by (rule find_kid_is_kid)
        note k = kid_props(1) [OF ok kid] path_of_kid [OF ok kid]
        show ?thesis
        proof (cases "?q \<noteq> [] \<and> \<not> n_dir (ns ! k)")
          case True
          then show ?thesis unfolding eq pc using 3 Some tree_snoc [OF ok lv] q by simp
        next
          case False
          have "map_option (path_of ns) (resolve_loop ns k ?q) = go (tree ns) (path_of ns k) (parts ?q)
              \<and> (\<forall>j. resolve_loop ns k ?q = Some j \<longrightarrow> live ns j)"
            using "1.IH"(3) [OF refl \<open>skip_slash p \<noteq> []\<close> refl refl _ _ Some False ok k(1) sq] 3 by simp
          then show ?thesis unfolding eq pc using 3 Some tree_snoc [OF ok lv] q False k(2) by auto
        qed
      qed
    qed
  qed
qed

lemma resolve_refines:
  assumes "fs_ok s" "short p"
  shows "map_option (path_of (f_nodes s)) (resolve s p) = spec_resolve (tree (f_nodes s)) (cwd_path s) p"
    and "resolve s p = Some k \<Longrightarrow> live (f_nodes s) k"
proof -
  have ok: "table_ok (f_nodes s)" "live (f_nodes s) (f_cwd s)" using assms(1) by (auto simp: fs_ok_def)
  let ?cur = "if is_abs p then 0 else f_cwd s"
  have l: "live (f_nodes s) ?cur" using ok root_ok by simp
  have start: "path_of (f_nodes s) ?cur = (if is_abs p then [] else cwd_path s)" by (simp add: cwd_path_def)
  have dot: "resolve_loop (f_nodes s) c [46] = Some c" for c
    by (simp add: resolve_loop.simps skip_slash_def next_part_def NAME_MAX_def)
  have "resolve s p = resolve_loop (f_nodes s) ?cur p"
    by (cases p) (auto simp: resolve_def is_abs_def Let_def dot resolve_loop.simps [of _ _ "[]"] skip_slash_def)
  then show "map_option (path_of (f_nodes s)) (resolve s p) = spec_resolve (tree (f_nodes s)) (cwd_path s) p"
    and "resolve s p = Some k \<Longrightarrow> live (f_nodes s) k"
    using resolve_loop_refines [OF ok(1) l assms(2)] start unfolding spec_resolve_def by auto
qed

subsection \<open>The parent directory and the leaf\<close>

lemma last_slash_snoc:
  "last_slash (xs @ [x]) = (if x = slash then Some (length xs) else last_slash xs)"
proof -
  have "fold (\<lambda>i l. if (xs @ [x]) ! i = slash then Some i else l) [0..<length xs] None = last_slash xs"
    unfolding last_slash_def by (rule fold_cong) (auto simp: nth_append)
  then show ?thesis by (simp add: last_slash_def [of "xs @ [x]"])
qed

lemma last_slash_None: "last_slash arg = None \<longleftrightarrow> slash \<notin> set arg"
  by (induction arg rule: rev_induct) (auto simp: last_slash_snoc, simp_all add: last_slash_def)

lemma last_slash_Some:
  "last_slash arg = Some i \<Longrightarrow> arg = take i arg @ slash # drop (i + 1) arg \<and> slash \<notin> set (drop (i + 1) arg)"
proof (induction arg rule: rev_induct)
  case Nil
  then show ?case by (simp add: last_slash_def)
next
  case (snoc x xs)
  show ?case
  proof (cases "x = slash")
    case True
    then show ?thesis using snoc.prems by (simp add: last_slash_snoc)
  next
    case False
    then have *: "xs = take i xs @ slash # drop (i + 1) xs \<and> slash \<notin> set (drop (i + 1) xs)"
      using snoc by (simp add: last_slash_snoc)
    then have "i < length xs" by (metis append_take_drop_id drop_all leI list.discI self_append_conv)
    then show ?thesis using * False by auto
  qed
qed

lemma skip_slash_id: "slash \<notin> set x \<Longrightarrow> skip_slash x = x"
  by (cases x) (auto simp: skip_slash_def)

lemma parts_no_slash: "slash \<notin> set x \<Longrightarrow> parts x = (if x = [] then [] else [x])"
proof -
  assume "slash \<notin> set x"
  then have "skip_slash x = x" "takeWhile (\<lambda>c. c \<noteq> slash) x = x" "dropWhile (\<lambda>c. c \<noteq> slash) x = []"
    by (cases x; auto simp: skip_slash_def)+
  then show ?thesis by (subst parts.simps) (simp only: Let_def parts_Nil if_cancel split: if_splits)
qed

lemma parts_slash: "parts (slash # ys) = parts ys"
  using parts_skip [of "slash # ys"] parts_skip [of ys] by (simp add: skip_slash_def)

lemma parts_append_slash: "parts (xs @ slash # ys) = parts xs @ parts ys"
proof (induction xs rule: parts.induct)
  case (1 xs)
  let ?s = "skip_slash xs"
  show ?case
  proof (cases "?s = []")
    case True
    then have "skip_slash (xs @ slash # ys) = skip_slash ys"
      by (simp add: skip_slash_def dropWhile_append)
    then have "parts (xs @ slash # ys) = parts ys" by (metis parts_skip)
    then show ?thesis using True by (simp add: parts_eq_Nil [THEN iffD2])
  next
    case False
    have sk: "skip_slash (xs @ slash # ys) = ?s @ slash # ys"
      using False unfolding skip_slash_def dropWhile_append dropWhile_eq_Nil_conv by (rule if_not_P)
    let ?D = "dropWhile (\<lambda>c. c \<noteq> slash)" and ?T = "takeWhile (\<lambda>c. c \<noteq> slash)"
    have T: "?T (?s @ slash # ys) = ?T ?s"
    proof (cases "\<forall>x \<in> set ?s. x \<noteq> slash")
      case True
      then have "?T ?s = ?s" by (subst takeWhile_eq_all_conv) simp
      moreover have "?T (?s @ slash # ys) = ?s @ ?T (slash # ys)"
        using True by (intro takeWhile_append2) auto
      ultimately show ?thesis by (simp only: takeWhile.simps append_Nil2 simp_thms if_False)
    next
      case False
      then obtain x where "x \<in> set ?s" "x = slash" by blast
      then show ?thesis by (intro takeWhile_append1) auto
    qed
    have D: "?D (?s @ slash # ys) = ?D ?s @ slash # ys"
      by (simp add: dropWhile_append)
    have "parts (xs @ slash # ys) = ?T ?s # parts (?D ?s @ slash # ys)"
      using False by (subst parts.simps) (simp add: sk T D Let_def)
    also have "\<dots> = ?T ?s # parts (?D ?s) @ parts ys" using "1.IH" [OF refl False] by simp
    also have "\<dots> = parts xs @ parts ys" using False by (subst (3) parts.simps) (simp add: Let_def)
    finally show ?thesis .
  qed
qed

text \<open>Paths to which the fixed buffers do no harm, and that name an entry (no trailing slash).\<close>

definition plain :: "cstr \<Rightarrow> bool" where
  "plain p \<longleftrightarrow> p \<noteq> [] \<and> last p \<noteq> slash \<and> short p \<and> (case last_slash p of None \<Rightarrow> True | Some i \<Rightarrow> i \<le> 127)"

definition spec_parent :: "(cstr list \<Rightarrow> entry option) \<Rightarrow> cstr list \<Rightarrow> cstr \<Rightarrow> cstr list option" where
  "spec_parent t cwd p =
     (case go t (if is_abs p then [] else cwd) (butlast (parts p)) of
        None \<Rightarrow> None | Some d \<Rightarrow> if t d = Some ADir then Some d else None)"

lemma plain_parts:
  assumes "plain p"
  shows "parts p \<noteq> []" "slash \<notin> set (last (parts p))" "last (parts p) \<noteq> []" "length (last (parts p)) \<le> 31"
proof -
  have *: "parts p \<noteq> [] \<and> slash \<notin> set (last (parts p)) \<and> last (parts p) \<noteq> []"
  proof (cases "last_slash p")
    case None
    then show ?thesis using assms by (simp add: last_slash_None parts_no_slash plain_def)
  next
    case (Some i)
    note l = last_slash_Some [OF Some]
    have "drop (i + 1) p \<noteq> []" using l assms unfolding plain_def by (metis last_snoc)
    then have "parts p = parts (take i p) @ [drop (i + 1) p]"
      using l parts_append_slash [of "take i p" "drop (i + 1) p"] parts_no_slash by simp
    then show ?thesis using l \<open>drop (i + 1) p \<noteq> []\<close> by simp
  qed
  then show "parts p \<noteq> []" "slash \<notin> set (last (parts p))" "last (parts p) \<noteq> []" by blast+
  then show "length (last (parts p)) \<le> 31" using assms by (auto simp: plain_def)
qed

lemma next_part_id: "slash \<notin> set x \<Longrightarrow> length x \<le> 31 \<Longrightarrow> next_part x = x"
proof -
  assume x: "slash \<notin> set x" "length x \<le> 31"
  then have "skip_slash x = x" by (cases x) (auto simp: skip_slash_def)
  moreover have "takeWhile (\<lambda>c. c \<noteq> slash) x = x" using x by (subst takeWhile_eq_all_conv) auto
  ultimately show ?thesis using x(2) unfolding next_part_def NAME_MAX_def by (simp only:) simp
qed

lemma next_part_props: "length (next_part x) \<le> 31" "slash \<notin> set (next_part x)"
  by (auto simp: next_part_def NAME_MAX_def dest!: in_set_takeD set_takeWhileD)

lemma resolve_dir_refines:
  assumes "fs_ok s" "short p"
  shows "map_option (path_of (f_nodes s)) (resolve_dir s p) =
     (case spec_resolve (tree (f_nodes s)) (cwd_path s) p of None \<Rightarrow> None
      | Some d \<Rightarrow> if tree (f_nodes s) d = Some ADir then Some d else None)"
proof -
  have ok: "table_ok (f_nodes s)" using assms(1) by (simp add: fs_ok_def)
  note r = resolve_refines [OF assms]
  show ?thesis
    using r(1) [symmetric] r(2) tree_path_of [OF ok]
    by (auto simp: resolve_dir_def split: option.splits)
qed

lemma split_parent_refines:
  assumes ok: "fs_ok s" and p: "plain p"
  shows "map_option (map_prod (path_of (f_nodes s)) id) (split_parent s p) =
     map_option (\<lambda>d. (d, last (parts p))) (spec_parent (tree (f_nodes s)) (cwd_path s) p)"
proof (cases "last_slash p")
  case None
  then have ns: "slash \<notin> set p" "p \<noteq> []" using p by (auto simp: last_slash_None plain_def)
  then have "\<not> is_abs p" "parts p = [p]" by (auto simp: is_abs_def parts_no_slash split: list.splits)
  moreover have "tree (f_nodes s) (cwd_path s) = Some ADir"
    using ok by (simp add: cwd_path_def fs_ok_def tree_path_of)
  moreover have "next_part p = p" using plain_parts [OF p] calculation ns next_part_id by simp
  ultimately show ?thesis by (simp add: split_parent_def None spec_parent_def cwd_path_def)
next
  case (Some i)
  note l = last_slash_Some [OF Some]
  have i: "i \<le> 127" using p Some by (simp add: plain_def)
  have ne: "drop (i + 1) p \<noteq> []" using l p unfolding plain_def by (metis last_snoc)
  have pp: "parts p = parts (take i p) @ [drop (i + 1) p]"
    using l parts_append_slash [of "take i p" "drop (i + 1) p"] parts_no_slash ne by simp
  let ?b = "if take i p \<noteq> [] then take i p else [slash]"
  have b: "parts ?b = parts (take i p)" "is_abs ?b = is_abs p"
  proof -
    show "parts ?b = parts (take i p)" using parts_slash [of "[]"] by simp
    show "is_abs ?b = is_abs p"
      by (subst (2) conjunct1 [OF l]) (auto simp: is_abs_def split: list.splits)
  qed
  have sb: "short ?b" using p pp b by (auto simp: plain_def)
  have nl: "next_part (drop (i + 1) p) = last (parts p)"
    using next_part_id l plain_parts(4) [OF p] pp by simp
  have sp: "split_parent s p = map_option (\<lambda>d. (d, last (parts p))) (resolve_dir s ?b)"
  proof -
    have "take 127 (take i p) = take i p" using i by simp
    moreover have "(case x of None \<Rightarrow> None | Some d \<Rightarrow> Some (d, y)) = map_option (\<lambda>d. (d, y)) x"
      for x :: "nat option" and y :: cstr by (cases x) auto
    ultimately show ?thesis unfolding split_parent_def Some Let_def nl option.case by (simp only:)
  qed
  have "map_option (path_of (f_nodes s)) (resolve_dir s ?b) = spec_parent (tree (f_nodes s)) (cwd_path s) p"
    unfolding resolve_dir_refines [OF ok sb] spec_parent_def spec_resolve_def b pp by simp
  moreover have "map_option (map_prod f id) (map_option (\<lambda>d. (d, y)) x) = map_option (\<lambda>d. (d, y)) (map_option f x)"
    for f :: "nat \<Rightarrow> cstr list" and x and y :: cstr by (cases x) auto
  ultimately show ?thesis unfolding sp by (simp only:)
qed

section \<open>The operations keep the invariant\<close>

lemma resolve_loop_live:
  "table_ok ns \<Longrightarrow> live ns cur \<Longrightarrow> resolve_loop ns cur p = Some k \<Longrightarrow> live ns k"
proof (induction ns cur p rule: resolve_loop.induct)
  case (1 ns cur p)
  show ?case
  proof (cases "skip_slash p = []")
    case True
    then show ?thesis using "1.prems" by (simp add: resolve_loop.simps)
  next
    case False
    let ?x = "next_part (skip_slash p)"
    let ?q = "skip_slash (drop (length ?x) (skip_slash p))"
    let ?up = "if n_parent (ns ! cur) \<ge> 0 then nat (n_parent (ns ! cur)) else cur"
    note IH = "1.IH" [OF refl False refl refl] and ok = "1.prems"(1)
    have r: "(if ?x = dot then resolve_loop ns cur ?q
        else if ?x = dotdot then resolve_loop ns ?up ?q
        else (case find_kid ns cur ?x of None \<Rightarrow> None
          | Some j \<Rightarrow> if ?q \<noteq> [] \<and> \<not> n_dir (ns ! j) then None else resolve_loop ns j ?q)) = Some k"
      using "1.prems"(3) unfolding resolve_loop_step [OF False] .
    consider "?x = dot" | "?x \<noteq> dot" "?x = dotdot" | "?x \<noteq> dot" "?x \<noteq> dotdot" by blast
    then show ?thesis
    proof cases
      case 1
      then show ?thesis using IH(1) [OF _ ok "1.prems"(2)] r by simp
    next
      case 2
      then have "resolve_loop ns ?up ?q = Some k" using r by simp
      then show ?thesis using IH(2) [OF _ _ ok path_of_parent(2) [OF ok "1.prems"(2)]] 2 by simp
    next
      case 3
      then obtain j where j: "find_kid ns cur ?x = Some j" "\<not> (?q \<noteq> [] \<and> \<not> n_dir (ns ! j))"
        "resolve_loop ns j ?q = Some k" using r by (auto split: option.splits if_splits)
      then have "live ns j" using kid_props(1) [OF ok find_kid_is_kid] by blast
      then show ?thesis using IH(3) [OF _ _ j(1,2) ok _ j(3)] 3 by simp
    qed
  qed
qed

lemma resolve_live:
  assumes "fs_ok s" "resolve s p = Some k"
  shows "live (f_nodes s) k"
proof -
  have ok: "table_ok (f_nodes s)" "live (f_nodes s) (f_cwd s)" using assms(1) by (auto simp: fs_ok_def)
  obtain cur where cur: "live (f_nodes s) cur"
    and "Some k = Some cur \<or> resolve_loop (f_nodes s) cur p = Some k"
    using assms(2) ok(2) root_ok(1) [OF ok(1)]
    by (cases p) (auto simp: resolve_def Let_def split: if_splits)
  then show ?thesis using resolve_loop_live [OF ok(1) cur] by auto
qed

lemma resolve_dir_live:
  "fs_ok s \<Longrightarrow> resolve_dir s p = Some k \<Longrightarrow> live (f_nodes s) k \<and> n_dir (f_nodes s ! k)"
  by (auto simp: resolve_dir_def resolve_live split: option.splits if_splits)

lemma split_parent_ok:
  assumes "fs_ok s" "split_parent s p = Some (d, x)"
  shows "live (f_nodes s) d" "n_dir (f_nodes s ! d)" "length x \<le> 31" "slash \<notin> set x"
proof -
  have "live (f_nodes s) d \<and> n_dir (f_nodes s ! d)"
    using assms resolve_dir_live [OF assms(1)]
    by (auto simp: split_parent_def fs_ok_def Let_def split: option.splits)
  then show "live (f_nodes s) d" "n_dir (f_nodes s ! d)" by auto
  show "length x \<le> 31" "slash \<notin> set x"
    using assms next_part_props by (auto simp: split_parent_def Let_def split: option.splits)
qed

lemma split_good: "fs_ok s \<Longrightarrow> split_parent s p = Some (d, x) \<Longrightarrow> \<not> bad_leaf x \<Longrightarrow> good_name x"
  using split_parent_ok by (simp add: good_name_def)

lemma cwd_still:
  assumes "fs_ok s" "table_ok ns" "\<And>i. live (f_nodes s) i \<Longrightarrow> live ns i \<and> n_dir (ns ! i) = n_dir (f_nodes s ! i)"
  shows "fs_ok (s\<lparr>f_nodes := ns\<rparr>)"
  using assms by (simp add: fs_ok_def)

lemma add_live:
  assumes "free_slot ns = Some fr" "length ns = FS_MAX" "n_used n" "live ns i"
  shows "live (ns[fr := n]) i \<and> n_dir (ns[fr := n] ! i) = n_dir (ns ! i)"
proof -
  have "i \<noteq> fr" using free_slot_Some [OF assms(1)] assms(4) by (auto simp: live_def)
  then show ?thesis using assms(4) by (simp add: live_def)
qed

lemma ram_mkdir_ok [inv_intros]:
  assumes "fs_ok s"
  shows "fs_ok (snd (ram_mkdir s arg))"
proof -
  have t: "table_ok (f_nodes s)" using assms by (simp add: fs_ok_def)
  { fix pdir leaf fr
    let ?n = "(f_nodes s ! fr)\<lparr>n_name := name_cp leaf, n_parent := int pdir, n_dir := True,
      n_used := True, n_mode := 493, n_len := 0\<rparr>"
    assume a: "split_parent s arg = Some (pdir, leaf)" "\<not> bad_leaf leaf"
      "find_kid (f_nodes s) pdir leaf = None" "free_slot (f_nodes s) = Some fr"
    note sp = split_parent_ok [OF assms a(1)] and g = split_good [OF assms a(1,2)]
    have "table_ok ((f_nodes s)[fr := ?n])"
      using t sp a g free_slot_Some [OF a(4)] table_okD(6) [OF t]
      by (intro add_node_ok [where pdir = pdir]) (auto simp: good_name_take)
    then have "fs_ok (s\<lparr>f_nodes := (f_nodes s)[fr := ?n]\<rparr>)"
      using add_live [OF a(4) table_okD(1) [OF t], of ?n] by (intro cwd_still [OF assms]) auto }
  then show ?thesis using assms by (auto simp: ram_mkdir_def split: option.splits)
qed

lemma put_data_live:
  assumes "live ns k" "length ns = FS_MAX"
  shows "live (ns[k := put_data (ns ! k) buf]) i = live ns i"
    "n_dir (ns[k := put_data (ns ! k) buf] ! i) = n_dir (ns ! i)"
  using assms by (cases "i = k"; simp add: live_def put_data_def)+

lemma ram_fwrite_ok [inv_intros]:
  assumes "fs_ok s"
  shows "fs_ok (snd (ram_fwrite s path buf))"
proof -
  have t: "table_ok (f_nodes s)" using assms by (simp add: fs_ok_def)
  { fix pdir leaf fr
    let ?n = "put_data ((f_nodes s ! fr)\<lparr>n_name := name_cp leaf, n_parent := int pdir, n_dir := False,
      n_used := True, n_mode := 420\<rparr>) buf"
    assume a: "split_parent s path = Some (pdir, leaf)" "\<not> bad_leaf leaf"
      "find_kid (f_nodes s) pdir leaf = None" "free_slot (f_nodes s) = Some fr" "length buf \<le> FILE_MAX"
    note sp = split_parent_ok [OF assms a(1)] and g = split_good [OF assms a(1,2)]
    have "table_ok ((f_nodes s)[fr := ?n])"
      using t sp a g free_slot_Some [OF a(4)] table_okD(6) [OF t]
      by (intro add_node_ok [where pdir = pdir]) (auto simp: good_name_take put_data_def)
    then have "fs_ok (s\<lparr>f_nodes := (f_nodes s)[fr := ?n]\<rparr>)"
      using add_live [OF a(4) table_okD(1) [OF t], of ?n]
      by (intro cwd_still [OF assms]) (auto simp: put_data_def) }
  moreover
  { fix pdir leaf k
    assume a: "find_kid (f_nodes s) pdir leaf = Some k" "\<not> n_dir (f_nodes s ! k)" "length buf \<le> FILE_MAX"
    have k: "live (f_nodes s) k" using find_kid_is_kid [OF a(1)] by (simp add: is_kid_def)
    have "fs_ok (s\<lparr>f_nodes := (f_nodes s)[k := put_data (f_nodes s ! k) buf]\<rparr>)"
      using put_data_ok [OF t k a(2,3)] put_data_live [OF k table_okD(1) [OF t]]
      by (intro cwd_still [OF assms]) auto }
  ultimately show ?thesis using assms by (auto simp: ram_fwrite_def split: option.splits)
qed

lemma ram_chdir_ok [inv_intros]:
  assumes "fs_ok s"
  shows "fs_ok (snd (ram_chdir s path))"
proof -
  have t: "table_ok (f_nodes s)" using assms by (simp add: fs_ok_def)
  have "fs_ok (s\<lparr>f_cwd := d\<rparr>)" if "live (f_nodes s) d" "n_dir (f_nodes s ! d)" for d
    using t that by (simp add: fs_ok_def)
  then show ?thesis
    using resolve_dir_live [OF assms, of path] root_ok(1,4) [OF t] assms
    by (auto simp: ram_chdir_def split: option.split)
qed

lemma fs_init_ok:
  assumes "length (f_nodes s) = FS_MAX" "\<And>n. n \<in> set (f_nodes s) \<Longrightarrow> length (n_data n) = FILE_MAX"
  shows "fs_ok (fs_init s)"
proof -
  have at: "f_nodes (fs_init s) ! i =
      (if i = 0 then (f_nodes s ! 0)\<lparr>n_name := [], n_parent := -1, n_dir := True, n_used := True, n_mode := 493\<rparr>
       else (f_nodes s ! i)\<lparr>n_used := False\<rparr>)" if "i < FS_MAX" for i
    using assms(1) that by (simp add: fs_init_def Let_def nth_list_update)
  have 0: "0 < FS_MAX" by (simp add: FS_MAX_def)
  have len: "length (f_nodes (fs_init s)) = FS_MAX" using assms(1) by (simp add: fs_init_def Let_def)
  have d: "length (n_data (f_nodes s ! i)) = FILE_MAX" if "i < FS_MAX" for i
    using assms nth_mem that by auto
  have cwd: "f_cwd (fs_init s) = 0" by (simp add: fs_init_def Let_def)
  have used: "n_used (f_nodes (fs_init s) ! i) \<longleftrightarrow> i = 0" if "i < FS_MAX" for i by (simp add: at [OF that])
  have "length (n_data (f_nodes (fs_init s) ! i)) = FILE_MAX" if "i < FS_MAX" for i
    unfolding at [OF that] using d [OF that] by (cases "i = 0") simp_all
  with 0 len used show ?thesis
    unfolding fs_ok_def table_ok_def node_ok_def live_def cwd
    by (intro conjI allI impI) (simp_all add: at [OF 0])
qed

section \<open>The operations refine the tree\<close>

text \<open>The abstract state of the file system: the tree and the path of the current directory.\<close>

definition afs :: "ramfs \<Rightarrow> (cstr list \<Rightarrow> entry option) \<times> cstr list" where
  "afs s = (tree (f_nodes s), cwd_path s)"

lemma cwd_stack_cong:
  assumes "table_ok ns" "live ns k"
    and "\<And>i. live ns i \<Longrightarrow> n_parent (ns' ! i) = n_parent (ns ! i) \<and> n_name (ns' ! i) = n_name (ns ! i)"
  shows "cwd_stack ns' k n = cwd_stack ns k n \<and> (\<forall>i \<in> set (cwd_stack ns k n). live ns i)"
  using assms(2)
proof (induction n arbitrary: k)
  case (Suc n)
  show ?case
  proof (cases "k = 0")
    case False
    obtain p where "p < k" "n_parent (ns ! k) = int p" "live ns p" "n_dir (ns ! p)"
      "good_name (n_name (ns ! k))" by (rule parent_ok [OF assms(1) Suc.prems False])
    then show ?thesis using Suc.IH [of p] assms(3) [OF Suc.prems] Suc.prems False by simp
  qed simp
qed simp

lemma path_of_cong:
  assumes "table_ok ns" "live ns k"
    and "\<And>i. live ns i \<Longrightarrow> n_parent (ns' ! i) = n_parent (ns ! i) \<and> n_name (ns' ! i) = n_name (ns ! i)"
  shows "path_of ns' k = path_of ns k"
  using cwd_stack_cong [OF assms] assms(3) unfolding path_of_def by auto

lemma cwd_path_add:
  assumes "fs_ok s" "free_slot (f_nodes s) = Some fr"
  shows "cwd_path (s\<lparr>f_nodes := (f_nodes s)[fr := n]\<rparr>) = cwd_path s"
proof -
  have "i \<noteq> fr" if "live (f_nodes s) i" for i
    using free_slot_Some [OF assms(2)] that by (auto simp: live_def)
  then have "n_parent ((f_nodes s)[fr := n] ! i) = n_parent (f_nodes s ! i)
      \<and> n_name ((f_nodes s)[fr := n] ! i) = n_name (f_nodes s ! i)" if "live (f_nodes s) i" for i
    using \<open>\<And>i. live (f_nodes s) i \<Longrightarrow> i \<noteq> fr\<close> [OF that] by simp
  then show ?thesis
    using assms(1) path_of_cong unfolding cwd_path_def fs_ok_def by simp
qed

lemma cwd_path_put:
  assumes "fs_ok s" "live (f_nodes s) k"
  shows "cwd_path (s\<lparr>f_nodes := (f_nodes s)[k := put_data (f_nodes s ! k) buf]\<rparr>) = cwd_path s"
proof -
  let ?ns = "f_nodes s"
  have "k < length ?ns" using assms table_okD(1) by (auto simp: fs_ok_def live_def)
  then have "n_parent (?ns[k := put_data (?ns ! k) buf] ! i) = n_parent (?ns ! i)
      \<and> n_name (?ns[k := put_data (?ns ! k) buf] ! i) = n_name (?ns ! i)" for i
    by (cases "i = k") (simp_all add: put_data_def)
  then show ?thesis using assms(1) unfolding cwd_path_def fs_ok_def by (simp add: path_of_cong)
qed

text \<open>How \<open>split_parent\<close> came out, in terms of the tree.\<close>

lemma split_parent_cases:
  assumes "fs_ok s" "plain p"
  obtains (fail) "split_parent s p = None" "spec_parent (tree (f_nodes s)) (cwd_path s) p = None"
  | (found) d where "split_parent s p = Some (d, last (parts p))"
      "spec_parent (tree (f_nodes s)) (cwd_path s) p = Some (path_of (f_nodes s) d)"
      "live (f_nodes s) d" "n_dir (f_nodes s ! d)"
      "\<not> bad_leaf (last (parts p)) \<Longrightarrow> good_name (last (parts p))"
proof (cases "split_parent s p")
  case None
  then show ?thesis using fail split_parent_refines [OF assms] by simp
next
  case (Some a)
  obtain d x where a: "a = (d, x)" by (cases a)
  then have "x = last (parts p)" "spec_parent (tree (f_nodes s)) (cwd_path s) p = Some (path_of (f_nodes s) d)"
    using split_parent_refines [OF assms] Some by (auto simp: map_option_eq_Some dest: sym)
  then show ?thesis
    using found Some a split_parent_ok(1,2) [OF assms(1)] split_good [OF assms(1)] by metis
qed

lemma bad_leaf_plain: "plain p \<Longrightarrow> bad_leaf (last (parts p)) \<longleftrightarrow> last (parts p) \<in> {dot, dotdot}"
  using plain_parts(3) by (auto simp: bad_leaf_def)

text \<open>
  What creating an entry (a directory or a file) does in the tree: the outcome for a path with
  the parent's failure, a reserved name and a full table.
\<close>

lemma mkdir_spec:
  assumes "fs_ok s" "plain p"
  shows "case spec_parent (tree (f_nodes s)) (cwd_path s) p of
      None \<Rightarrow> ram_mkdir s p = (FS_BADPATH, s)
    | Some d \<Rightarrow>
        if last (parts p) \<in> {dot, dotdot} then ram_mkdir s p = (FS_BADNAME, s)
        else if tree (f_nodes s) (d @ [last (parts p)]) \<noteq> None then ram_mkdir s p = (FS_EXISTS, s)
        else if free_slot (f_nodes s) = None then ram_mkdir s p = (FS_FULL, s)
        else \<exists>s'. ram_mkdir s p = (FS_OK, s') \<and>
          afs s' = ((tree (f_nodes s))(d @ [last (parts p)] \<mapsto> ADir), cwd_path s)"
  using assms
proof (cases rule: split_parent_cases)
  case fail
  then show ?thesis using assms by (auto simp: ram_mkdir_def plain_def)
next
  case (found d)
  have t: "table_ok (f_nodes s)" using assms by (simp add: fs_ok_def)
  let ?x = "last (parts p)"
  have ne: "p \<noteq> []" using assms by (simp add: plain_def)
  have ts: "tree (f_nodes s) (path_of (f_nodes s) d @ [?x]) \<noteq> None \<longleftrightarrow> find_kid (f_nodes s) d ?x \<noteq> None"
    by (simp add: tree_snoc [OF t found(3)])
  have ok: "afs (snd (ram_mkdir s p)) =
      ((tree (f_nodes s))(path_of (f_nodes s) d @ [?x] \<mapsto> ADir), cwd_path s) \<and> fst (ram_mkdir s p) = FS_OK"
    if b: "\<not> bad_leaf ?x" and k: "find_kid (f_nodes s) d ?x = None" and f: "free_slot (f_nodes s) = Some fr" for fr
  proof -
    let ?n = "(f_nodes s ! fr)\<lparr>n_name := ?x, n_parent := int d, n_dir := True,
      n_used := True, n_mode := 493, n_len := 0\<rparr>"
    have "ram_mkdir s p = (FS_OK, s\<lparr>f_nodes := (f_nodes s)[fr := ?n]\<rparr>)"
      using ne found b k f by (simp add: ram_mkdir_def good_name_take)
    then show ?thesis
      using tree_add_node [OF t f found(3), of ?n] k cwd_path_add [OF assms(1) f]
      by (simp add: afs_def content_def)
  qed
  show ?thesis
    using found(1,2) ne ts ok bad_leaf_plain [OF assms(2)]
    by (cases "free_slot (f_nodes s)"; cases "ram_mkdir s p") (simp_all add: ram_mkdir_def split: if_splits)
qed

lemma fwrite_spec:
  assumes "fs_ok s" "plain p" "length buf \<le> FILE_MAX"
  shows "case spec_parent (tree (f_nodes s)) (cwd_path s) p of
      None \<Rightarrow> ram_fwrite s p buf = (FS_BADPATH, s)
    | Some d \<Rightarrow>
        if last (parts p) \<in> {dot, dotdot} then ram_fwrite s p buf = (FS_BADNAME, s)
        else if tree (f_nodes s) (d @ [last (parts p)]) = Some ADir then ram_fwrite s p buf = (FS_BADPATH, s)
        else if tree (f_nodes s) (d @ [last (parts p)]) = None \<and> free_slot (f_nodes s) = None
          then ram_fwrite s p buf = (FS_FULL, s)
        else \<exists>s'. ram_fwrite s p buf = (FS_OK, s') \<and>
          afs s' = ((tree (f_nodes s))(d @ [last (parts p)] \<mapsto> AFile buf), cwd_path s)"
  using assms(1,2)
proof (cases rule: split_parent_cases)
  case fail
  then show ?thesis using assms by (auto simp: ram_fwrite_def plain_def)
next
  case (found d)
  have t: "table_ok (f_nodes s)" using assms by (simp add: fs_ok_def)
  let ?x = "last (parts p)"
  have ne: "p \<noteq> []" using assms by (simp add: plain_def)
  note ts = tree_snoc [OF t found(3), of ?x]
  have new: "afs (snd (ram_fwrite s p buf)) =
      ((tree (f_nodes s))(path_of (f_nodes s) d @ [?x] \<mapsto> AFile buf), cwd_path s) \<and> fst (ram_fwrite s p buf) = FS_OK"
    if b: "\<not> bad_leaf ?x" and k: "find_kid (f_nodes s) d ?x = None" and f: "free_slot (f_nodes s) = Some fr" for fr
  proof -
    let ?n = "put_data ((f_nodes s ! fr)\<lparr>n_name := ?x, n_parent := int d, n_dir := False,
      n_used := True, n_mode := 420\<rparr>) buf"
    have "ram_fwrite s p buf = (FS_OK, s\<lparr>f_nodes := (f_nodes s)[fr := ?n]\<rparr>)"
      using ne found b k f assms(3) by (simp add: ram_fwrite_def good_name_take)
    then show ?thesis
      using tree_add_node [OF t f found(3), of ?n] k cwd_path_add [OF assms(1) f]
      by (simp add: afs_def content_def put_data_def)
  qed
  have old: "afs (snd (ram_fwrite s p buf)) =
      ((tree (f_nodes s))(path_of (f_nodes s) d @ [?x] \<mapsto> AFile buf), cwd_path s) \<and> fst (ram_fwrite s p buf) = FS_OK"
    if b: "\<not> bad_leaf ?x" and k: "find_kid (f_nodes s) d ?x = Some k" and f: "\<not> n_dir (f_nodes s ! k)" for k
  proof -
    have kid: "is_kid (f_nodes s) d ?x k" using k by (rule find_kid_is_kid)
    have "ram_fwrite s p buf = (FS_OK, s\<lparr>f_nodes := (f_nodes s)[k := put_data (f_nodes s ! k) buf]\<rparr>)"
      using ne found b k f assms(3) by (simp add: ram_fwrite_def)
    then show ?thesis
      using tree_put_data [OF t kid_props(1) [OF t kid] f] path_of_kid [OF t kid]
        cwd_path_put [OF assms(1) kid_props(1) [OF t kid]]
      by (simp add: afs_def)
  qed
  show ?thesis
    using found(1,2) ne assms(3) ts new old bad_leaf_plain [OF assms(2)]
    by (cases "find_kid (f_nodes s) d ?x"; cases "free_slot (f_nodes s)"; cases "ram_fwrite s p buf")
       (simp_all add: ram_fwrite_def split: if_splits)
qed

lemma fread_spec:
  assumes "fs_ok s" "short p"
  shows "fs_fread_ram s p cap =
     (case spec_resolve (tree (f_nodes s)) (cwd_path s) p of None \<Rightarrow> (-1, [])
      | Some q \<Rightarrow> (case tree (f_nodes s) q of
          Some (AFile buf) \<Rightarrow> (int (min (length buf) cap), take cap buf)
        | _ \<Rightarrow> (-1, [])))"
proof (cases "resolve s p")
  case None
  then show ?thesis using resolve_refines(1) [OF assms] by (simp add: fs_fread_ram_def)
next
  case (Some k)
  have t: "table_ok (f_nodes s)" using assms by (simp add: fs_ok_def)
  have k: "live (f_nodes s) k" using resolve_refines(2) [OF assms Some] .
  have q: "spec_resolve (tree (f_nodes s)) (cwd_path s) p = Some (path_of (f_nodes s) k)"
    using resolve_refines(1) [OF assms] Some by simp
  have l: "\<not> n_dir (f_nodes s ! k) \<Longrightarrow> n_len (f_nodes s ! k) \<le> length (n_data (f_nodes s ! k))"
    using table_okD(6,7) [OF t, of k] k by (auto simp: live_def)
  show ?thesis
    unfolding q fs_fread_ram_def Some option.case tree_path_of [OF t k]
    using l by (cases "n_dir (f_nodes s ! k)") (simp_all add: content_def Let_def min.absorb2 min.commute)
qed

lemma chdir_spec:
  assumes "fs_ok s" "short p"
  shows "let (r, s') = ram_chdir s p in f_nodes s' = f_nodes s \<and>
     (if p = [] then r = FS_OK \<and> cwd_path s' = []
      else (case spec_resolve (tree (f_nodes s)) (cwd_path s) p of
          None \<Rightarrow> r = FS_BADPATH \<and> s' = s
        | Some d \<Rightarrow> if tree (f_nodes s) d = Some ADir then r = FS_OK \<and> cwd_path s' = d
                    else r = FS_BADPATH \<and> s' = s))"
  using resolve_dir_refines [OF assms]
  by (cases "resolve_dir s p")
     (auto simp: ram_chdir_def Let_def cwd_path_def split: option.splits if_splits)

lemma go_dir_step:
  assumes "go t cur (x # xs) = Some d" "t d = Some ADir" "x \<noteq> dot" "x \<noteq> dotdot"
  shows "t (cur @ [x]) = Some ADir \<and> go t (cur @ [x]) xs = Some d"
  using assms by (cases xs) (auto split: option.splits if_splits)

lemma go_snoc:
  assumes "go t cur xs = Some d" "t d = Some ADir" "y \<noteq> dot" "y \<noteq> dotdot"
  shows "go t cur (xs @ [y]) = (if t (d @ [y]) = None then None else Some (d @ [y]))"
  using assms(1)
proof (induction xs arbitrary: cur)
  case Nil
  then show ?case using assms(3,4) by (auto split: option.splits)
next
  case (Cons x xs)
  show ?case
  proof (cases "x = dot \<or> x = dotdot")
    case True
    then show ?thesis using Cons by auto
  next
    case False
    then show ?thesis using go_dir_step [OF Cons.prems assms(2)] Cons.IH by simp
  qed
qed

lemma go_mono:
  assumes "\<And>a. t a = Some ADir \<Longrightarrow> t' a = Some ADir" "go t cur xs = Some d" "t d = Some ADir"
  shows "go t' cur xs = Some d"
  using assms(2)
proof (induction xs arbitrary: cur)
  case (Cons x xs)
  show ?case
  proof (cases "x = dot \<or> x = dotdot")
    case True
    then show ?thesis using Cons by auto
  next
    case False
    then show ?thesis using go_dir_step [OF Cons.prems assms(3)] Cons.IH assms(1) by simp
  qed
qed simp

lemma spec_resolve_leaf:
  assumes "spec_parent t cwd p = Some d" "plain p" "last (parts p) \<notin> {dot, dotdot}"
    "\<And>a. t a = Some ADir \<Longrightarrow> t' a = Some ADir" "t' (d @ [last (parts p)]) = Some e"
  shows "spec_resolve t' cwd p = Some (d @ [last (parts p)])"
proof -
  have d: "go t (if is_abs p then [] else cwd) (butlast (parts p)) = Some d" "t d = Some ADir"
    using assms(1) by (auto simp: spec_parent_def split: option.splits if_splits)
  have "parts p = butlast (parts p) @ [last (parts p)]" using plain_parts(1) [OF assms(2)] by simp
  moreover have "go t' (if is_abs p then [] else cwd) (butlast (parts p)) = Some d"
    using assms(4) d by (rule go_mono)
  ultimately show ?thesis
    unfolding spec_resolve_def
    using go_snoc [of t' _ "butlast (parts p)" d "last (parts p)"] assms(3-5) d(2) by simp
qed

lemma fs_init_afs:
  assumes "length (f_nodes s) = FS_MAX" "\<And>n. n \<in> set (f_nodes s) \<Longrightarrow> length (n_data n) = FILE_MAX"
  shows "afs (fs_init s) = ([[] \<mapsto> ADir], [])" "free_slot (f_nodes (fs_init s)) = Some 1"
proof -
  let ?ns = "f_nodes (fs_init s)"
  have t: "table_ok ?ns" using fs_init_ok [OF assms] by (simp add: fs_ok_def)
  have u: "n_used (?ns ! i) \<longleftrightarrow> i = 0" if "i < FS_MAX" for i
    using that assms(1) by (cases i) (simp_all add: fs_init_def Let_def)
  have "\<not> is_kid ?ns d x i" for d x i
    using u kid_props(1,6) [OF t] by (metis is_kid_def live_def)
  then have fk: "find_kid ?ns d x = None" for d x by (simp add: find_kid_None)
  have "walk_path ?ns 0 p = (if p = [] then Some 0 else None)" for p by (cases p) (simp_all add: fk)
  moreover have "f_cwd (fs_init s) = 0" by (simp add: fs_init_def Let_def)
  ultimately show "afs (fs_init s) = ([[] \<mapsto> ADir], [])"
    using root_ok(4) [OF t] by (auto simp: afs_def tree_def cwd_path_def)
  show "free_slot ?ns = Some 1"
    unfolding free_slot_def find_Some_iff using u
    by (intro exI [of _ 1]) (auto simp: FS_MAX_def)
qed

text \<open>The state after \<open>fs_init\<close> on the zeroed static table.\<close>

definition node0 :: node where
  "node0 = \<lparr>n_name = [], n_parent = 0, n_dir = False, n_used = False, n_mode = 0,
     n_data = replicate FILE_MAX 0, n_len = 0\<rparr>"

definition ram_boot :: ramfs where
  "ram_boot = fs_init \<lparr>f_nodes = replicate FS_MAX node0, f_cwd = 0\<rparr>"

lemma ram_boot:
  "fs_ok ram_boot" "tree (f_nodes ram_boot) = [[] \<mapsto> ADir]" "cwd_path ram_boot = []"
  "free_slot (f_nodes ram_boot) = Some 1"
proof -
  let ?s = "\<lparr>f_nodes = replicate FS_MAX node0, f_cwd = 0\<rparr>"
  have *: "length (f_nodes ?s) = FS_MAX" "\<And>n. n \<in> set (f_nodes ?s) \<Longrightarrow> length (n_data n) = FILE_MAX"
    by (simp_all add: node0_def)
  show "fs_ok ram_boot" unfolding ram_boot_def by (rule fs_init_ok [OF *])
  show "tree (f_nodes ram_boot) = [[] \<mapsto> ADir]" "cwd_path ram_boot = []"
    using fs_init_afs(1) [OF *] unfolding ram_boot_def afs_def by simp_all
  show "free_slot (f_nodes ram_boot) = Some 1" unfolding ram_boot_def by (rule fs_init_afs(2) [OF *])
qed

lemma ram_boot_write:
  assumes "plain p" "parts p = [x]" "x \<notin> {dot, dotdot}" "length buf \<le> FILE_MAX"
  shows "fst (ram_fwrite ram_boot p buf) = FS_OK"
  using fwrite_spec [OF ram_boot(1) assms(1,4)] assms(2,3)
  by (auto simp: spec_parent_def ram_boot)

section \<open>Properties\<close>

text \<open>
  Creating a directory (C12): for a path that fits the buffers, \<open>fs_mkdir\<close> decides exactly as the
  tree of paths says: no such parent directory, a reserved name, an existing entry or a full table
  leave the state as it is with their code; otherwise the tree gains exactly one empty directory,
  and the current directory stays.
\<close>

theorem mkdir_refines_tree:
  assumes "fs_ok s" "plain p"
  shows "fs_ok (snd (ram_mkdir s p)) \<and>
   (case spec_parent (tree (f_nodes s)) (cwd_path s) p of
      None \<Rightarrow> ram_mkdir s p = (FS_BADPATH, s)
    | Some d \<Rightarrow>
        if last (parts p) \<in> {dot, dotdot} then ram_mkdir s p = (FS_BADNAME, s)
        else if tree (f_nodes s) (d @ [last (parts p)]) \<noteq> None then ram_mkdir s p = (FS_EXISTS, s)
        else if free_slot (f_nodes s) = None then ram_mkdir s p = (FS_FULL, s)
        else \<exists>s'. ram_mkdir s p = (FS_OK, s') \<and>
          afs s' = ((tree (f_nodes s))(d @ [last (parts p)] \<mapsto> ADir), cwd_path s))"
  using mkdir_spec [OF assms] ram_mkdir_ok [OF assms(1)] by blast

lemma plain_example: "plain [slash, 97]" "parts [slash, 97] = [[97]]"
proof -
  show p: "parts [slash, 97] = [[97]]" using parts_no_slash [of "[97]"] by (simp add: parts_slash)
  have "last_slash [slash, 97] = Some 0" by (simp add: last_slash_def)
  with p show "plain [slash, 97]" by (simp add: plain_def)
qed

theorem mkdir_refines_tree_witness:
  "fs_ok ram_boot \<and> plain [slash, 97] \<and>
   (\<exists>s'. ram_mkdir ram_boot [slash, 97] = (FS_OK, s') \<and> afs s' = ([[] \<mapsto> ADir, [[97]] \<mapsto> ADir], []))"
  using mkdir_refines_tree [OF ram_boot(1) plain_example(1)] ram_boot plain_example
  by (simp add: spec_parent_def is_abs_def)

lemma fwrite_read_back:
  assumes "fs_ok s" "plain p" "ram_fwrite s p buf = (FS_OK, s')"
  shows "fs_ok s' \<and> fs_fread_ram s' p cap = (int (min (length buf) cap), take cap buf)
     \<and> (\<exists>q. afs s' = ((tree (f_nodes s))(q \<mapsto> AFile buf), cwd_path s))"
proof -
  have len: "length buf \<le> FILE_MAX"
    using assms(3) by (auto simp: ram_fwrite_def fs_codes split: if_splits)
  have ok': "fs_ok s'" using ram_fwrite_ok [OF assms(1), of p buf] assms(3) by simp
  let ?t = "tree (f_nodes s)" and ?x = "last (parts p)"
  note sp = fwrite_spec [OF assms(1,2) len, unfolded assms(3)]
  obtain d where d: "spec_parent ?t (cwd_path s) p = Some d" "?x \<notin> {dot, dotdot}"
    "?t (d @ [?x]) \<noteq> Some ADir" "afs s' = (?t(d @ [?x] \<mapsto> AFile buf), cwd_path s)"
    using sp by (auto simp: fs_codes split: option.splits if_splits)
  have t': "tree (f_nodes s') = ?t(d @ [?x] \<mapsto> AFile buf)" "cwd_path s' = cwd_path s"
    using d(4) by (simp_all add: afs_def)
  have "spec_resolve (tree (f_nodes s')) (cwd_path s') p = Some (d @ [?x])"
    unfolding t' by (rule spec_resolve_leaf [OF d(1) assms(2) d(2)]) (use d(3) in auto)
  then show ?thesis
    using fread_spec [OF ok'] assms(2) ok' d(4) t' by (auto simp: plain_def)
qed

text \<open>
  What is written is read back (C11): if \<open>fs_fwrite\<close> succeeds for a path that fits the buffers, then
  reading the same path returns the written bytes (cut to the reader's capacity), the invariant
  holds, and every other path of the tree and the current directory are as before.
\<close>

theorem write_then_read:
  assumes "fs_ok s" "plain p" "ram_fwrite s p buf = (FS_OK, s')"
  shows "fs_ok s' \<and> fs_fread_ram s' p cap = (int (min (length buf) cap), take cap buf)
     \<and> (\<exists>q. afs s' = ((tree (f_nodes s))(q \<mapsto> AFile buf), cwd_path s))"
  by (rule fwrite_read_back [OF assms])

theorem write_then_read_witness:
  "\<exists>s'. ram_fwrite ram_boot [slash, 97] [1, 2, 3] = (FS_OK, s')
     \<and> fs_fread_ram s' [slash, 97] 2 = (2, [1, 2])"
proof -
  obtain s' where w: "ram_fwrite ram_boot [slash, 97] [1, 2, 3] = (FS_OK, s')"
    using ram_boot_write [OF plain_example, of "[1, 2, 3]"]
    by (cases "ram_fwrite ram_boot [slash, 97] [1, 2, 3]") (simp add: FILE_MAX_def)
  show ?thesis
    using write_then_read [OF ram_boot(1) plain_example(1) w, of 2] w by auto
qed

lemma parts_render:
  "\<forall>x \<in> set xs. x \<noteq> [] \<and> slash \<notin> set x \<Longrightarrow> parts (concat (map ((#) slash) xs)) = xs"
proof (induction xs)
  case (Cons x xs)
  then show ?case
    by (cases xs) (simp_all add: parts_slash parts_no_slash parts_append_slash)
qed simp

lemma path_of_good: "table_ok ns \<Longrightarrow> live ns k \<Longrightarrow> x \<in> set (path_of ns k) \<Longrightarrow> good_name x"
proof (induction k rule: less_induct)
  case (less k)
  show ?case
  proof (cases "k = 0")
    case False
    obtain p where p: "p < k" "n_parent (ns ! k) = int p" "live ns p" "n_dir (ns ! p)"
      "good_name (n_name (ns ! k))" by (rule parent_ok [OF less.prems(1,2) False])
    then have "is_kid ns p (n_name (ns ! k)) k" using less.prems by (simp add: is_kid_def)
    then show ?thesis using less p path_of_kid by fastforce
  qed (use less in simp)
qed

lemma go_path_of: "table_ok ns \<Longrightarrow> live ns k \<Longrightarrow> go (tree ns) [] (path_of ns k) = Some (path_of ns k)"
proof (induction k rule: less_induct)
  case (less k)
  note t = less.prems(1)
  show ?case
  proof (cases "k = 0")
    case False
    obtain p where p: "p < k" "n_parent (ns ! k) = int p" "live ns p" "n_dir (ns ! p)"
      "good_name (n_name (ns ! k))" by (rule parent_ok [OF less.prems False])
    then have kid: "is_kid ns p (n_name (ns ! k)) k" using less.prems by (simp add: is_kid_def)
    have "tree ns (path_of ns p) = Some ADir" using tree_path_of [OF t p(3)] p(4) by simp
    then show ?thesis
      using go_snoc [OF less.IH [OF p(1) t p(3)]] p(5) tree_path_of [OF t less.prems(2)] path_of_kid [OF t kid]
      by (auto simp: good_name_def bad_leaf_def)
  qed simp
qed

lemma cwd_out_fits:
  "length (out @ concat (map (\<lambda>i. slash # n_name (ns ! i)) is)) < cap \<or> is = [] \<Longrightarrow>
     cwd_out ns cap is out = (True, out @ concat (map (\<lambda>i. slash # n_name (ns ! i)) is))"
  by (induction "is" arbitrary: out) (simp, force)

lemma cwd_out_over:
  "\<not> length (out @ concat (map (\<lambda>i. slash # n_name (ns ! i)) is)) < cap \<Longrightarrow> is \<noteq> [] \<Longrightarrow>
     fst (cwd_out ns cap is out) = False"
proof (induction "is" arbitrary: out)
  case (Cons i "is")
  then show ?case by (cases "is = []") simp_all
qed simp

lemma cwd_out_ok:
  "cwd_out ns cap is out =
     (if length (out @ concat (map (\<lambda>i. slash # n_name (ns ! i)) is)) < cap \<or> is = []
      then (True, out @ concat (map (\<lambda>i. slash # n_name (ns ! i)) is))
      else (False, snd (cwd_out ns cap is out)))"
  using cwd_out_fits [of out ns "is" cap] cwd_out_over [of out ns "is" cap]
  by (cases "cwd_out ns cap is out") (simp split: if_splits)

text \<open>The text of a directory's path, as \<open>fs_getcwd\<close> prints it.\<close>

definition render :: "cstr list \<Rightarrow> cstr" where
  "render xs = (if xs = [] then [slash] else concat (map ((#) slash) xs))"

lemma getcwd_render:
  assumes "fs_ok s"
  shows "ram_getcwd s cap =
     (if length (render (cwd_path s)) < cap then (int (length (render (cwd_path s))), render (cwd_path s))
      else (FS_BADPATH, snd (ram_getcwd s cap)))"
proof -
  have ok: "table_ok (f_nodes s)" "live (f_nodes s) (f_cwd s)" using assms by (auto simp: fs_ok_def)
  let ?is = "rev (cwd_stack (f_nodes s) (f_cwd s) FS_MAX)"
  have eq: "concat (map (\<lambda>i. slash # n_name (f_nodes s ! i)) ?is) = concat (map ((#) slash) (cwd_path s))"
    by (simp add: cwd_path_def path_of_def comp_def)
  show ?thesis
  proof (cases "f_cwd s = 0")
    case True
    then show ?thesis by (simp add: ram_getcwd_def render_def cwd_path_def)
  next
    case False
    have ne: "?is \<noteq> []" using False by (simp add: FS_MAX_def numeral_eq_Suc)
    then have ne': "cwd_path s \<noteq> []" by (auto simp: cwd_path_def path_of_def)
    then obtain x xs where x: "cwd_path s = x # xs" by (cases "cwd_path s") auto
    have "x \<noteq> []" using path_of_good [OF ok, of x] x by (auto simp: cwd_path_def good_name_def bad_leaf_def)
    then have "\<not> cap < 2" if "length (render (cwd_path s)) < cap" using that by (cases x) (auto simp: render_def x)
    then show ?thesis
      using False ne ne' cwd_out_ok [of "f_nodes s" cap ?is "[]"] eq
      by (auto simp: ram_getcwd_def render_def split: prod.splits if_splits)
  qed
qed

text \<open>
  The path printed by \<open>fs_getcwd\<close> leads back (C36): with room for the path and its NUL the printed
  length is the text's length, and changing to that path from any other current directory of
  the same tree returns exactly to the directory it was printed for.
\<close>

theorem getcwd_chdir_round_trip:
  assumes "fs_ok s" "fs_ok s2" "f_nodes s2 = f_nodes s" "ram_getcwd s cap = (n, out)" "n \<ge> 0"
  shows "n = int (length out) \<and> length out < cap \<and> ram_chdir s2 out = (FS_OK, s2\<lparr>f_cwd := f_cwd s\<rparr>)"
proof -
  have ok: "table_ok (f_nodes s)" "live (f_nodes s) (f_cwd s)" "n_dir (f_nodes s ! f_cwd s)"
    using assms by (auto simp: fs_ok_def)
  have out: "out = render (cwd_path s)" "n = int (length out)" "length out < cap"
    using getcwd_render [OF assms(1), of cap, unfolded assms(4)] assms(5)
    by (auto simp: fs_codes split: if_splits)
  have g: "\<forall>x \<in> set (cwd_path s). x \<noteq> [] \<and> slash \<notin> set x \<and> length x \<le> 31"
    using path_of_good [OF ok(1,2)] by (auto simp: cwd_path_def good_name_def bad_leaf_def)
  have p: "parts out = cwd_path s" "is_abs out"
    using g parts_render [of "cwd_path s"] parts_slash [of "[]"]
    by (cases "cwd_path s"; simp add: out render_def is_abs_def)+
  then have "short out" using g by simp
  from resolve_dir_refines [OF assms(2) this] have "map_option (path_of (f_nodes s)) (resolve_dir s2 out) = Some (cwd_path s)"
    using go_path_of [OF ok(1,2)] tree_path_of [OF ok(1,2)] ok(3) p assms(3)
    by (simp add: spec_resolve_def cwd_path_def)
  then obtain d where d: "resolve_dir s2 out = Some d" "path_of (f_nodes s) d = cwd_path s" by auto
  then have "d = f_cwd s"
    using resolve_dir_live [OF assms(2) d(1)] path_of_inj [OF ok(1) _ ok(2)] assms(3) by (simp add: cwd_path_def)
  moreover have "out \<noteq> []" using p(2) by (auto simp: is_abs_def)
  ultimately show ?thesis using out d by (simp add: ram_chdir_def)
qed

theorem getcwd_chdir_round_trip_witness:
  "ram_getcwd ram_boot 10 = (1, [slash]) \<and> ram_chdir ram_boot [slash] = (FS_OK, ram_boot\<lparr>f_cwd := f_cwd ram_boot\<rparr>)"
proof -
  have "ram_getcwd ram_boot 10 = (1, [slash])"
    using getcwd_render [OF ram_boot(1), of 10] by (simp add: ram_boot(3) render_def)
  then show ?thesis
    using getcwd_chdir_round_trip [OF ram_boot(1) ram_boot(1) refl, of 10 1 "[slash]"] by simp
qed

subsection \<open>Listing a directory\<close>

definition kids :: "node list \<Rightarrow> nat \<Rightarrow> nat list" where
  "kids ns d = filter (\<lambda>i. n_used (ns ! i) \<and> n_parent (ns ! i) = int d) [0..<FS_MAX]"

lemma list_loop_kids:
  assumes "length out \<le> cap"
  shows "\<exists>m. list_loop ns d cap is out = out @ concat (map (\<lambda>i. list_line (ns ! i))
        (take m (filter (\<lambda>i. n_used (ns ! i) \<and> n_parent (ns ! i) = int d) is)))
     \<and> length (list_loop ns d cap is out) \<le> cap
     \<and> (length (out @ concat (map (\<lambda>i. list_line (ns ! i))
          (filter (\<lambda>i. n_used (ns ! i) \<and> n_parent (ns ! i) = int d) is))) < cap \<longrightarrow>
        m = length (filter (\<lambda>i. n_used (ns ! i) \<and> n_parent (ns ! i) = int d) is))"
  using assms
proof (induction "is" arbitrary: out)
  case (Cons i "is")
  let ?P = "\<lambda>i. n_used (ns ! i) \<and> n_parent (ns ! i) = int d" and ?l = "\<lambda>i. list_line (ns ! i)"
  have len: "length (?l i) \<ge> length (n_name (ns ! i)) + 1" "length (?l i) \<le> length (n_name (ns ! i)) + 2"
    by (simp_all add: list_line_def)
  show ?case
  proof (cases "?P i")
    case False
    then have "list_loop ns d cap (i # is) out = list_loop ns d cap is out" "filter ?P (i # is) = filter ?P is"
      by auto
    then show ?thesis using Cons by simp
  next
    case True
    show ?thesis
    proof (cases "length out + length (n_name (ns ! i)) + 2 > cap")
      case over: True
      then show ?thesis using True Cons.prems len by (intro exI [of _ 0]) (simp add: over)
    next
      case False
      obtain m where "list_loop ns d cap is (out @ ?l i) = (out @ ?l i) @ concat (map ?l (take m (filter ?P is)))
          \<and> length (list_loop ns d cap is (out @ ?l i)) \<le> cap
          \<and> (length ((out @ ?l i) @ concat (map ?l (filter ?P is))) < cap \<longrightarrow> m = length (filter ?P is))"
        using Cons.IH [of "out @ ?l i"] False len by auto
      then show ?thesis using True False by (intro exI [of _ "Suc m"]) auto
    qed
  qed
qed simp

lemma kids_names:
  assumes "table_ok ns" "live ns d"
  shows "distinct (map (\<lambda>i. n_name (ns ! i)) (kids ns d))"
    and "set (map (\<lambda>i. n_name (ns ! i)) (kids ns d)) = {x. tree ns (path_of ns d @ [x]) \<noteq> None}"
proof -
  have k: "i \<in> set (kids ns d) \<longleftrightarrow> is_kid ns d (n_name (ns ! i)) i" for i
    by (auto simp: kids_def is_kid_def live_def)
  show "distinct (map (\<lambda>i. n_name (ns ! i)) (kids ns d))"
    unfolding distinct_map
  proof
    show "distinct (kids ns d)" by (simp add: kids_def)
    show "inj_on (\<lambda>i. n_name (ns ! i)) (set (kids ns d))"
      by (rule inj_onI) (metis assms(1) is_kid_unique k)
  qed
  have "(\<exists>i \<in> set (kids ns d). n_name (ns ! i) = x) \<longleftrightarrow> find_kid ns d x \<noteq> None" for x
    unfolding find_kid_None Bex_def k by (auto simp: is_kid_def)
  then show "set (map (\<lambda>i. n_name (ns ! i)) (kids ns d)) = {x. tree ns (path_of ns d @ [x]) \<noteq> None}"
    using tree_snoc [OF assms] by (auto simp: image_iff Bex_def) (metis option.distinct(1))
qed

text \<open>
  Listing a directory: the listing of the current directory is never longer than the buffer
  and consists of whole lines for the first entries of the directory; the entries are exactly the
  names below that directory in the tree, each once, and if the buffer is longer than all the
  lines then all of them are listed.
\<close>

theorem listdir_lists_directory:
  assumes "fs_ok s" "ram_listdir s [] cap = (n, out)"
  shows "\<exists>ks m. out = concat (map (\<lambda>i. list_line (f_nodes s ! i)) (take m ks)) \<and> n = int (length out)
     \<and> length out \<le> cap
     \<and> (length (concat (map (\<lambda>i. list_line (f_nodes s ! i)) ks)) < cap \<longrightarrow> m = length ks)
     \<and> distinct (map (\<lambda>i. n_name (f_nodes s ! i)) ks)
     \<and> set (map (\<lambda>i. n_name (f_nodes s ! i)) ks) = {x. tree (f_nodes s) (cwd_path s @ [x]) \<noteq> None}"
proof -
  have ok: "table_ok (f_nodes s)" "live (f_nodes s) (f_cwd s)" using assms(1) by (auto simp: fs_ok_def)
  have "out = list_loop (f_nodes s) (f_cwd s) cap [0..<FS_MAX] []" "n = int (length out)"
    using assms(2) by (auto simp: ram_listdir_def Let_def)
  then show ?thesis
    using list_loop_kids [of "[]" cap "f_nodes s" "f_cwd s" "[0..<FS_MAX]"] kids_names [OF ok]
    unfolding kids_def cwd_path_def by (intro exI [of _ "kids (f_nodes s) (f_cwd s)"]) (auto simp: kids_def)
qed

theorem listdir_lists_directory_witness:
  "\<exists>n out ks m. ram_listdir ram_boot [] 100 = (n, out)
     \<and> out = concat (map (\<lambda>i. list_line (f_nodes ram_boot ! i)) (take m ks)) \<and> length out \<le> 100
     \<and> set (map (\<lambda>i. n_name (f_nodes ram_boot ! i)) ks) = {x. tree (f_nodes ram_boot) (cwd_path ram_boot @ [x]) \<noteq> None}"
proof -
  obtain n out where "ram_listdir ram_boot [] 100 = (n, out)" by (cases "ram_listdir ram_boot [] 100")
  with listdir_lists_directory [OF ram_boot(1) this] show ?thesis by blast
qed

subsection \<open>Sequences of operations\<close>

datatype ram_op = Mkdir cstr | Fwrite cstr "byte list" | Chdir cstr

fun ram_apply :: "ram_op \<Rightarrow> ramfs \<Rightarrow> ramfs" where
  "ram_apply (Mkdir p) s = snd (ram_mkdir s p)"
| "ram_apply (Fwrite p b) s = snd (ram_fwrite s p b)"
| "ram_apply (Chdir p) s = snd (ram_chdir s p)"

lemma ram_apply_ok [inv_intros]: "fs_ok s \<Longrightarrow> fs_ok (ram_apply op s)"
  by (cases op) (simp_all add: inv_intros)

text \<open>
  The table is always a tree: after any sequence of calls, with any paths and data, the
  nodes form a tree of uniquely named entries with files inside their buffers, and the current
  directory is one of its directories.
\<close>

theorem ram_invariant:
  assumes "length (f_nodes s) = FS_MAX" "\<forall>n \<in> set (f_nodes s). length (n_data n) = FILE_MAX"
  shows "fs_ok (fold ram_apply ops (fs_init s))"
proof -
  have "fs_ok (fs_init s)" using assms by (intro fs_init_ok) auto
  then show ?thesis by (induction ops rule: rev_induct) (simp_all add: ram_apply_ok)
qed

theorem ram_invariant_witness:
  "length (replicate FS_MAX node0) = FS_MAX
   \<and> fs_ok (fold ram_apply [Mkdir [97], Chdir [97], Fwrite [98] [1, 2]]
        (fs_init \<lparr>f_nodes = replicate FS_MAX node0, f_cwd = 0\<rparr>))"
  using ram_invariant [of "\<lparr>f_nodes = replicate FS_MAX node0, f_cwd = 0\<rparr>"
      "[Mkdir [97], Chdir [97], Fwrite [98] [1, 2]]"]
  by (simp add: node0_def)

subsection \<open>Names longer than the buffer\<close>

text \<open>
  A long name is accepted for writing and then cannot be read: for any name of more than 31
  bytes, a successful \<open>fs_fwrite\<close> stores the file under the first 31 bytes only, while \<open>resolve\<close>
  takes the bytes after the 31st for a further component, so reading the same name fails.
\<close>

theorem long_name_cannot_be_read:
  assumes "fs_ok s" "slash \<notin> set x" "length x > 31" "ram_fwrite s x buf = (FS_OK, s')"
  shows "fs_fread_ram s' x cap = (-1, [])"
proof -
  let ?y = "take 31 x"
  have ok': "fs_ok s'" using ram_fwrite_ok [OF assms(1), of x buf] assms(4) by simp
  have t': "table_ok (f_nodes s')" and t: "table_ok (f_nodes s)"
    using ok' assms(1) by (simp_all add: fs_ok_def)
  have sk: "skip_slash x = x" "skip_slash (drop 31 x) = drop 31 x"
    using assms(2) by (auto intro!: skip_slash_id dest: in_set_dropD)
  have np: "next_part x = ?y"
  proof -
    have "takeWhile (\<lambda>c. c \<noteq> slash) x = x" using assms(2) by (subst takeWhile_eq_all_conv) auto
    then show ?thesis by (simp only: next_part_def sk NAME_MAX_def) simp
  qed
  have sp: "split_parent s x = Some (f_cwd s, ?y)" using assms(2) np by (simp add: split_parent_def last_slash_None [THEN iffD2])
  have dots: "?y \<noteq> dot" "?y \<noteq> dotdot" "?y \<noteq> []" using assms(3) by (auto dest: arg_cong [of _ _ length])
  have "\<exists>k. is_kid (f_nodes s') (f_cwd s') ?y k \<and> \<not> n_dir (f_nodes s' ! k)"
  proof (cases "find_kid (f_nodes s) (f_cwd s) ?y")
    case None
    then obtain fr where fr: "free_slot (f_nodes s) = Some fr"
      and s': "s' = s\<lparr>f_nodes := (f_nodes s)[fr := put_data ((f_nodes s ! fr)\<lparr>n_name := name_cp ?y,
        n_parent := int (f_cwd s), n_dir := False, n_used := True, n_mode := 420\<rparr>) buf]\<rparr>"
      using assms(4) sp by (auto simp: ram_fwrite_def fs_codes split: if_splits option.splits)
    have "fr < length (f_nodes s)" using free_slot_Some [OF fr] t by (simp add: table_okD(1))
    then show ?thesis
      using free_slot_Some [OF fr]
      by (intro exI [of _ fr]) (simp add: s' is_kid_def live_def put_data_def name_cp_def NAME_MAX_def)
  next
    case (Some k)
    then have k: "\<not> n_dir (f_nodes s ! k)"
      and s': "s' = s\<lparr>f_nodes := (f_nodes s)[k := put_data (f_nodes s ! k) buf]\<rparr>"
      using assms(4) sp by (auto simp: ram_fwrite_def fs_codes split: if_splits)
    have kid: "is_kid (f_nodes s) (f_cwd s) ?y k" using Some by (rule find_kid_is_kid)
    then have "k < length (f_nodes s)" using t by (simp add: table_okD(1) is_kid_def live_def)
    then show ?thesis
      using kid k by (intro exI [of _ k]) (simp add: s' is_kid_def live_def put_data_def)
  qed
  then obtain k where k: "find_kid (f_nodes s') (f_cwd s') ?y = Some k" "\<not> n_dir (f_nodes s' ! k)"
    using find_kid_iff [OF t'] by blast
  have "resolve_loop (f_nodes s') (f_cwd s') x = None"
    using resolve_loop_step [of x "f_nodes s'" "f_cwd s'"] assms(3) dots k unfolding sk np
    by (simp add: sk min_absorb2)
  moreover have "resolve s' x = resolve_loop (f_nodes s') (f_cwd s') x"
    using assms(2,3) by (cases x) (auto simp: resolve_def Let_def)
  ultimately show ?thesis by (simp add: fs_fread_ram_def)
qed

theorem long_name_cannot_be_read_witness:
  "\<exists>s'. ram_fwrite ram_boot (replicate 40 97) [1] = (FS_OK, s') \<and> fs_fread_ram s' (replicate 40 97) 9 = (-1, [])"
proof -
  have "next_part (replicate 40 97) = replicate 31 97"
    by (simp add: next_part_def skip_slash_id NAME_MAX_def takeWhile_replicate)
  moreover have "last_slash (replicate 40 97) = None" by (simp add: last_slash_None)
  moreover have "replicate 31 97 \<notin> {[], dot, dotdot}" by (auto dest: arg_cong [of _ _ length])
  moreover have "find_kid (f_nodes ram_boot) (f_cwd ram_boot) (replicate 31 97) = None"
  proof -
    have "tree (f_nodes ram_boot) (path_of (f_nodes ram_boot) (f_cwd ram_boot) @ [replicate 31 97]) = None"
      by (simp add: ram_boot)
    then show ?thesis using tree_snoc ram_boot(1) by (simp add: fs_ok_def)
  qed
  ultimately have "\<exists>s'. ram_fwrite ram_boot (replicate 40 97) [1] = (FS_OK, s')"
    by (simp add: ram_fwrite_def split_parent_def bad_leaf_def ram_boot(4) FILE_MAX_def)
  then obtain s' where w: "ram_fwrite ram_boot (replicate 40 97) [1] = (FS_OK, s')" by blast
  show ?thesis using long_name_cannot_be_read [OF ram_boot(1) _ _ w, of 9] w by simp
qed

end
