(* ===== verification/Fat.thy ===== *)
theory Fat
  imports Ide Ramfs
begin

text \<open>
  The FAT32 driver of \<^verbatim>\<open>kernel/fat.c\<close> over the IDE driver: mounting, path handling, directory
  scans, and writing. The static variables are the record \<open>fat\<close>; the drive below is the parameter of
  the IDE theory. A cluster chain on disk may be cyclic, so the loops that follow one take a fuel, and
  running out of it is a fault of the result, as is a write past the end of a fixed buffer; the C
  results 0 and -1 are values.
\<close>

section \<open>State\<close>

record 'd fat =
  ft_ide :: "'d ide"
  ft_sec :: "byte list"
  ft_start :: "64 word"
  ft_data :: "64 word"
  ft_spc :: byte
  ft_nfats :: byte
  ft_sz :: "32 word"
  ft_root :: "32 word"
  ft_cwd :: "32 word"
  ft_path :: cstr
  ft_mnt :: bool
  ft_hint :: "32 word"

datatype fault = OutOfFuel | Overflow

type_synonym ('a, 'd) fres = "fault + ('a \<times> 'd fat)"

definition bindr :: "('a, 'd) fres \<Rightarrow> ('a \<Rightarrow> 'd fat \<Rightarrow> ('b, 'd) fres) \<Rightarrow> ('b, 'd) fres" where
  "bindr m k = (case m of Inl f \<Rightarrow> Inl f | Inr (a, s) \<Rightarrow> k a s)"

lemma bindr_simps [simp]: "bindr (Inl f) k = Inl f" "bindr (Inr (a, s)) k = k a s"
  by (simp_all add: bindr_def)

abbreviation ATTR_DIR :: byte where "ATTR_DIR \<equiv> 0x10"
abbreviation ATTR_VOL :: byte where "ATTR_VOL \<equiv> 0x08"
abbreviation ATTR_LFN :: byte where "ATTR_LFN \<equiv> 0x0F"
abbreviation EOC :: "32 word" where "EOC \<equiv> 0x0FFFFFF8"
definition PATH_MAX :: nat where "PATH_MAX = 256"

text \<open>\<open>ide_read(lba, sec)\<close> and \<open>ide_write(lba, sec)\<close>: whether they returned 0.\<close>

definition rd_sec :: "'d ata \<Rightarrow> 64 word \<Rightarrow> 'd fat \<Rightarrow> bool \<times> 'd fat" where
  "rd_sec hw lba s =
     (case ide_read hw lba (ft_ide s) of
        (None, i) \<Rightarrow> (False, s\<lparr>ft_ide := i\<rparr>)
      | (Some b, i) \<Rightarrow> (True, s\<lparr>ft_ide := i, ft_sec := b\<rparr>))"

definition wr_blk :: "'d ata \<Rightarrow> 64 word \<Rightarrow> byte list \<Rightarrow> 'd fat \<Rightarrow> bool \<times> 'd fat" where
  "wr_blk hw lba b s = (let (ok, i) = ide_write hw lba b (ft_ide s) in (ok, s\<lparr>ft_ide := i\<rparr>))"

section \<open>Names\<close>

fun name_same :: "cstr \<Rightarrow> cstr \<Rightarrow> bool" where
  "name_same (a # as) (b # bs) = (a = b \<and> name_same as bs)"
| "name_same [] [] = True"
| "name_same _ _ = False"

lemma name_same_eq [simp]: "name_same a b \<longleftrightarrow> a = b"
  by (induction a b rule: name_same.induct) auto

definition upper :: "byte \<Rightarrow> byte" where
  "upper c = (if 97 \<le> c \<and> c \<le> 122 then c - 32 else c)"

fun name_match :: "cstr \<Rightarrow> cstr \<Rightarrow> bool" where
  "name_match (d # disk) (c # cin) = (d = upper c \<and> name_match disk cin)"
| "name_match [] [] = True"
| "name_match _ _ = False"

text \<open>The 8.3 name of the directory entry at offset \<open>e\<close>; as a C string it ends at a NUL.\<close>

definition entry_name :: "byte list \<Rightarrow> nat \<Rightarrow> cstr option" where
  "entry_name sec e =
     (if sec ! e = 0 \<or> sec ! e = 0xE5 then None
      else if sec ! (e + 11) AND ATTR_LFN = ATTR_LFN \<or> sec ! (e + 11) AND ATTR_VOL \<noteq> 0 then None
      else
        let base = takeWhile (\<lambda>c. c \<noteq> 32) (map (\<lambda>i. sec ! (e + i)) [0..<8]);
            ext = (if sec ! (e + 8) \<noteq> 32
                   then 46 # takeWhile (\<lambda>c. c \<noteq> 32) (map (\<lambda>i. sec ! (e + i)) [8..<11]) else []);
            out = takeWhile (\<lambda>c. c \<noteq> 0) (base @ ext)
        in if name_same out dot \<or> name_same out dotdot then None else Some out)"

definition valid83 :: "byte \<Rightarrow> bool" where
  "valid83 c \<longleftrightarrow> (65 \<le> c \<and> c \<le> 90) \<or> (48 \<le> c \<and> c \<le> 57) \<or> c = 95 \<or> c = 45"

text \<open>The two loops of \<open>to83\<close>: how many more bytes fit, the name, what is stored so far.\<close>

fun to83_base :: "nat \<Rightarrow> cstr \<Rightarrow> byte list \<Rightarrow> (byte list \<times> cstr) option" where
  "to83_base n [] acc = Some (acc, [])"
| "to83_base 0 (c # cin) acc = Some (acc, c # cin)"
| "to83_base (Suc n) (c # cin) acc =
     (if c = 46 then Some (acc, c # cin)
      else if \<not> valid83 (upper c) then None else to83_base n cin (acc @ [upper c]))"

fun to83_ext :: "nat \<Rightarrow> cstr \<Rightarrow> byte list \<Rightarrow> (byte list \<times> cstr) option" where
  "to83_ext n [] acc = Some (acc, [])"
| "to83_ext 0 (c # cin) acc = Some (acc, c # cin)"
| "to83_ext (Suc n) (c # cin) acc =
     (if \<not> valid83 (upper c) then None else to83_ext n cin (acc @ [upper c]))"

definition pad :: "nat \<Rightarrow> byte list \<Rightarrow> byte list" where
  "pad n xs = xs @ replicate (n - length xs) 32"

definition to83 :: "cstr \<Rightarrow> byte list option" where
  "to83 cin =
     (case to83_base 8 cin [] of
        None \<Rightarrow> None
      | Some (base, r) \<Rightarrow>
        if r \<noteq> [] \<and> hd r \<noteq> 46 then None
        else
          (case (if r \<noteq> [] then to83_ext 3 (tl r) [] else Some ([], [])) of
             None \<Rightarrow> None
           | Some (ext, r2) \<Rightarrow> if r2 \<noteq> [] then None else if base = [] then None else Some (pad 8 base @ pad 3 ext)))"

definition entry_match83 :: "byte list \<Rightarrow> nat \<Rightarrow> byte list \<Rightarrow> bool" where
  "entry_match83 sec e name83 \<longleftrightarrow> list_all (\<lambda>i. sec ! (e + i) = name83 ! i) [0..<11]"

text \<open>First cluster and size of the directory entry at \<open>e\<close>.\<close>

definition entry_clus :: "byte list \<Rightarrow> nat \<Rightarrow> 32 word" where
  "entry_clus sec e = push_bit 16 (ucast (sec ! (e + 20))) OR push_bit 24 (ucast (sec ! (e + 21))) OR
     ucast (rd16 sec (e + 26))"

definition put_bytes :: "nat \<Rightarrow> byte list \<Rightarrow> byte list \<Rightarrow> byte list" where
  "put_bytes p bs xs = take p xs @ bs @ drop (p + length bs) xs"

definition fill_entry :: "nat \<Rightarrow> byte list \<Rightarrow> byte \<Rightarrow> 32 word \<Rightarrow> 32 word \<Rightarrow> byte list \<Rightarrow> byte list" where
  "fill_entry e name83 attr clus fsize sec =
     (let sec = put_bytes e (name83 @ [attr] @ replicate 8 0) sec;
          sec = wr16 (e + 20) (ucast (drop_bit 16 clus AND 0xFFFF)) sec;
          sec = wr16 (e + 22) 0x0021 sec;
          sec = wr16 (e + 24) 0x0021 sec;
          sec = wr16 (e + 26) (ucast (clus AND 0xFFFF)) sec
      in wr32 (e + 28) fsize sec)"

section \<open>Absolute paths\<close>

text \<open>\<open>AbsOver\<close>: a byte is stored behind the 256 bytes of the caller's buffer.\<close>

datatype absres = AbsBad | AbsOver | AbsOk cstr

function abs_strip :: "cstr \<Rightarrow> cstr" where
  "abs_strip out = (if length out > 1 \<and> last out \<noteq> slash then abs_strip (butlast out) else out)"
  by pat_completeness auto
termination by (relation "measure length") auto

declare abs_strip.simps [simp del]

definition abs_up :: "cstr \<Rightarrow> cstr" where
  "abs_up out = (let o1 = abs_strip out in if length o1 > 1 then butlast o1 else o1)"

fun abs_comp :: "cstr \<Rightarrow> cstr \<Rightarrow> cstr option" where
  "abs_comp out [] = Some out"
| "abs_comp out (c # cin) = (if length out + 1 \<ge> PATH_MAX then None else abs_comp (out @ [c]) cin)"

text \<open>The component at the start of a path, cut at 12 bytes as the loops of \<open>abspath\<close> and \<open>walk\<close> do.\<close>

definition path_comp :: "cstr \<Rightarrow> cstr" where
  "path_comp p = take 12 (takeWhile (\<lambda>c. c \<noteq> slash) p)"

function abs_loop :: "cstr \<Rightarrow> cstr \<Rightarrow> absres" where
  "abs_loop out path =
     (let p1 = skip_slash path in
      if p1 = [] then (if length out < PATH_MAX then AbsOk out else AbsOver)
      else
        let cmp = path_comp p1;
            p2 = drop (length cmp) p1
        in if p2 \<noteq> [] \<and> hd p2 \<noteq> slash then AbsBad
           else if name_same cmp dot then abs_loop out p2
           else if name_same cmp dotdot then abs_loop (abs_up out) p2
           else if length out > 1 \<and> length out \<ge> PATH_MAX then AbsOver
           else (case abs_comp (if length out > 1 then out @ [slash] else out) cmp of
               None \<Rightarrow> AbsBad
             | Some out' \<Rightarrow> abs_loop out' p2))"
  by pat_completeness auto

lemma comp_decr:
  assumes "skip_slash p \<noteq> []"
  shows "length (drop (length (path_comp (skip_slash p))) (skip_slash p)) < length p"
proof -
  obtain c q where c: "skip_slash p = c # q" "c \<noteq> slash"
    using assms skip_slash_hd by (cases "skip_slash p") auto
  then have "length (path_comp (skip_slash p)) > 0" by (simp add: path_comp_def)
  then show ?thesis
    using skip_slash_len [of p] assms by (simp add: less_le_trans [OF diff_less])
qed

termination abs_loop
  by (relation "measure (\<lambda>(out, p). length p)") (use comp_decr in \<open>fastforce+\<close>)

declare abs_loop.simps [simp del]

definition abspath :: "cstr \<Rightarrow> cstr \<Rightarrow> absres" where
  "abspath cwd path =
     (if path \<noteq> [] \<and> hd path = slash then abs_loop [slash] (tl path)
      else let out = take (PATH_MAX - 1) cwd
           in abs_loop (if length out > 1 then out @ [slash] else out) path)"

section \<open>Clusters and chains\<close>

definition clus_lba :: "'d fat \<Rightarrow> 32 word \<Rightarrow> 64 word" where
  "clus_lba s c = ft_data s + ucast (c - 2) * ucast (ft_spc s)"

text \<open>Sector and offset of a FAT entry; the offset computation is in 64 bits.\<close>

definition fat_lba :: "'d fat \<Rightarrow> 32 word \<Rightarrow> 64 word" where
  "fat_lba s c = ft_start s + (ucast c * 4) div 512"

definition fat_off :: "32 word \<Rightarrow> nat" where
  "fat_off c = unat ((ucast c * 4 :: 64 word) mod 512)"

definition fat_next :: "'d ata \<Rightarrow> 32 word \<Rightarrow> 'd fat \<Rightarrow> 32 word \<times> 'd fat" where
  "fat_next hw c s =
     (let (ok, s1) = rd_sec hw (fat_lba s c) s
      in if \<not> ok then (EOC, s1) else (rd32 (ft_sec s1) (fat_off c) AND 0x0FFFFFFF, s1))"

text \<open>
  The three nested loops over a directory (clusters of the chain, sectors of the cluster, entries
  of the sector), shared by \<open>walk\<close>, \<open>lookup\<close> and \<open>fat_list\<close>: \<open>visit\<close> is the body of the two inner
  loops for one sector. \<open>Halt\<close> is a return out of the loops, \<open>Bad\<close> the return after a failed read.
\<close>

datatype 'a scan = Bad | Halt | Go | Hit 'a

fun scan_sectors :: "'d ata \<Rightarrow> (64 word \<Rightarrow> byte list \<Rightarrow> 'b \<Rightarrow> 'a scan \<times> 'b) \<Rightarrow> 64 word list \<Rightarrow> 'b \<Rightarrow> 'd fat \<Rightarrow>
    ('a scan \<times> 'b) \<times> 'd fat" where
  "scan_sectors hw visit [] acc s = ((Go, acc), s)"
| "scan_sectors hw visit (l # ls) acc s =
     (let (ok, s1) = rd_sec hw l s in
      if \<not> ok then ((Bad, acc), s1)
      else (case visit l (ft_sec s1) acc of
          (Go, acc') \<Rightarrow> scan_sectors hw visit ls acc' s1
        | r \<Rightarrow> (r, s1)))"

definition clus_sectors :: "'d fat \<Rightarrow> 32 word \<Rightarrow> 64 word list" where
  "clus_sectors s c = map (\<lambda>k. clus_lba s c + word_of_nat k) [0..<unat (ft_spc s)]"

fun scan_chain :: "'d ata \<Rightarrow> (64 word \<Rightarrow> byte list \<Rightarrow> 'b \<Rightarrow> 'a scan \<times> 'b) \<Rightarrow> nat \<Rightarrow> 32 word \<Rightarrow> 'b \<Rightarrow> 'd fat \<Rightarrow>
    ('a scan \<times> 'b, 'd) fres" where
  "scan_chain hw visit 0 c acc s = Inl OutOfFuel"
| "scan_chain hw visit (Suc n) c acc s =
     (if c < EOC then
        (case scan_sectors hw visit (clus_sectors s c) acc s of
           ((Go, acc'), s1) \<Rightarrow> let (c', s2) = fat_next hw c s1 in scan_chain hw visit n c' acc' s2
         | r \<Rightarrow> Inr r)
      else Inr ((Go, acc), s))"

section \<open>Walking a path\<close>

text \<open>The entry loop of \<open>walk\<close> for one sector; a hit is cluster, directory flag and size.\<close>

fun walk_entries :: "cstr \<Rightarrow> cstr \<Rightarrow> byte list \<Rightarrow> nat list \<Rightarrow> (32 word \<times> bool \<times> 32 word) scan" where
  "walk_entries cmp rest sec [] = Go"
| "walk_entries cmp rest sec (i # is) =
     (let e = i * 32 in
      if sec ! e = 0 then Halt
      else case entry_name sec e of
        None \<Rightarrow> walk_entries cmp rest sec is
      | Some nm \<Rightarrow>
        if \<not> name_match nm cmp then walk_entries cmp rest sec is
        else if rest \<noteq> [] \<and> hd rest \<noteq> slash then Halt
        else Hit (entry_clus sec e, sec ! (e + 11) AND ATTR_DIR \<noteq> 0, rd32 sec (e + 28)))"

definition walk_visit :: "cstr \<Rightarrow> cstr \<Rightarrow> 64 word \<Rightarrow> byte list \<Rightarrow> unit \<Rightarrow> (32 word \<times> bool \<times> 32 word) scan \<times> unit" where
  "walk_visit cmp rest lba sec u = (walk_entries cmp rest sec [0..<16], u)"

text \<open>The outer loop: the rest of the path, the current cluster, \<open>*isdir\<close> and \<open>*size\<close>.\<close>

function walk_loop :: "'d ata \<Rightarrow> nat \<Rightarrow> cstr \<Rightarrow> 32 word \<Rightarrow> bool \<Rightarrow> 32 word \<Rightarrow> 'd fat \<Rightarrow>
    ((32 word \<times> bool \<times> 32 word) option, 'd) fres" where
  "walk_loop hw fuel p cur isdir sz s =
     (let p1 = skip_slash p in
      if p1 = [] then Inr (Some (cur, isdir, sz), s)
      else
        let cmp = path_comp p1;
            p2 = drop (length cmp) p1
        in if p2 \<noteq> [] \<and> hd p2 \<noteq> slash then Inr (None, s)
           else (case scan_chain hw (walk_visit cmp p2) fuel cur () s of
               Inl f \<Rightarrow> Inl f
             | Inr ((Hit (cl, d, z), u), s1) \<Rightarrow>
                 if \<not> d \<and> p2 \<noteq> [] then Inr (None, s1)
                 else walk_loop hw fuel p2 cl d (if d then sz else z) s1
             | Inr (_, s1) \<Rightarrow> Inr (None, s1)))"
  by pat_completeness auto
termination
  by (relation "measure (\<lambda>(hw, fuel, p, cur, isdir, sz, s). length p)") (use comp_decr in \<open>fastforce+\<close>)

declare walk_loop.simps [simp del]

text \<open>\<open>isdir\<close> and \<open>sz\<close> are what the caller's variables hold before.\<close>

definition walk :: "'d ata \<Rightarrow> nat \<Rightarrow> cstr \<Rightarrow> bool \<Rightarrow> 32 word \<Rightarrow> 'd fat \<Rightarrow> ((32 word \<times> bool \<times> 32 word) option, 'd) fres" where
  "walk hw fuel p isdir sz s =
     (if p = [] \<or> name_same p [slash] then Inr (Some (ft_root s, True, sz), s)
      else walk_loop hw fuel p (ft_root s) isdir sz s)"

section \<open>Mounting and reading\<close>

definition fat_mount :: "'d ata \<Rightarrow> 64 word \<Rightarrow> 'd fat \<Rightarrow> int \<times> 'd fat" where
  "fat_mount hw part_lba s0 =
     (let (ok, s) = rd_sec hw part_lba s0; sec = ft_sec s in
      if \<not> ok then (-1, s)
      else if sec ! 510 \<noteq> 0x55 \<or> sec ! 511 \<noteq> 0xAA then (-1, s)
      else
        let bps = rd16 sec 11;
            reserved = rd16 sec 14;
            fats = sec ! 16;
            s = s\<lparr>ft_spc := sec ! 13, ft_sz := rd32 sec 36, ft_root := rd32 sec 44\<rparr>
        in if bps \<noteq> 512 \<or> ft_spc s = 0 \<or> fats = 0 \<or> ft_sz s = 0 \<or> ft_root s < 2 then (-1, s)
           else
             let start = part_lba + ucast reserved
             in (0, s\<lparr>ft_nfats := fats, ft_start := start, ft_data := start + ucast fats * ucast (ft_sz s),
                     ft_cwd := ft_root s, ft_path := [slash], ft_mnt := True\<rparr>))"

definition fat_unmount :: "'d fat \<Rightarrow> 'd fat" where
  "fat_unmount s = s\<lparr>ft_mnt := False\<rparr>"

definition fat_mounted :: "'d fat \<Rightarrow> bool" where
  "fat_mounted s = ft_mnt s"

text \<open>\<open>cwd_path\<close> has room for 255 bytes and the NUL, as \<open>abs\<close> has, so the copy stays inside.\<close>

definition fat_chdir :: "'d ata \<Rightarrow> nat \<Rightarrow> cstr \<Rightarrow> 'd fat \<Rightarrow> (int, 'd) fres" where
  "fat_chdir hw fuel path s =
     (case abspath (ft_path s) (if path = [] then [slash] else path) of
        AbsOver \<Rightarrow> Inl Overflow
      | AbsBad \<Rightarrow> Inr (-1, s)
      | AbsOk ab \<Rightarrow>
        bindr (walk hw fuel ab False 0 s) (\<lambda>r s1.
          case r of
            Some (c, True, _) \<Rightarrow> Inr (0, s1\<lparr>ft_cwd := c, ft_path := ab\<rparr>)
          | _ \<Rightarrow> Inr (-1, s1)))"

definition fat_getcwd :: "'d fat \<Rightarrow> nat \<Rightarrow> int \<times> cstr" where
  "fat_getcwd s cap = (if length (ft_path s) + 1 > cap then (-1, []) else (int (length (ft_path s)), ft_path s))"

fun list_entries :: "nat \<Rightarrow> byte list \<Rightarrow> nat list \<Rightarrow> byte list \<Rightarrow> unit scan \<times> byte list" where
  "list_entries cap sec [] out = (Go, out)"
| "list_entries cap sec (i # is) out =
     (let e = i * 32 in
      if sec ! e = 0 then (Halt, out)
      else case entry_name sec e of
        None \<Rightarrow> list_entries cap sec is out
      | Some nm \<Rightarrow>
        if length out + length nm + 2 > cap then (Halt, out)
        else list_entries cap sec is
          (out @ nm @ (if sec ! (e + 11) AND ATTR_DIR \<noteq> 0 then [slash] else []) @ [10]))"

definition fat_list :: "'d ata \<Rightarrow> nat \<Rightarrow> cstr \<Rightarrow> nat \<Rightarrow> 'd fat \<Rightarrow> (int \<times> byte list, 'd) fres" where
  "fat_list hw fuel path cap s =
     (case abspath (ft_path s) path of
        AbsOver \<Rightarrow> Inl Overflow
      | AbsBad \<Rightarrow> Inr ((-1, []), s)
      | AbsOk ab \<Rightarrow>
        bindr (if path \<noteq> [] then walk hw fuel ab False 0 s else Inr (Some (ft_cwd s, True, 0), s)) (\<lambda>r s1.
          case r of
            Some (c, True, _) \<Rightarrow>
              bindr (scan_chain hw (\<lambda>l sec out. list_entries cap sec [0..<16] out) fuel c [] s1) (\<lambda>r2 s2.
                case r2 of (Bad, out) \<Rightarrow> Inr ((-1, out), s2) | (_, out) \<Rightarrow> Inr ((int (length out), out), s2))
          | _ \<Rightarrow> Inr ((-1, []), s1)))"

text \<open>The sector loop of \<open>fat_read\<close>: whether it went on, and what is in \<open>out\<close>.\<close>

fun read_sectors :: "'d ata \<Rightarrow> 64 word list \<Rightarrow> nat \<Rightarrow> byte list \<Rightarrow> 'd fat \<Rightarrow> (bool \<times> byte list) \<times> 'd fat" where
  "read_sectors hw [] cap out s = ((True, out), s)"
| "read_sectors hw (l # ls) cap out s =
     (if length out < cap then
        let (ok, s1) = rd_sec hw l s in
        if \<not> ok then ((False, out), s1)
        else read_sectors hw ls cap (out @ take (min 512 (cap - length out)) (ft_sec s1)) s1
      else ((True, out), s))"

fun read_chain :: "'d ata \<Rightarrow> nat \<Rightarrow> 32 word \<Rightarrow> nat \<Rightarrow> byte list \<Rightarrow> 'd fat \<Rightarrow> (int \<times> byte list, 'd) fres" where
  "read_chain hw 0 cl cap out s = Inl OutOfFuel"
| "read_chain hw (Suc n) cl cap out s =
     (if length out < cap \<and> cl < EOC then
        (case read_sectors hw (clus_sectors s cl) cap out s of
           ((False, out'), s1) \<Rightarrow> Inr ((-1, out'), s1)
         | ((True, out'), s1) \<Rightarrow> let (c', s2) = fat_next hw cl s1 in read_chain hw n c' cap out' s2)
      else Inr ((int (length out), out), s))"

definition fat_read :: "'d ata \<Rightarrow> nat \<Rightarrow> cstr \<Rightarrow> nat \<Rightarrow> 'd fat \<Rightarrow> (int \<times> byte list, 'd) fres" where
  "fat_read hw fuel path cap s =
     (case abspath (ft_path s) path of
        AbsOver \<Rightarrow> Inl Overflow
      | AbsBad \<Rightarrow> Inr ((-1, []), s)
      | AbsOk ab \<Rightarrow>
        bindr (walk hw fuel ab True 0 s) (\<lambda>r s1.
          case r of
            Some (c, False, z) \<Rightarrow> read_chain hw fuel c (min (unat z) cap) [] s1
          | _ \<Rightarrow> Inr ((-1, []), s1)))"

section \<open>Writing\<close>

text \<open>The loop of \<open>fat_set\<close> over the copies of the FAT; the result is whether it returned 0.\<close>

fun fat_set_loop :: "'d ata \<Rightarrow> 32 word \<Rightarrow> 32 word \<Rightarrow> nat list \<Rightarrow> 'd fat \<Rightarrow> bool \<times> 'd fat" where
  "fat_set_loop hw c v [] s = (True, s)"
| "fat_set_loop hw c v (k # ks) s =
     (let lba = ft_start s + word_of_nat k * ucast (ft_sz s) + (ucast c * 4) div 512;
          (ok, s1) = rd_sec hw lba s in
      if \<not> ok then (False, s1)
      else
        let s2 = s1\<lparr>ft_sec := wr32 (fat_off c) v (ft_sec s1)\<rparr>;
            (ok3, s3) = wr_blk hw lba (ft_sec s2) s2 in
        if \<not> ok3 then (False, s3) else fat_set_loop hw c v ks s3)"

definition fat_set :: "'d ata \<Rightarrow> 32 word \<Rightarrow> 32 word \<Rightarrow> 'd fat \<Rightarrow> bool \<times> 'd fat" where
  "fat_set hw c v s = fat_set_loop hw c v [0..<unat (ft_nfats s)] s"

definition fat_max :: "'d fat \<Rightarrow> 32 word" where
  "fat_max s = ft_sz s * 128"

text \<open>The search of \<open>alloc_clus\<close>: turns left, loop variable; 0 is the result for failure.\<close>

fun alloc_loop :: "'d ata \<Rightarrow> nat \<Rightarrow> 32 word \<Rightarrow> 'd fat \<Rightarrow> 32 word \<times> 'd fat" where
  "alloc_loop hw 0 i s = (0, s)"
| "alloc_loop hw (Suc n) i s =
     (let mx = fat_max s;
          c = 2 + (ft_hint s + i) mod (if mx - 2 > 0 then mx - 2 else 1)
      in if c \<ge> mx then alloc_loop hw n (i + 1) s
         else
           let (ok, s1) = rd_sec hw (fat_lba s c) s in
           if \<not> ok then (0, s1)
           else if rd32 (ft_sec s1) (fat_off c) = 0 then
             let (ok2, s2) = fat_set hw c 0x0FFFFFFF s1 in
             if \<not> ok2 then (0, s2) else (c, s2\<lparr>ft_hint := c\<rparr>)
           else alloc_loop hw n (i + 1) s1)"

definition alloc_clus :: "'d ata \<Rightarrow> 'd fat \<Rightarrow> 32 word \<times> 'd fat" where
  "alloc_clus hw s = alloc_loop hw (unat (fat_max s)) 0 s"

fun free_chain :: "'d ata \<Rightarrow> nat \<Rightarrow> 32 word \<Rightarrow> 'd fat \<Rightarrow> (unit, 'd) fres" where
  "free_chain hw 0 c s = Inl OutOfFuel"
| "free_chain hw (Suc n) c s =
     (if 2 \<le> c \<and> c < EOC then
        let (ok, s1) = rd_sec hw (fat_lba s c) s;
            nx = (if ok then rd32 (ft_sec s1) (fat_off c) AND 0x0FFFFFFF else EOC);
            (ok2, s2) = fat_set hw c 0 s1
        in free_chain hw n nx s2
      else Inr ((), s))"

text \<open>A directory entry found by \<open>lookup\<close>: sector, offset, directory flag, cluster, size.\<close>

type_synonym dent = "64 word \<times> nat \<times> bool \<times> 32 word \<times> 32 word"

fun lookup_entries :: "byte list \<Rightarrow> 64 word \<Rightarrow> byte list \<Rightarrow> nat list \<Rightarrow> dent scan" where
  "lookup_entries name83 lba sec [] = Go"
| "lookup_entries name83 lba sec (i # is) =
     (let e = i * 32 in
      if sec ! e = 0 then Halt
      else if sec ! e = 0xE5 \<or> sec ! (e + 11) AND ATTR_LFN = ATTR_LFN \<or> sec ! (e + 11) AND ATTR_VOL \<noteq> 0
        then lookup_entries name83 lba sec is
      else if \<not> entry_match83 sec e name83 then lookup_entries name83 lba sec is
      else Hit (lba, e, sec ! (e + 11) AND ATTR_DIR \<noteq> 0, entry_clus sec e, rd32 sec (e + 28)))"

definition lookup :: "'d ata \<Rightarrow> nat \<Rightarrow> 32 word \<Rightarrow> byte list \<Rightarrow> 'd fat \<Rightarrow> (dent option, 'd) fres" where
  "lookup hw fuel dirclus name83 s =
     bindr (scan_chain hw (\<lambda>l sec u. (lookup_entries name83 l sec [0..<16], u)) fuel dirclus () s) (\<lambda>r s1.
       case r of (Hit e, _) \<Rightarrow> Inr (Some e, s1) | _ \<Rightarrow> Inr (None, s1))"

text \<open>The first free entry of a sector.\<close>

definition slot_visit :: "64 word \<Rightarrow> byte list \<Rightarrow> unit \<Rightarrow> (64 word \<times> nat) scan \<times> unit" where
  "slot_visit lba sec u =
     (case find (\<lambda>i. sec ! (i * 32) = 0 \<or> sec ! (i * 32) = 0xE5) [0..<16] of
        None \<Rightarrow> (Go, u) | Some i \<Rightarrow> (Hit (lba, i * 32), u))"

fun slot_chain :: "'d ata \<Rightarrow> nat \<Rightarrow> 32 word \<Rightarrow> 32 word \<Rightarrow> 'd fat \<Rightarrow> ((64 word \<times> nat) scan \<times> 32 word, 'd) fres" where
  "slot_chain hw 0 prev c s = Inl OutOfFuel"
| "slot_chain hw (Suc n) prev c s =
     (if c < EOC then
        (case scan_sectors hw slot_visit (clus_sectors s c) () s of
           ((Go, _), s1) \<Rightarrow> let (c', s2) = fat_next hw c s1 in slot_chain hw n c c' s2
         | ((r, _), s1) \<Rightarrow> Inr ((r, c), s1))
      else Inr ((Go, prev), s))"

fun zero_sectors :: "'d ata \<Rightarrow> 64 word list \<Rightarrow> 'd fat \<Rightarrow> bool \<times> 'd fat" where
  "zero_sectors hw [] s = (True, s)"
| "zero_sectors hw (l # ls) s =
     (let (ok, s1) = wr_blk hw l (replicate 512 0) s in if \<not> ok then (False, s1) else zero_sectors hw ls s1)"

definition dir_slot :: "'d ata \<Rightarrow> nat \<Rightarrow> 32 word \<Rightarrow> 'd fat \<Rightarrow> ((64 word \<times> nat) option, 'd) fres" where
  "dir_slot hw fuel dirclus s =
     bindr (slot_chain hw fuel 0 dirclus s) (\<lambda>r s1.
       case r of
         (Hit x, _) \<Rightarrow> Inr (Some x, s1)
       | (Bad, _) \<Rightarrow> Inr (None, s1)
       | (_, prev) \<Rightarrow>
         if prev = 0 then Inr (None, s1)
         else
           let (nc, s2) = alloc_clus hw s1 in
           if nc = 0 then Inr (None, s2)
           else
             let (ok3, s3) = zero_sectors hw (clus_sectors s2 nc) s2 in
             if \<not> ok3 then Inr (None, s3)
             else
               let (ok4, s4) = fat_set hw prev nc s3 in
               if \<not> ok4 then Inr (None, s4)
               else
                 let lba = clus_lba s4 nc; (ok5, s5) = rd_sec hw lba s4 in
                 if \<not> ok5 then Inr (None, s5) else Inr (Some (lba, 0), s5))"

text \<open>The data sectors of one cluster; the bytes still to write are returned.\<close>

fun write_sectors :: "'d ata \<Rightarrow> 64 word list \<Rightarrow> byte list \<Rightarrow> 'd fat \<Rightarrow> (bool \<times> byte list) \<times> 'd fat" where
  "write_sectors hw [] buf s = ((True, buf), s)"
| "write_sectors hw (l # ls) buf s =
     (if buf = [] then ((True, buf), s)
      else
        let s1 = s\<lparr>ft_sec := take 512 buf @ replicate (512 - length buf) 0\<rparr>;
            (ok, s2) = wr_blk hw l (ft_sec s1) s1 in
        if \<not> ok then ((False, drop 512 buf), s2) else write_sectors hw ls (drop 512 buf) s2)"

text \<open>
  The allocation loop of \<open>fat_write\<close>; the result is \<open>newclus\<close>, or \<open>None\<close> where the function frees the
  chain and returns -1.
\<close>

fun write_chain :: "'d ata \<Rightarrow> nat \<Rightarrow> 32 word \<Rightarrow> 32 word \<Rightarrow> byte list \<Rightarrow> 'd fat \<Rightarrow> (32 word option, 'd) fres" where
  "write_chain hw 0 newclus tail buf s = Inl OutOfFuel"
| "write_chain hw (Suc n) newclus tail buf s =
     (if buf = [] then Inr (Some newclus, s)
      else
        let (c, s1) = alloc_clus hw s;
            fail = (\<lambda>nc s. bindr (free_chain hw n nc s) (\<lambda>_ s'. Inr (None, s'))) in
        if c = 0 then fail newclus s1
        else
          let (ok2, s2) = (if newclus = 0 then (True, s1) else fat_set hw tail c s1);
              newclus' = (if newclus = 0 then c else newclus) in
          if \<not> ok2 then fail newclus' s2
          else
            (case write_sectors hw (clus_sectors s2 c) buf s2 of
               ((False, _), s3) \<Rightarrow> fail newclus' s3
             | ((True, buf'), s3) \<Rightarrow> write_chain hw n newclus' c buf' s3))"

text \<open>The end of \<open>fat_write\<close>: the directory entry, then the old chain.\<close>

definition write_entry :: "'d ata \<Rightarrow> nat \<Rightarrow> 32 word \<Rightarrow> byte list \<Rightarrow> dent option \<Rightarrow> 32 word \<Rightarrow> nat \<Rightarrow> 'd fat \<Rightarrow> (int, 'd) fres" where
  "write_entry hw fuel pclus name83 old newclus len s =
     (let fail = (\<lambda>s. bindr (free_chain hw fuel newclus s) (\<lambda>_ s'. Inr (-1, s')));
          slot = (case old of
              Some (lba, off, _) \<Rightarrow>
                let (ok, s1) = rd_sec hw lba s in Inr (if ok then Some (lba, off) else None, s1)
            | None \<Rightarrow> dir_slot hw fuel pclus s)
      in bindr slot (\<lambda>r s1.
           case r of
             None \<Rightarrow> fail s1
           | Some (lba, off) \<Rightarrow>
             let s2 = s1\<lparr>ft_sec := fill_entry off name83 0x20 newclus (word_of_nat len) (ft_sec s1)\<rparr>;
                 (ok3, s3) = wr_blk hw lba (ft_sec s2) s2 in
             if \<not> ok3 then fail s3
             else case old of
               Some (_, _, _, oldclus, _) \<Rightarrow>
                 if 2 \<le> oldclus then bindr (free_chain hw fuel oldclus s3) (\<lambda>_ s4. Inr (0, s4)) else Inr (0, s3)
             | None \<Rightarrow> Inr (0, s3)))"

definition fat_write :: "'d ata \<Rightarrow> nat \<Rightarrow> cstr \<Rightarrow> byte list \<Rightarrow> 'd fat \<Rightarrow> (int, 'd) fres" where
  "fat_write hw fuel path buf s =
     (case abspath (ft_path s) path of
        AbsOver \<Rightarrow> Inl Overflow
      | AbsBad \<Rightarrow> Inr (-1, s)
      | AbsOk ab \<Rightarrow>
        (case last_slash ab of
           None \<Rightarrow> Inr (-1, s)
         | Some i \<Rightarrow>
           let leaf = take 12 (drop (i + 1) ab);
               par = take (min (i + 1) (PATH_MAX - 1)) ab in
           if drop (i + 1 + length leaf) ab \<noteq> [] then Inr (-1, s)
           else bindr (walk hw fuel (if par \<noteq> [] then par else [slash]) False 0 s) (\<lambda>r s1.
             case r of
               Some (pclus, True, _) \<Rightarrow>
                 (case to83 leaf of
                    None \<Rightarrow> Inr (-1, s1)
                  | Some name83 \<Rightarrow>
                    bindr (lookup hw fuel pclus name83 s1) (\<lambda>old s2.
                      if (case old of Some (_, _, isdir, _) \<Rightarrow> isdir | None \<Rightarrow> False) then Inr (-1, s2)
                      else bindr (write_chain hw fuel 0 0 buf s2) (\<lambda>nc s3.
                        case nc of
                          None \<Rightarrow> Inr (-1, s3)
                        | Some newclus \<Rightarrow> write_entry hw fuel pclus name83 old newclus (length buf) s3)))
             | _ \<Rightarrow> Inr (-1, s1))))"

section \<open>Geometry\<close>

text \<open>Where copy \<open>k\<close> of the entry of cluster \<open>c\<close> lies, and that the copies lie on the drive.\<close>

definition ent_lba :: "'d fat \<Rightarrow> nat \<Rightarrow> 32 word \<Rightarrow> 64 word" where
  "ent_lba s k c = ft_start s + word_of_nat k * ucast (ft_sz s) + (ucast c * 4) div 512"

definition fat_geom :: "64 word \<Rightarrow> 'd fat \<Rightarrow> bool" where
  "fat_geom n s \<longleftrightarrow> unat (ft_start s) + unat (ft_nfats s) * unat (ft_sz s) \<le> unat n \<and> 0 < ft_nfats s"

definition in_fat :: "'d fat \<Rightarrow> 32 word \<Rightarrow> bool" where
  "in_fat s c \<longleftrightarrow> unat c < unat (ft_sz s) * 128"

lemma fat_lba_ent: "fat_lba s c = ent_lba s 0 c"
  by (simp add: fat_lba_def ent_lba_def)

lemma unat_ucast_32_64: "unat (ucast (c :: 32 word) :: 64 word) = unat c"
  using word32_bound [of c] by (simp add: unsigned_ucast_eq take_bit_nat_eq_self)

lemma fat_off_eq: "fat_off c = 4 * (unat c mod 128)"
proof -
  have "unat c * 4 < 2 ^ 64" using word32_bound [of c] by simp
  then show ?thesis
    using mod_mult_mult2 [of "unat c" 4 128]
    by (simp add: fat_off_def unat_mod unat_word_ariths unat_ucast_32_64)
qed

lemma ent_lba_unat:
  assumes "fat_geom n s" "k < unat (ft_nfats s)" "in_fat s c"
  shows "unat (ent_lba s k c) = unat (ft_start s) + k * unat (ft_sz s) + unat c div 128"
    and "ent_lba s k c < n"
proof -
  have d: "unat c div 128 < unat (ft_sz s)" using assms(3) by (simp add: in_fat_def less_mult_imp_div_less)
  have "Suc k * unat (ft_sz s) \<le> unat (ft_nfats s) * unat (ft_sz s)"
    using assms(2) by (intro mult_le_mono1) simp
  then have b: "unat (ft_start s) + k * unat (ft_sz s) + unat c div 128 < unat n"
    using d assms(1) by (simp add: fat_geom_def)
  have n: "unat n < 2 ^ 64" using word64_bound [of n] by simp
  have "unat c * 4 < 2 ^ 64" using word32_bound [of c] by simp
  then have "unat ((ucast c * 4 :: 64 word) div 512) = unat c div 128"
    using div_mult_mult2 [of 4 "unat c" 128] by (simp add: unat_div unat_word_ariths unat_ucast_32_64)
  moreover have "k < 2 ^ 64" using assms(2) word8_bound [of "ft_nfats s"] by simp
  ultimately show u: "unat (ent_lba s k c) = unat (ft_start s) + k * unat (ft_sz s) + unat c div 128"
    using b n by (simp add: ent_lba_def unat_word_ariths unat_of_nat unat_ucast_32_64)
  then show "ent_lba s k c < n" using b by (simp add: word_less_nat_alt)
qed

lemma ent_lba_inj:
  assumes "fat_geom n s" "k < unat (ft_nfats s)" "in_fat s c" "k' < unat (ft_nfats s)" "in_fat s c'"
  shows "ent_lba s k c = ent_lba s k' c' \<longleftrightarrow> k = k' \<and> unat c div 128 = unat c' div 128"
proof -
  let ?z = "unat (ft_sz s)" and ?d = "unat c div 128" and ?d' = "unat c' div 128"
  have d: "?d < ?z" "?d' < ?z" using assms(3,5) by (simp_all add: in_fat_def less_mult_imp_div_less)
  have "ent_lba s k c = ent_lba s k' c' \<longleftrightarrow> k * ?z + ?d = k' * ?z + ?d'"
    using ent_lba_unat(1) [OF assms(1-3)] ent_lba_unat(1) [OF assms(1,4,5)] by (simp add: word_unat_eq_iff)
  also have "\<dots> \<longleftrightarrow> k = k' \<and> ?d = ?d'"
  proof
    assume e: "k * ?z + ?d = k' * ?z + ?d'"
    have "(k * ?z + ?d) div ?z = k" "(k' * ?z + ?d') div ?z = k'" using d by simp_all
    with e have "k = k'" by simp
    with e show "k = k' \<and> ?d = ?d'" by simp
  qed simp
  finally show ?thesis .
qed

lemma fat_off_bound: "fat_off c + 4 \<le> 512"
  by (simp add: fat_off_eq)

section \<open>On a drive\<close>

lemma fat_upd_swap [simp]: "s\<lparr>ft_sec := b, ft_ide := i\<rparr> = s\<lparr>ft_ide := i, ft_sec := b\<rparr>" for s :: "'d fat"
  by (cases s) simp

context ata_drive
begin

lemma rd_sec_ok:
  assumes "ide_ok size phase busy (ft_ide s)" "l < size"
  shows "\<exists>i. rd_sec hw l s = (True, s\<lparr>ft_ide := i, ft_sec := ide_blk sect (ft_ide s) l\<rparr>)
     \<and> ide_ok size phase busy i \<and> ide_blk sect i = ide_blk sect (ft_ide s)"
proof -
  have "l < i_total (ft_ide s)" using assms by (simp add: ide_ok_def)
  from block_read_in [OF assms(1) this] show ?thesis by (auto simp: rd_sec_def)
qed

lemma wr_blk_ok:
  assumes "ide_ok size phase busy (ft_ide s)" "l < size" "length b = 512"
  shows "\<exists>i. wr_blk hw l b s = (True, s\<lparr>ft_ide := i\<rparr>)
     \<and> ide_ok size phase busy i \<and> ide_blk sect i = (ide_blk sect (ft_ide s))(l := b)"
proof -
  have "l < i_total (ft_ide s)" using assms by (simp add: ide_ok_def)
  from block_write_in [OF assms(1) this assms(3)] show ?thesis by (auto simp: wr_blk_def)
qed

text \<open>\<open>fat_set\<close> rewrites the sector of the entry in every copy, and nothing else.\<close>

lemma fat_set_loop_ok:
  assumes "ide_ok size phase busy (ft_ide s)" "fat_geom size s" "in_fat s c"
    and "distinct ks" "\<forall>k \<in> set ks. k < unat (ft_nfats s)"
  shows "\<exists>i b. fat_set_loop hw c v ks s = (True, s\<lparr>ft_ide := i, ft_sec := b\<rparr>)
     \<and> ide_ok size phase busy i
     \<and> ide_blk sect i = (\<lambda>l. if l \<in> (\<lambda>k. ent_lba s k c) ` set ks
          then wr32 (fat_off c) v (ide_blk sect (ft_ide s) l) else ide_blk sect (ft_ide s) l)"
  using assms
proof (induction ks arbitrary: s)
  case Nil
  then show ?case by (intro exI [of _ "ft_ide s"] exI [of _ "ft_sec s"]) simp
next
  case (Cons k ks)
  let ?L = "\<lambda>k. ent_lba s k c" and ?B = "ide_blk sect (ft_ide s)"
  have k: "k < unat (ft_nfats s)" using Cons.prems by simp
  note lt = ent_lba_unat(2) [OF Cons.prems(2) k Cons.prems(3)]
  obtain i1 where i1: "rd_sec hw (?L k) s = (True, s\<lparr>ft_ide := i1, ft_sec := ?B (?L k)\<rparr>)"
    "ide_ok size phase busy i1" "ide_blk sect i1 = ?B"
    using rd_sec_ok [OF Cons.prems(1) lt] by blast
  let ?w = "wr32 (fat_off c) v (?B (?L k))"
  let ?s2 = "s\<lparr>ft_ide := i1, ft_sec := ?w\<rparr>"
  have "length ?w = 512" using block_len [OF Cons.prems(1)] by simp
  then obtain i2 where i2: "wr_blk hw (?L k) ?w ?s2 = (True, ?s2\<lparr>ft_ide := i2\<rparr>)"
    "ide_ok size phase busy i2" "ide_blk sect i2 = ?B(?L k := ?w)"
    using wr_blk_ok [of ?s2 "?L k" ?w] i1 lt by auto
  let ?s3 = "s\<lparr>ft_ide := i2, ft_sec := ?w\<rparr>"
  have step: "fat_set_loop hw c v (k # ks) s = fat_set_loop hw c v ks ?s3"
    using i1(1) i2(1) by (simp add: ent_lba_def)
  have L3: "ent_lba ?s3 = ent_lba s" by (intro ext) (simp add: ent_lba_def)
  have P: "ide_ok size phase busy (ft_ide ?s3)" "fat_geom size ?s3" "in_fat ?s3 c" "distinct ks"
    "\<forall>k \<in> set ks. k < unat (ft_nfats ?s3)"
    using Cons.prems i2(2) by (simp_all add: fat_geom_def in_fat_def)
  have B3: "ide_blk sect (ft_ide ?s3) = ?B(?L k := ?w)" using i2(3) by simp
  obtain i b where ib: "fat_set_loop hw c v ks ?s3 = (True, ?s3\<lparr>ft_ide := i, ft_sec := b\<rparr>)"
    "ide_ok size phase busy i"
    "ide_blk sect i = (\<lambda>l. if l \<in> ?L ` set ks then wr32 (fat_off c) v ((?B(?L k := ?w)) l) else (?B(?L k := ?w)) l)"
    using Cons.IH [OF P] unfolding L3 B3 by blast
  have notin: "?L k \<notin> ?L ` set ks"
    using Cons.prems(4,5) ent_lba_inj [OF Cons.prems(2) k Cons.prems(3) _ Cons.prems(3)] by auto
  show ?case
    using ib notin step by (intro exI [of _ i] exI [of _ b]) (auto simp: fun_eq_iff)
qed

lemma fat_set_ok:
  assumes "ide_ok size phase busy (ft_ide s)" "fat_geom size s" "in_fat s c"
  shows "\<exists>i b. fat_set hw c v s = (True, s\<lparr>ft_ide := i, ft_sec := b\<rparr>) \<and> ide_ok size phase busy i
     \<and> ide_blk sect i = (\<lambda>l. if \<exists>k < unat (ft_nfats s). l = ent_lba s k c
          then wr32 (fat_off c) v (ide_blk sect (ft_ide s) l) else ide_blk sect (ft_ide s) l)"
proof -
  have "l \<in> (\<lambda>k. ent_lba s k c) ` set [0..<unat (ft_nfats s)] \<longleftrightarrow> (\<exists>k < unat (ft_nfats s). l = ent_lba s k c)" for l
    by auto
  then show ?thesis
    using fat_set_loop_ok [OF assms, of "[0..<unat (ft_nfats s)]" v] unfolding fat_set_def by simp
qed

end

text \<open>Entry \<open>c\<close> of copy \<open>k\<close> of the FAT, as it stands on the drive.\<close>

definition fent :: "('d \<Rightarrow> 64 word \<Rightarrow> 16 word list) \<Rightarrow> 'd fat \<Rightarrow> nat \<Rightarrow> 32 word \<Rightarrow> 32 word" where
  "fent sect s k c = rd32 (ide_blk sect (ft_ide s) (ent_lba s k c)) (fat_off c)"

lemma fat_off_disjoint:
  "unat c div 128 = unat c' div 128 \<Longrightarrow> c \<noteq> c' \<Longrightarrow> fat_off c + 4 \<le> fat_off c' \<or> fat_off c' + 4 \<le> fat_off c"
proof -
  assume "unat c div 128 = unat c' div 128" "c \<noteq> c'"
  then have "unat c mod 128 \<noteq> unat c' mod 128" by (metis div_mod_decomp word_unat_eq_iff)
  then show ?thesis by (auto simp: fat_off_eq)
qed

context ata_drive
begin

lemma fat_set_fent:
  assumes "ide_ok size phase busy (ft_ide s)" "fat_geom size s" "in_fat s c"
  shows "\<exists>i b. fat_set hw c v s = (True, s\<lparr>ft_ide := i, ft_sec := b\<rparr>) \<and> ide_ok size phase busy i
     \<and> (\<forall>k c'. k < unat (ft_nfats s) \<longrightarrow> in_fat s c' \<longrightarrow>
          fent sect (s\<lparr>ft_ide := i, ft_sec := b\<rparr>) k c' = (if c' = c then v else fent sect s k c'))
     \<and> (\<forall>l. (\<forall>k < unat (ft_nfats s). l \<noteq> ent_lba s k c) \<longrightarrow> ide_blk sect i l = ide_blk sect (ft_ide s) l)"
proof -
  obtain i b where i: "fat_set hw c v s = (True, s\<lparr>ft_ide := i, ft_sec := b\<rparr>)" "ide_ok size phase busy i"
    "ide_blk sect i = (\<lambda>l. if \<exists>k < unat (ft_nfats s). l = ent_lba s k c
       then wr32 (fat_off c) v (ide_blk sect (ft_ide s) l) else ide_blk sect (ft_ide s) l)"
    using fat_set_ok [OF assms] by blast
  have "fent sect (s\<lparr>ft_ide := i, ft_sec := b\<rparr>) k c' = (if c' = c then v else fent sect s k c')"
    if k: "k < unat (ft_nfats s)" and c': "in_fat s c'" for k c'
  proof -
    have L: "ent_lba (s\<lparr>ft_ide := i, ft_sec := b\<rparr>) k c' = ent_lba s k c'" by (simp add: ent_lba_def)
    let ?B = "ide_blk sect (ft_ide s) (ent_lba s k c')"
    have len: "length ?B = 512" by (rule block_len [OF assms(1)])
    have hit: "(\<exists>j < unat (ft_nfats s). ent_lba s k c' = ent_lba s j c) \<longleftrightarrow> unat c' div 128 = unat c div 128"
      using ent_lba_inj [OF assms(2) k c' _ assms(3)] k by blast
    show ?thesis
    proof (cases "unat c' div 128 = unat c div 128")
      case True
      then have "ide_blk sect i (ent_lba s k c') = wr32 (fat_off c) v ?B" using hit i(3) by simp
      moreover have "c' \<noteq> c \<Longrightarrow> fat_off c' + 4 \<le> fat_off c \<or> fat_off c + 4 \<le> fat_off c'"
        using fat_off_disjoint True by blast
      ultimately show ?thesis
        using le32.get_put [of "fat_off c" ?B v] le32.get_put_disjoint [of "fat_off c'" "fat_off c" v ?B]
          fat_off_bound [of c] len by (auto simp: fent_def L)
    next
      case False
      then show ?thesis using hit i(3) by (auto simp: fent_def L)
    qed
  qed
  moreover have "ide_blk sect i l = ide_blk sect (ft_ide s) l" if "\<forall>k < unat (ft_nfats s). l \<noteq> ent_lba s k c" for l
    using that i(3) by auto
  ultimately show ?thesis using i(1,2) by blast
qed

end

section \<open>Chains\<close>

text \<open>\<open>cl\<close> is the chain that starts at \<open>c\<close> when \<open>f\<close> gives the FAT entries.\<close>

fun is_chain :: "(32 word \<Rightarrow> 32 word) \<Rightarrow> 32 word \<Rightarrow> 32 word list \<Rightarrow> bool" where
  "is_chain f c [] \<longleftrightarrow> \<not> (2 \<le> c \<and> c < EOC)"
| "is_chain f c (x # xs) \<longleftrightarrow> x = c \<and> 2 \<le> c \<and> c < EOC \<and> is_chain f (f c AND 0x0FFFFFFF) xs"

lemma is_chain_unique: "is_chain f c cl \<Longrightarrow> is_chain f c ds \<Longrightarrow> cl = ds"
proof (induction cl arbitrary: c ds)
  case Nil
  then show ?case by (cases ds) auto
next
  case (Cons x cl)
  then show ?case by (cases ds) auto
qed

lemma is_chain_suffix: "is_chain f c cl \<Longrightarrow> x \<in> set cl \<Longrightarrow> \<exists>ys. is_chain f x ys \<and> length ys \<le> length cl"
proof (induction cl arbitrary: c)
  case (Cons y cl)
  show ?case
  proof (cases "x = y")
    case True
    then show ?thesis using Cons.prems by (intro exI [of _ "y # cl"]) simp
  next
    case False
    then show ?thesis using Cons.IH [of "f c AND 0x0FFFFFFF"] Cons.prems by (auto intro: le_SucI)
  qed
qed simp

lemma is_chain_distinct: "is_chain f c cl \<Longrightarrow> distinct cl"
proof (induction cl arbitrary: c)
  case (Cons x cl)
  have "x \<notin> set cl"
  proof
    assume "x \<in> set cl"
    moreover have "is_chain f (f c AND 0x0FFFFFFF) cl" using Cons.prems by simp
    ultimately obtain ys where "is_chain f x ys" "length ys \<le> length cl"
      using is_chain_suffix by blast
    moreover have "is_chain f x (x # cl)" using Cons.prems by simp
    ultimately show False using is_chain_unique [of f x ys "x # cl"] by simp
  qed
  then show ?case using Cons by auto
qed simp

lemma is_chain_cong: "is_chain f c cl \<Longrightarrow> (\<And>x. x \<in> set cl \<Longrightarrow> g x = f x) \<Longrightarrow> is_chain g c cl"
  by (induction cl arbitrary: c) auto

section \<open>Allocation\<close>

text \<open>
  Volumes of the size FAT32 allows: at most \<open>2 ^ 28\<close> entries, so the 32-bit arithmetic of
  \<open>alloc_clus\<close> does not wrap.
\<close>

definition fat28 :: "'d fat \<Rightarrow> bool" where
  "fat28 s \<longleftrightarrow> 0 < ft_sz s \<and> unat (ft_sz s) * 128 \<le> 2 ^ 28 \<and> unat (ft_hint s) \<le> 2 ^ 28"

definition alloc_cand :: "'d fat \<Rightarrow> 32 word \<Rightarrow> 32 word" where
  "alloc_cand s i = 2 + (ft_hint s + i) mod (if fat_max s - 2 > 0 then fat_max s - 2 else 1)"

lemma fat_max_unat: "fat28 s \<Longrightarrow> unat (fat_max s) = unat (ft_sz s) * 128 \<and> 128 \<le> unat (fat_max s)"
proof -
  assume f: "fat28 s"
  then have "0 < unat (ft_sz s)" by (simp add: fat28_def word_less_nat_alt)
  with f show ?thesis by (simp add: fat28_def fat_max_def unat_word_ariths)
qed

lemma in_fat_max: "fat28 s \<Longrightarrow> in_fat s c \<longleftrightarrow> c < fat_max s"
  using fat_max_unat [of s] by (simp add: in_fat_def word_less_nat_alt)

lemma alloc_cand_unat:
  assumes "fat28 s" "unat i \<le> 2 ^ 28"
  shows "unat (alloc_cand s i) = 2 + (unat (ft_hint s) + unat i) mod (unat (fat_max s) - 2)"
    and "2 \<le> alloc_cand s i" "alloc_cand s i < fat_max s"
proof -
  let ?m = "unat (fat_max s)"
  have m: "128 \<le> ?m" "?m \<le> 2 ^ 28" using fat_max_unat [OF assms(1)] assms(1) by (simp_all add: fat28_def)
  have m2: "unat (fat_max s - 2) = ?m - 2" using m(1) by (subst unat_sub) (simp_all add: word_le_nat_alt)
  then have "fat_max s - 2 > 0" using m(1) by (simp add: word_less_nat_alt)
  moreover have "unat (ft_hint s + i) = unat (ft_hint s) + unat i"
    using assms by (simp add: fat28_def unat_word_ariths)
  ultimately have r: "unat ((ft_hint s + i) mod (if fat_max s - 2 > 0 then fat_max s - 2 else 1)) =
      (unat (ft_hint s) + unat i) mod (?m - 2)" by (simp add: unat_mod m2)
  have lt: "(unat (ft_hint s) + unat i) mod (?m - 2) < ?m - 2" using m(1) by simp
  show u: "unat (alloc_cand s i) = 2 + (unat (ft_hint s) + unat i) mod (?m - 2)"
  proof -
    let ?r = "(ft_hint s + i) mod (if fat_max s - 2 > 0 then fat_max s - 2 else 1)"
    have "2 + unat ?r < 4294967296" using r lt m(1) m(2) [simplified] by linarith
    then have "unat (2 + ?r) = 2 + unat ?r" by (simp add: unat_word_ariths(1) del: unat_mod)
    then show ?thesis unfolding alloc_cand_def r .
  qed
  show "2 \<le> alloc_cand s i" "alloc_cand s i < fat_max s"
    using u lt by (simp_all add: word_le_nat_alt word_less_nat_alt)
qed

lemma fent_upd [simp]:
  "fent sect (s\<lparr>ft_hint := h\<rparr>) = fent sect s" "fent sect (s\<lparr>ft_ide := i, ft_sec := b, ft_hint := h\<rparr>) = fent sect (s\<lparr>ft_ide := i, ft_sec := b\<rparr>)"
  by (intro ext; simp add: fent_def ent_lba_def)+

lemma fent_cong: "ide_blk sect i = ide_blk sect (ft_ide s) \<Longrightarrow> fent sect (s\<lparr>ft_ide := i, ft_sec := b\<rparr>) = fent sect s"
  by (intro ext) (simp add: fent_def ent_lba_def)

context ata_drive
begin

abbreviation dok :: "'d fat \<Rightarrow> bool" where
  "dok s \<equiv> ide_ok size phase busy (ft_ide s) \<and> fat_geom size s"

lemma read_entry_ok:
  assumes "dok s" "in_fat s c"
  shows "\<exists>i b. rd_sec hw (fat_lba s c) s = (True, s\<lparr>ft_ide := i, ft_sec := b\<rparr>)
     \<and> rd32 b (fat_off c) = fent sect s 0 c \<and> ide_ok size phase busy i \<and> ide_blk sect i = ide_blk sect (ft_ide s)"
proof -
  have "0 < unat (ft_nfats s)" using assms(1) by (simp add: fat_geom_def word_less_nat_alt)
  then have "ent_lba s 0 c < size" using ent_lba_unat(2) assms by blast
  then show ?thesis using rd_sec_ok [of s "ent_lba s 0 c"] assms(1) by (auto simp: fat_lba_ent fent_def)
qed

lemma fat_next_ok:
  assumes "dok s" "in_fat s c"
  shows "\<exists>i b. fat_next hw c s = (fent sect s 0 c AND 0x0FFFFFFF, s\<lparr>ft_ide := i, ft_sec := b\<rparr>)
     \<and> ide_ok size phase busy i \<and> ide_blk sect i = ide_blk sect (ft_ide s)"
proof -
  obtain i b where "rd_sec hw (fat_lba s c) s = (True, s\<lparr>ft_ide := i, ft_sec := b\<rparr>)"
    "rd32 b (fat_off c) = fent sect s 0 c" "ide_ok size phase busy i" "ide_blk sect i = ide_blk sect (ft_ide s)"
    using read_entry_ok [OF assms] by blast
  then show ?thesis by (intro exI [of _ i] exI [of _ b]) (simp add: fat_next_def)
qed

text \<open>What \<open>alloc_clus\<close> leaves behind when it takes cluster \<open>c\<close>, and when it finds none.\<close>

definition took :: "'d fat \<Rightarrow> 32 word \<Rightarrow> 'd fat \<Rightarrow> bool" where
  "took s c s' \<longleftrightarrow> (\<exists>i b. s' = s\<lparr>ft_ide := i, ft_sec := b, ft_hint := c\<rparr> \<and> ide_ok size phase busy i
     \<and> (\<forall>k c'. k < unat (ft_nfats s) \<longrightarrow> in_fat s c' \<longrightarrow>
          fent sect s' k c' = (if c' = c then 0x0FFFFFFF else fent sect s k c'))
     \<and> (\<forall>l. (\<forall>k < unat (ft_nfats s). l \<noteq> ent_lba s k c) \<longrightarrow> ide_blk sect i l = ide_blk sect (ft_ide s) l))"

definition kept :: "'d fat \<Rightarrow> 'd fat \<Rightarrow> bool" where
  "kept s s' \<longleftrightarrow> (\<exists>i b. s' = s\<lparr>ft_ide := i, ft_sec := b\<rparr> \<and> ide_ok size phase busy i
     \<and> ide_blk sect i = ide_blk sect (ft_ide s))"

lemma keptI:
  "ide_ok size phase busy i \<Longrightarrow> ide_blk sect i = ide_blk sect (ft_ide s) \<Longrightarrow> kept s (s\<lparr>ft_ide := i, ft_sec := b\<rparr>)"
  unfolding kept_def by blast

lemma kept_trans:
  assumes "kept s s1" "kept s1 s2"
  shows "kept s s2"
proof -
  obtain i b where 1: "s1 = s\<lparr>ft_ide := i, ft_sec := b\<rparr>" "ide_blk sect i = ide_blk sect (ft_ide s)"
    using assms(1) unfolding kept_def by blast
  obtain j d where "s2 = s1\<lparr>ft_ide := j, ft_sec := d\<rparr>" "ide_ok size phase busy j" "ide_blk sect j = ide_blk sect (ft_ide s1)"
    using assms(2) unfolding kept_def by blast
  with 1 show ?thesis by (simp add: keptI)
qed

lemma kept_cfg:
  assumes "kept s s'" "dok s"
  shows "dok s'" "fat28 s' = fat28 s" "in_fat s' = in_fat s" "fent sect s' = fent sect s"
    "alloc_cand s' = alloc_cand s" "fat_max s' = fat_max s" "ft_nfats s' = ft_nfats s" "ent_lba s' = ent_lba s"
    "ide_blk sect (ft_ide s') = ide_blk sect (ft_ide s)"
proof -
  obtain i b where i: "s' = s\<lparr>ft_ide := i, ft_sec := b\<rparr>" "ide_ok size phase busy i" "ide_blk sect i = ide_blk sect (ft_ide s)"
    using assms(1) unfolding kept_def by blast
  then show "dok s'" "fat28 s' = fat28 s" "in_fat s' = in_fat s" "alloc_cand s' = alloc_cand s"
    "fat_max s' = fat_max s" "ft_nfats s' = ft_nfats s" "ent_lba s' = ent_lba s"
    "ide_blk sect (ft_ide s') = ide_blk sect (ft_ide s)"
    using assms(2)
    by (simp_all add: fat_geom_def fat28_def in_fat_def alloc_cand_def fat_max_def ent_lba_def fun_eq_iff)
  show "fent sect s' = fent sect s" unfolding i(1) by (rule fent_cong [OF i(3)])
qed

lemma took_kept:
  assumes "kept s s1" "dok s" "took s1 c s2"
  shows "took s c s2"
proof -
  obtain i b where 1: "s1 = s\<lparr>ft_ide := i, ft_sec := b\<rparr>" using assms(1) unfolding kept_def by blast
  obtain j d where 2: "s2 = s1\<lparr>ft_ide := j, ft_sec := d, ft_hint := c\<rparr>" "ide_ok size phase busy j"
     "\<forall>k c'. k < unat (ft_nfats s1) \<longrightarrow> in_fat s1 c' \<longrightarrow>
          fent sect s2 k c' = (if c' = c then 0x0FFFFFFF else fent sect s1 k c')"
     "\<forall>l. (\<forall>k < unat (ft_nfats s1). l \<noteq> ent_lba s1 k c) \<longrightarrow> ide_blk sect j l = ide_blk sect (ft_ide s1) l"
    using assms(3) unfolding took_def by blast
  have "s2 = s\<lparr>ft_ide := j, ft_sec := d, ft_hint := c\<rparr>" using 1 2(1) by simp
  then show ?thesis
    using 2(2-4) unfolding took_def kept_cfg [OF assms(1,2)] by blast
qed

lemma alloc_loop_ok:
  assumes "dok s" "fat28 s" "unat i + n \<le> 2 ^ 28"
  shows "(\<exists>j < n. fst (alloc_loop hw n i s) = alloc_cand s (i + word_of_nat j)
            \<and> fent sect s 0 (alloc_cand s (i + word_of_nat j)) = 0
            \<and> took s (alloc_cand s (i + word_of_nat j)) (snd (alloc_loop hw n i s)))
     \<or> (fst (alloc_loop hw n i s) = 0 \<and> kept s (snd (alloc_loop hw n i s))
            \<and> (\<forall>j < n. fent sect s 0 (alloc_cand s (i + word_of_nat j)) \<noteq> 0))"
  using assms
proof (induction n arbitrary: i s)
  case 0
  then have "kept s (s\<lparr>ft_ide := ft_ide s, ft_sec := ft_sec s\<rparr>)" by (intro keptI) auto
  then show ?case by simp
next
  case (Suc n)
  let ?c = "alloc_cand s i"
  note c = alloc_cand_unat [OF Suc.prems(2), of i]
  have inf: "in_fat s ?c" using c Suc.prems in_fat_max [of s ?c] by simp
  obtain i1 b1 where r: "rd_sec hw (fat_lba s ?c) s = (True, s\<lparr>ft_ide := i1, ft_sec := b1\<rparr>)"
    "rd32 b1 (fat_off ?c) = fent sect s 0 ?c" "ide_ok size phase busy i1" "ide_blk sect i1 = ide_blk sect (ft_ide s)"
    using read_entry_ok [OF Suc.prems(1) inf] by blast
  let ?s1 = "s\<lparr>ft_ide := i1, ft_sec := b1\<rparr>"
  have k1: "kept s ?s1" using r by (intro keptI)
  note k = kept_cfg [OF k1 Suc.prems(1)]
  have nge: "\<not> ?c \<ge> fat_max s" using c Suc.prems(3) by simp
  show ?case
  proof (cases "fent sect s 0 ?c = 0")
    case True
    have inf1: "in_fat ?s1 ?c" using inf k(3) by simp
    obtain i2 b2 where f: "fat_set hw ?c 0x0FFFFFFF ?s1 = (True, ?s1\<lparr>ft_ide := i2, ft_sec := b2\<rparr>)" "ide_ok size phase busy i2"
       "\<forall>k c'. k < unat (ft_nfats ?s1) \<longrightarrow> in_fat ?s1 c' \<longrightarrow>
          fent sect (?s1\<lparr>ft_ide := i2, ft_sec := b2\<rparr>) k c' = (if c' = ?c then 0x0FFFFFFF else fent sect ?s1 k c')"
       "\<forall>l. (\<forall>k < unat (ft_nfats ?s1). l \<noteq> ent_lba ?s1 k ?c) \<longrightarrow> ide_blk sect i2 l = ide_blk sect (ft_ide ?s1) l"
      using fat_set_fent [OF conjunct1 [OF k(1)] conjunct2 [OF k(1)] inf1, of "0x0FFFFFFF"] by blast
    have "alloc_loop hw (Suc n) i s = (?c, ?s1\<lparr>ft_ide := i2, ft_sec := b2, ft_hint := ?c\<rparr>)"
      using r True f(1) nge by (simp add: alloc_cand_def Let_def)
    moreover have "took ?s1 ?c (?s1\<lparr>ft_ide := i2, ft_sec := b2, ft_hint := ?c\<rparr>)"
      unfolding took_def using f(2-4) by (intro exI [of _ i2] exI [of _ b2]) simp
    ultimately show ?thesis using took_kept [OF k1 Suc.prems(1)] True by (intro disjI1 exI [of _ 0]) simp
  next
    case False
    have step: "alloc_loop hw (Suc n) i s = alloc_loop hw n (i + 1) ?s1"
      using r False nge by (simp add: alloc_cand_def Let_def)
    have i1: "unat (i + 1) = unat i + 1" using Suc.prems(3) by (simp add: unat_word_ariths)
    have sh: "i + 1 + word_of_nat j = i + word_of_nat (Suc j)" for j by (simp add: algebra_simps)
    note IH = Suc.IH [of ?s1 "i + 1", unfolded k sh]
    have "(\<exists>j < n. fst (alloc_loop hw n (i + 1) ?s1) = alloc_cand s (i + word_of_nat (Suc j))
            \<and> fent sect s 0 (alloc_cand s (i + word_of_nat (Suc j))) = 0
            \<and> took ?s1 (alloc_cand s (i + word_of_nat (Suc j))) (snd (alloc_loop hw n (i + 1) ?s1)))
     \<or> (fst (alloc_loop hw n (i + 1) ?s1) = 0 \<and> kept ?s1 (snd (alloc_loop hw n (i + 1) ?s1))
            \<and> (\<forall>j < n. fent sect s 0 (alloc_cand s (i + word_of_nat (Suc j))) \<noteq> 0))"
      using IH k(1) Suc.prems i1 by simp
    then show ?thesis
    proof (elim disjE exE conjE)
      fix j assume "j < n" "fst (alloc_loop hw n (i + 1) ?s1) = alloc_cand s (i + word_of_nat (Suc j))"
        "fent sect s 0 (alloc_cand s (i + word_of_nat (Suc j))) = 0"
        "took ?s1 (alloc_cand s (i + word_of_nat (Suc j))) (snd (alloc_loop hw n (i + 1) ?s1))"
      then show ?thesis
        unfolding step using took_kept [OF k1 Suc.prems(1)] by (intro disjI1 exI [of _ "Suc j"]) simp
    next
      assume "fst (alloc_loop hw n (i + 1) ?s1) = 0" "kept ?s1 (snd (alloc_loop hw n (i + 1) ?s1))"
        and all: "\<forall>j < n. fent sect s 0 (alloc_cand s (i + word_of_nat (Suc j))) \<noteq> 0"
      moreover have "fent sect s 0 (alloc_cand s (i + word_of_nat j)) \<noteq> 0" if "j < Suc n" for j
        using all False that by (cases j) auto
      ultimately show ?thesis unfolding step using kept_trans [OF k1] by blast
    qed
  qed
qed

lemma alloc_covers:
  assumes "fat28 s" "2 \<le> c" "c < fat_max s"
  shows "\<exists>j < unat (fat_max s). alloc_cand s (word_of_nat j) = c"
proof -
  let ?M = "unat (fat_max s) - 2" and ?h = "unat (ft_hint s)"
  have m: "128 \<le> unat (fat_max s)" "unat (fat_max s) \<le> 2 ^ 28"
    using fat_max_unat [OF assms(1)] assms(1) by (simp_all add: fat28_def)
  let ?r = "unat c - 2"
  have r: "?r < ?M" using assms(2,3) m by (simp add: word_less_nat_alt word_le_nat_alt)
  define j where "j = (?r + ?M - ?h mod ?M) mod ?M"
  have M: "0 < ?M" using m by simp
  have j: "j < ?M" using M by (simp add: j_def)
  have "(?h + j) mod ?M = ?r"
  proof -
    have hm: "?h mod ?M < ?M" using M by simp
    have "(?h + j) mod ?M = (?h mod ?M + (?r + ?M - ?h mod ?M)) mod ?M"
      by (simp add: j_def mod_add_left_eq mod_add_right_eq)
    also have "?h mod ?M + (?r + ?M - ?h mod ?M) = ?r + ?M" using hm by linarith
    also have "(?r + ?M) mod ?M = ?r" using mod_less [OF r] by (simp only: mod_add_self2)
    finally show ?thesis .
  qed
  moreover have uj: "unat (word_of_nat j :: 32 word) = j" using j m by (simp add: unat_of_nat)
  ultimately have "unat (alloc_cand s (word_of_nat j)) = 2 + ?r"
    using alloc_cand_unat(1) [OF assms(1), of "word_of_nat j"] j m by simp
  also have "\<dots> = unat c" using assms(2) by (simp add: word_le_nat_alt)
  finally show ?thesis using j by (intro exI [of _ j]) (simp add: word_unat_eq_iff)
qed

lemma alloc_clus_ok:
  assumes "dok s" "fat28 s" "alloc_clus hw s = (c, s')"
  shows "if c = 0 then kept s s' \<and> (\<forall>c'. 2 \<le> c' \<longrightarrow> c' < fat_max s \<longrightarrow> fent sect s 0 c' \<noteq> 0)
         else 2 \<le> c \<and> c < fat_max s \<and> fent sect s 0 c = 0 \<and> took s c s'"
proof -
  have m: "unat (fat_max s) \<le> 2 ^ 28" using fat_max_unat [OF assms(2)] assms(2) by (simp add: fat28_def)
  have al: "alloc_loop hw (unat (fat_max s)) 0 s = (c, s')" using assms(3) by (simp add: alloc_clus_def)
  consider (hit) j where "j < unat (fat_max s)" "c = alloc_cand s (word_of_nat j)"
      "fent sect s 0 (alloc_cand s (word_of_nat j)) = 0" "took s (alloc_cand s (word_of_nat j)) s'"
    | (none) "c = 0" "kept s s'" "\<forall>j < unat (fat_max s). fent sect s 0 (alloc_cand s (word_of_nat j)) \<noteq> 0"
    using alloc_loop_ok [OF assms(1,2), of 0 "unat (fat_max s)"] m unfolding al by auto
  then show ?thesis
  proof cases
    case hit
    then have "unat (word_of_nat j :: 32 word) \<le> 2 ^ 28" using m by (simp add: unat_of_nat)
    note ac = alloc_cand_unat(2,3) [OF assms(2) this]
    then have "c \<noteq> 0" using hit(2) by (auto simp: word_le_nat_alt)
    then show ?thesis using hit ac by simp
  next
    case none
    then show ?thesis using alloc_covers [OF assms(2)] by metis
  qed
qed

text \<open>Freeing a chain clears exactly its entries, in every copy.\<close>

lemma free_chain_ok:
  assumes "dok s" "is_chain (fent sect s 0) c cl" "\<forall>x \<in> set cl. in_fat s x" "length cl < n"
  shows "\<exists>i b. free_chain hw n c s = Inr ((), s\<lparr>ft_ide := i, ft_sec := b\<rparr>) \<and> ide_ok size phase busy i
     \<and> (\<forall>k x. k < unat (ft_nfats s) \<longrightarrow> in_fat s x \<longrightarrow>
          fent sect (s\<lparr>ft_ide := i, ft_sec := b\<rparr>) k x = (if x \<in> set cl then 0 else fent sect s k x))"
  using assms
proof (induction cl arbitrary: n c s)
  case Nil
  then obtain n' where "n = Suc n'" by (cases n) auto
  then show ?case using Nil by (intro exI [of _ "ft_ide s"] exI [of _ "ft_sec s"]) auto
next
  case (Cons x cl)
  then obtain n' where n: "n = Suc n'" "length cl < n'" by (cases n) auto
  have c: "x = c" "2 \<le> c" "c < EOC" "is_chain (fent sect s 0) (fent sect s 0 c AND 0x0FFFFFFF) cl"
    using Cons.prems(2) by auto
  have inf: "in_fat s c" using Cons.prems(3) c(1) by simp
  have nfats: "0 < unat (ft_nfats s)" using Cons.prems(1) by (simp add: fat_geom_def word_less_nat_alt)
  obtain i1 b1 where r: "rd_sec hw (fat_lba s c) s = (True, s\<lparr>ft_ide := i1, ft_sec := b1\<rparr>)"
    "rd32 b1 (fat_off c) = fent sect s 0 c" "ide_ok size phase busy i1" "ide_blk sect i1 = ide_blk sect (ft_ide s)"
    using read_entry_ok [OF Cons.prems(1) inf] by blast
  let ?s1 = "s\<lparr>ft_ide := i1, ft_sec := b1\<rparr>"
  have k1: "kept s ?s1" using r by (intro keptI)
  note k = kept_cfg [OF k1 Cons.prems(1)]
  have inf1: "in_fat ?s1 c" using inf k(3) by simp
  obtain i2 b2 where f: "fat_set hw c 0 ?s1 = (True, ?s1\<lparr>ft_ide := i2, ft_sec := b2\<rparr>)" "ide_ok size phase busy i2"
     "\<forall>k c'. k < unat (ft_nfats ?s1) \<longrightarrow> in_fat ?s1 c' \<longrightarrow>
        fent sect (?s1\<lparr>ft_ide := i2, ft_sec := b2\<rparr>) k c' = (if c' = c then 0 else fent sect ?s1 k c')"
    using fat_set_fent [OF conjunct1 [OF k(1)] conjunct2 [OF k(1)] inf1, of 0] by blast
  let ?s2 = "s\<lparr>ft_ide := i2, ft_sec := b2\<rparr>"
  have f2: "fent sect ?s2 k c' = (if c' = c then 0 else fent sect s k c')" if "k < unat (ft_nfats s)" "in_fat s c'" for k c'
    using f(3) that unfolding k by simp
  have nc: "c \<notin> set cl" using is_chain_distinct [OF Cons.prems(2)] c(1) by simp
  have chn: "is_chain (fent sect ?s2 0) (fent sect s 0 c AND 0x0FFFFFFF) cl"
    using c(4) by (rule is_chain_cong) (use f2 nfats Cons.prems(3) nc in auto)
  have P: "dok ?s2" "\<forall>x \<in> set cl. in_fat ?s2 x" using Cons.prems f(2) by (auto simp: fat_geom_def in_fat_def)
  obtain i b where ib: "free_chain hw n' (fent sect s 0 c AND 0x0FFFFFFF) ?s2 = Inr ((), ?s2\<lparr>ft_ide := i, ft_sec := b\<rparr>)"
      "ide_ok size phase busy i"
     "\<forall>k x. k < unat (ft_nfats ?s2) \<longrightarrow> in_fat ?s2 x \<longrightarrow>
          fent sect (?s2\<lparr>ft_ide := i, ft_sec := b\<rparr>) k x = (if x \<in> set cl then 0 else fent sect ?s2 k x)"
    using Cons.IH [OF P(1) chn P(2) n(2)] by blast
  have "free_chain hw n c s = Inr ((), s\<lparr>ft_ide := i, ft_sec := b\<rparr>)"
    using n(1) c r f(1) ib(1) by simp
  moreover have "fent sect (s\<lparr>ft_ide := i, ft_sec := b\<rparr>) k x' = (if x' \<in> set (x # cl) then 0 else fent sect s k x')"
    if "k < unat (ft_nfats s)" "in_fat s x'" for k x'
    using ib(3) f2 that c(1) by (auto simp: in_fat_def)
  ultimately show ?case using ib(2) by blast
qed

end

section \<open>Properties: the allocation table\<close>

text \<open>A small volume on the simulated drive: reserved sector, two FATs of one sector, data.\<close>

definition sim_vol :: "sim fat" where
  "sim_vol = \<lparr>ft_ide = \<lparr>i_total = 2048, i_present = True, i_dev = i_dev sim0\<rparr>, ft_sec = replicate 512 0,
     ft_start = 1, ft_data = 3, ft_spc = 1, ft_nfats = 2, ft_sz = 1, ft_root = 2, ft_cwd = 2,
     ft_path = [slash], ft_mnt = True, ft_hint = 2\<rparr>"

lemma sim_vol_ok:
  "ide_ok 2048 sm_phase sm_busy (ft_ide sim_vol)" "fat_geom 2048 sim_vol" "fat28 sim_vol" "in_fat sim_vol 5"
  "fat_max sim_vol = 128"
  by (simp_all add: sim_vol_def ide_ok_def sim0_def fat_geom_def fat28_def in_fat_def fat_max_def)

lemma sim_vol_fent: "k < 2 \<Longrightarrow> fent sim_sect sim_vol k c = 0"
proof -
  have z: "ide_blk sim_sect (ft_ide sim_vol) l ! i = 0" if "i < 512" for l i
    using that by (simp add: ide_blk_def sim_sect_def sim_vol_def sim0_def nth_bytes_of)
  show ?thesis using fat_off_bound [of c] by (simp add: fent_def rd32_def z)
qed







end
