(* ===== verification/Fatdir.thy ===== *)
theory Fatdir
  imports Fat
begin

text \<open>
  What the FAT driver does with names, directory entries, paths and boot sectors: a name stored
  by \<open>fat_write\<close> is the name \<open>walk\<close> finds, a filled directory entry reads back, absolute paths are
  brought to their canonical form, and where relative paths and failed mounts go wrong.
\<close>

section \<open>8.3 names\<close>

lemma to83_base_Some:
  "to83_base n x acc = Some (b, r) \<Longrightarrow>
     \<exists>u. x = u @ r \<and> b = acc @ map upper u \<and> length u \<le> n \<and> (\<forall>c \<in> set u. c \<noteq> 46 \<and> valid83 (upper c))"
proof (induction n x acc rule: to83_base.induct)
  case (3 n c cin acc)
  show ?case
  proof (cases "c = 46")
    case True
    then show ?thesis using "3.prems" by (intro exI [of _ "[]"]) simp
  next
    case False
    then have v: "valid83 (upper c)" and p: "to83_base n cin (acc @ [upper c]) = Some (b, r)"
      using "3.prems" by (auto split: if_splits)
    obtain u where "cin = u @ r \<and> b = (acc @ [upper c]) @ map upper u \<and> length u \<le> n
        \<and> (\<forall>c \<in> set u. c \<noteq> 46 \<and> valid83 (upper c))"
      using "3.IH" [OF False _ p] v by auto
    then show ?thesis using False v by (intro exI [of _ "c # u"]) simp
  qed
qed auto

lemma to83_ext_Some:
  "to83_ext n x acc = Some (b, r) \<Longrightarrow>
     \<exists>u. x = u @ r \<and> b = acc @ map upper u \<and> length u \<le> n \<and> (\<forall>c \<in> set u. valid83 (upper c))"
proof (induction n x acc rule: to83_ext.induct)
  case (3 n c cin acc)
  then have v: "valid83 (upper c)" and p: "to83_ext n cin (acc @ [upper c]) = Some (b, r)"
    by (auto split: if_splits)
  obtain u where "cin = u @ r \<and> b = (acc @ [upper c]) @ map upper u \<and> length u \<le> n
      \<and> (\<forall>c \<in> set u. valid83 (upper c))"
    using "3.IH" [OF _ p] v by auto
  then show ?case using v by (intro exI [of _ "c # u"]) simp
qed auto

lemma to83_SomeE:
  assumes "to83 leaf = Some n83"
  obtains u v where "leaf = u \<and> v = [] \<or> leaf = u @ 46 # v" "n83 = pad 8 (map upper u) @ pad 3 (map upper v)"
    "u \<noteq> []" "length u \<le> 8" "length v \<le> 3" "\<forall>c \<in> set u \<union> set v. valid83 (upper c)"
proof -
  obtain b r where b: "to83_base 8 leaf [] = Some (b, r)" "\<not> (r \<noteq> [] \<and> hd r \<noteq> 46)"
    using assms by (auto simp: to83_def split: option.splits if_splits)
  obtain u where u: "leaf = u @ r" "b = map upper u" "length u \<le> 8" "\<forall>c \<in> set u. valid83 (upper c)"
    using to83_base_Some [OF b(1)] by auto
  show thesis
  proof (cases "r = []")
    case True
    then show ?thesis using that [of u "[]"] assms b u by (auto simp: to83_def split: if_splits)
  next
    case False
    then obtain v where r: "r = 46 # v" using b(2) by (cases r) auto
    then obtain e where e: "to83_ext 3 v [] = Some (e, [])" "n83 = pad 8 b @ pad 3 e" "b \<noteq> []"
      using assms b by (auto simp: to83_def split: option.splits if_splits)
    then show ?thesis using that [of u v] to83_ext_Some [OF e(1)] u r by auto
  qed
qed

lemma valid83_neq: "valid83 c \<Longrightarrow> c \<noteq> 32 \<and> c \<noteq> 0 \<and> c \<noteq> 46 \<and> c \<noteq> 0xE5"
  by (auto simp: valid83_def word_le_nat_alt)

lemma takeWhile_pad:
  "\<forall>c \<in> set xs. valid83 c \<Longrightarrow> takeWhile (\<lambda>c. c \<noteq> 32) (pad n xs) = xs"
  unfolding pad_def by (subst takeWhile_append2) (auto dest: valid83_neq simp: takeWhile_replicate)

lemma length_pad: "length xs \<le> n \<Longrightarrow> length (pad n xs) = n"
  by (simp add: pad_def)

lemma name_match_upper: "name_match (map upper x) x"
  by (induction x) simp_all

section \<open>Directory entries\<close>

lemma nth_put_bytes:
  assumes "p + length bs \<le> length xs"
  shows "i < length xs \<Longrightarrow> put_bytes p bs xs ! i = (if p \<le> i \<and> i < p + length bs then bs ! (i - p) else xs ! i)"
    and "length (put_bytes p bs xs) = length xs"
  using assms by (auto simp: put_bytes_def nth_append min_def)

lemma fill_entry_nth:
  assumes "e + 32 \<le> length sec" "length n83 = 11"
  shows "length (fill_entry e n83 a cl z sec) = length sec"
    and "\<And>i. i < length sec \<Longrightarrow> i < e \<or> e + 32 \<le> i \<Longrightarrow> fill_entry e n83 a cl z sec ! i = sec ! i"
    and "\<And>i. i < 12 \<Longrightarrow> fill_entry e n83 a cl z sec ! (e + i) = (n83 @ [a]) ! i"
    and "rd32 (fill_entry e n83 a cl z sec) (e + 28) = z"
    and "rd16 (fill_entry e n83 a cl z sec) (e + 26) = ucast cl"
    and "rd16 (fill_entry e n83 a cl z sec) (e + 20) = ucast (drop_bit 16 cl)"
proof -
  let ?s0 = "put_bytes e (n83 @ [a] @ replicate 8 0) sec"
  let ?s1 = "wr16 (e + 20) (ucast (drop_bit 16 cl AND 0xFFFF)) ?s0"
  let ?s2 = "wr16 (e + 22) 0x0021 ?s1"
  let ?s3 = "wr16 (e + 24) 0x0021 ?s2"
  let ?s4 = "wr16 (e + 26) (ucast (cl AND 0xFFFF)) ?s3"
  have f: "fill_entry e n83 a cl z sec = wr32 (e + 28) z ?s4" by (simp add: fill_entry_def Let_def)
  have p: "e + length (n83 @ [a] @ replicate 8 0) \<le> length sec" using assms by simp
  have l0: "length ?s0 = length sec" by (rule nth_put_bytes(2) [OF p])
  show "length (fill_entry e n83 a cl z sec) = length sec" unfolding f using l0 by simp
  have out: "fill_entry e n83 a cl z sec ! i = ?s0 ! i" if "i < e + 20 \<or> e + 32 \<le> i" for i
  proof -
    have "i < e + 28 \<or> e + 28 + 4 \<le> i" "i < e + 26 \<or> e + 26 + 2 \<le> i" "i < e + 24 \<or> e + 24 + 2 \<le> i"
      "i < e + 22 \<or> e + 22 + 2 \<le> i" "i < e + 20 \<or> e + 20 + 2 \<le> i" using that by linarith+
    then show ?thesis unfolding f by (simp only: le32.nth_put le16.nth_put)
  qed
  show "fill_entry e n83 a cl z sec ! i = sec ! i" if "i < length sec" "i < e \<or> e + 32 \<le> i" for i
    using that assms out [of i] nth_put_bytes(1) [OF p, of i] by auto
  show "fill_entry e n83 a cl z sec ! (e + i) = (n83 @ [a]) ! i" if "i < 12" for i
    using that assms out [of "e + i"] nth_put_bytes(1) [OF p, of "e + i"] by (auto simp: nth_append)
  show "rd32 (fill_entry e n83 a cl z sec) (e + 28) = z"
    unfolding f by (rule le32.get_put) (use l0 assms in simp)
  have w: "ucast (x AND 0xFFFF) = (ucast x :: 16 word)" for x :: "32 word"
  proof -
    have m: "(0xFFFF :: 32 word) = mask 16" by (simp add: mask_eq_exp_minus_1)
    show ?thesis unfolding m by (rule bit_word_eqI) (auto simp: bit_simps)
  qed
  have r16: "rd16 (wr32 (e + 28) z xs) q = rd16 xs q" if "q + 2 \<le> e + 28" for xs q
    by (rule le16.get_cong) (use that in \<open>simp add: le32.nth_put\<close>)
  show "rd16 (fill_entry e n83 a cl z sec) (e + 26) = ucast cl"
    unfolding f using l0 assms by (simp add: r16 le16.get_put w)
  show "rd16 (fill_entry e n83 a cl z sec) (e + 20) = ucast (drop_bit 16 cl)"
    unfolding f using l0 assms by (simp add: r16 le16.get_put le16.get_put_disjoint w)
qed

lemma entry_clus_join:
  assumes "rd16 sec (e + 26) = ucast cl" "rd16 sec (e + 20) = ucast (drop_bit 16 cl)"
  shows "entry_clus sec e = (cl :: 32 word)"
proof -
  have *: "push_bit 16 (ucast a) OR push_bit 24 (ucast b) = push_bit 16 (ucast (ucast a OR push_bit 8 (ucast b) :: 16 word) :: 32 word)"
    for a b :: byte
    by (rule bit_word_eqI) (auto simp: bit_simps dest: bit_imp_le_length)
  have "entry_clus sec e = push_bit 16 (ucast (rd16 sec (e + 20))) OR ucast (rd16 sec (e + 26))"
    unfolding entry_clus_def rd16_def [of sec "e + 20"] or.assoc [symmetric] * by (simp add: add.commute)
  also have "\<dots> = cl"
  proof (rule bit_word_eqI)
    fix k assume "k < LENGTH(32)"
    then consider "k < 16" | "16 \<le> k" "k < 32" by force
    then show "bit (push_bit 16 (ucast (rd16 sec (e + 20))) OR ucast (rd16 sec (e + 26)) :: 32 word) k = bit cl k"
      unfolding assms by cases (auto simp: bit_simps)
  qed
  finally show ?thesis .
qed

text \<open>
  A directory entry reads back (C28): for a leaf name accepted by \<open>to83\<close> and not ending in a dot, the
  entry that \<open>fat_write\<close> fills in has, for \<open>walk\<close>, the upper-case spelling of that name, which
  matches the name as given; \<open>lookup\<close>'s comparison matches it; its first cluster and size are those
  written; and no byte outside its 32 bytes has changed.
\<close>

theorem directory_entry_round_trip:
  assumes "to83 leaf = Some n83" "last leaf \<noteq> 46" "e + 32 \<le> length sec"
  shows "entry_name (fill_entry e n83 0x20 clus fsize sec) e = Some (map upper leaf)
     \<and> name_match (map upper leaf) leaf
     \<and> entry_match83 (fill_entry e n83 0x20 clus fsize sec) e n83
     \<and> entry_clus (fill_entry e n83 0x20 clus fsize sec) e = clus
     \<and> rd32 (fill_entry e n83 0x20 clus fsize sec) (e + 28) = fsize
     \<and> fill_entry e n83 0x20 clus fsize sec ! (e + 11) AND ATTR_DIR = 0
     \<and> (\<forall>i < length sec. i < e \<or> e + 32 \<le> i \<longrightarrow> fill_entry e n83 0x20 clus fsize sec ! i = sec ! i)"
proof -
  obtain u v where l: "leaf = u \<and> v = [] \<or> leaf = u @ 46 # v"
    and n: "n83 = pad 8 (map upper u) @ pad 3 (map upper v)"
    and u: "u \<noteq> []" "length u \<le> 8" and v: "length v \<le> 3" and val: "\<forall>c \<in> set u \<union> set v. valid83 (upper c)"
    using to83_SomeE [OF assms(1)] by metis
  let ?f = "fill_entry e n83 0x20 clus fsize sec"
  have len: "length n83 = 11" using n u v by (simp add: length_pad)
  note F = fill_entry_nth [OF assms(3) len, where a = "0x20" and cl = clus and z = fsize]
  have at: "?f ! (e + i) = n83 ! i" if "i < 11" for i using F(3) [of i] that len by (simp add: nth_append)
  have a11: "?f ! (e + 11) = 0x20" using F(3) [of 11] len by (simp add: nth_append)
  have m8: "map (\<lambda>i. ?f ! (e + i)) [0..<8] = pad 8 (map upper u)"
    using at n u by (intro nth_equalityI) (simp_all add: length_pad nth_append)
  have m3: "map (\<lambda>i. ?f ! (e + i)) [8..<11] = pad 3 (map upper v)"
    using at n u v by (intro nth_equalityI) (simp_all add: length_pad nth_append del: upt_rec_numeral)
  have valm: "\<forall>c \<in> set (map upper u). valid83 c" "\<forall>c \<in> set (map upper v). valid83 c" using val by auto
  obtain c0 u' where c0: "u = c0 # u'" using u by (cases u) auto
  have "?f ! e = upper c0" using at [of 0] n c0 by (simp add: pad_def)
  then have e0: "?f ! e \<noteq> 0" "?f ! e \<noteq> 0xE5" using valid83_neq [of "upper c0"] val c0 by auto
  have e8: "?f ! (e + 8) \<noteq> 32 \<longleftrightarrow> v \<noteq> []"
  proof -
    have "?f ! (e + 8) = pad 3 (map upper v) ! 0" using at [of 8] n u by (simp add: nth_append length_pad)
    then show ?thesis using valid83_neq val by (cases v) (auto simp: pad_def)
  qed
  have v46: "leaf = u @ 46 # v \<Longrightarrow> v \<noteq> []" using assms(2) by auto
  have up46: "upper 46 = 46" by (simp add: upper_def)
  let ?out = "map upper u @ (if v \<noteq> [] then 46 # map upper v else [])"
  have out: "?out = map upper leaf" using l v46 up46 by (cases "v = []") auto
  have nz: "takeWhile (\<lambda>c. c \<noteq> 0) ?out = ?out"
    using valm valid83_neq by (subst takeWhile_eq_all_conv) auto
  have nd: "?out \<noteq> dot" "?out \<noteq> dotdot" using c0 valid83_neq [of "upper c0"] val by auto
  have "entry_name ?f e = Some ?out"
  proof -
    have "(if ?f ! (e + 8) \<noteq> 32 then 46 # map upper v else []) = (if v \<noteq> [] then 46 # map upper v else [])"
      using e8 by simp
    then show ?thesis
      unfolding entry_name_def Let_def m8 m3 takeWhile_pad [OF valm(1)] takeWhile_pad [OF valm(2)]
      using e0 a11 nd by (simp only: nz name_same_eq) simp
  qed
  moreover have "entry_match83 ?f e n83" using at by (simp add: entry_match83_def list_all_iff del: upt_rec_numeral)
  moreover have "entry_clus ?f e = clus" using F(5,6) by (rule entry_clus_join)
  ultimately show ?thesis using out name_match_upper F(2,4) a11 by simp
qed

theorem directory_entry_round_trip_witness:
  "to83 [97, 46, 116] = Some [65, 32, 32, 32, 32, 32, 32, 32, 84, 32, 32] \<and>
   entry_name (fill_entry 32 [65, 32, 32, 32, 32, 32, 32, 32, 84, 32, 32] 0x20 7 9 (replicate 512 0)) 32 = Some [65, 46, 84]"
proof -
  have t: "to83 [97, 46, 116] = Some [65, 32, 32, 32, 32, 32, 32, 32, 84, 32, 32]" by code_simp
  have "map upper [97, 46, 116] = [65, 46, 84]" by (simp add: upper_def)
  then show ?thesis
    using directory_entry_round_trip [OF t, of 32 "replicate 512 0" 7 9] t by simp
qed

section \<open>Paths\<close>

lemma abs_loop_skip: "skip_slash p = [] \<Longrightarrow> length out < PATH_MAX \<Longrightarrow> abs_loop out p = AbsOk out"
  by (subst abs_loop.simps) simp

definition canon_step :: "cstr \<Rightarrow> cstr list \<Rightarrow> cstr list" where
  "canon_step x ps = (if x = dot then ps else if x = dotdot then butlast ps else ps @ [x])"

text \<open>The directory names a path goes through, with \<open>.\<close> and \<open>..\<close> resolved by name.\<close>

definition canon :: "cstr list \<Rightarrow> cstr list \<Rightarrow> cstr list" where
  "canon ps xs = fold canon_step xs ps"

definition plain_names :: "cstr list \<Rightarrow> bool" where
  "plain_names ps \<longleftrightarrow> (\<forall>x \<in> set ps. x \<noteq> [] \<and> slash \<notin> set x)"

lemma render_snoc: "render (ps @ [x]) = (if ps = [] then slash # x else render ps @ slash # x)"
  by (simp add: render_def)

lemma render_len: "plain_names ps \<Longrightarrow> length (render ps) > 1 \<longleftrightarrow> ps \<noteq> []"
  by (cases ps) (auto simp: render_def plain_names_def length_greater_0_conv [symmetric] simp del: length_greater_0_conv)

lemma abs_strip_app: "slash \<notin> set x \<Longrightarrow> abs_strip (out @ slash # x) = out @ [slash]"
proof (induction x rule: rev_induct)
  case Nil
  then show ?case by (subst abs_strip.simps) simp
next
  case (snoc c x)
  then show ?case by (subst abs_strip.simps) (auto simp: butlast_append)
qed

lemma abs_up_render:
  assumes "plain_names ps"
  shows "abs_up (render ps) = render (butlast ps)"
proof (cases ps rule: rev_cases)
  case Nil
  then show ?thesis by (simp add: abs_up_def render_def abs_strip.simps)
next
  case (snoc qs x)
  have x: "slash \<notin> set x" and q: "plain_names qs" using assms snoc by (auto simp: plain_names_def)
  show ?thesis
  proof (cases "qs = []")
    case True
    then show ?thesis using snoc abs_strip_app [OF x, of "[]"] by (simp add: abs_up_def render_snoc render_def)
  next
    case False
    then have "length (render qs) > 1" using render_len [OF q] by simp
    then show ?thesis
      using snoc abs_strip_app [OF x, of "render qs"] False by (auto simp: abs_up_def render_snoc Let_def)
  qed
qed

lemma abs_comp_ok: "length out + length x < PATH_MAX \<Longrightarrow> abs_comp out x = Some (out @ x)"
  by (induction x arbitrary: out) simp_all

lemma length_render: "length (render ps) \<le> 1 + sum_list (map (\<lambda>x. length x + 1) ps)"
proof -
  have "length (concat (map ((#) slash) ps)) = sum_list (map (\<lambda>x. length x + 1) ps)"
    by (simp add: length_concat comp_def)
  then show ?thesis by (simp add: render_def)
qed

abbreviation weight :: "cstr list \<Rightarrow> nat" where
  "weight ps \<equiv> sum_list (map (\<lambda>x. length x + 1) ps)"

lemma parts_step:
  assumes "skip_slash p \<noteq> []"
  shows "parts p = takeWhile (\<lambda>c. c \<noteq> slash) (skip_slash p) # parts (dropWhile (\<lambda>c. c \<noteq> slash) (skip_slash p))"
  using assms by (subst parts.simps) (simp add: Let_def)

lemma weight_butlast: "weight (butlast ps) \<le> weight ps"
  by (cases ps rule: rev_cases) simp_all

lemma plain_names_step:
  "plain_names ps \<Longrightarrow> x \<noteq> [] \<Longrightarrow> slash \<notin> set x \<Longrightarrow> plain_names (canon_step x ps)"
  by (auto simp: canon_step_def plain_names_def dest: in_set_butlastD)

lemma weight_step: "weight (canon_step x ps) \<le> weight ps + length x + 1"
  using weight_butlast [of ps] by (auto simp: canon_step_def)

lemma abs_loop_canon:
  assumes "plain_names ps" "\<forall>x \<in> set (parts p). length x \<le> 12" "weight ps + weight (parts p) + 1 < PATH_MAX"
  shows "abs_loop (render ps) p = AbsOk (render (canon ps (parts p)))"
  using assms
proof (induction p arbitrary: ps rule: parts.induct)
  case (1 p)
  show ?case
  proof (cases "skip_slash p = []")
    case True
    then have "parts p = []" by (simp add: parts_eq_Nil)
    then show ?thesis using True abs_loop_skip length_render [of ps] "1.prems"(3) by (simp add: canon_def)
  next
    case False
    let ?x = "takeWhile (\<lambda>c. c \<noteq> slash) (skip_slash p)" and ?q = "dropWhile (\<lambda>c. c \<noteq> slash) (skip_slash p)"
    note pp = parts_step [OF False]
    have x: "length ?x \<le> 12" "?x \<noteq> []" "slash \<notin> set ?x"
    proof -
      show "length ?x \<le> 12" using "1.prems"(2) pp by simp
      show "?x \<noteq> []" using False skip_slash_hd by (cases "skip_slash p") auto
      show "slash \<notin> set ?x" by (auto dest: set_takeWhileD)
    qed
    have cmp: "path_comp (skip_slash p) = ?x" using x(1) by (simp add: path_comp_def)
    have q: "drop (length ?x) (skip_slash p) = ?q" by (simp add: dropWhile_eq_drop)
    have hdq: "?q \<noteq> [] \<Longrightarrow> hd ?q = slash" using hd_dropWhile [of "\<lambda>c. c \<noteq> slash"] by blast
    let ?ps = "canon_step ?x ps"
    have w: "weight ps + length ?x + 1 + weight (parts ?q) + 1 < PATH_MAX" using "1.prems"(3) pp by simp
    have IH: "abs_loop (render ?ps) ?q = AbsOk (render (canon ?ps (parts ?q)))"
      using "1.IH" [OF refl False plain_names_step [OF "1.prems"(1) x(2,3)]] "1.prems"(2) pp w
        weight_step [of ?x ps] by simp
    have len: "length (render ps) > 1 \<longleftrightarrow> ps \<noteq> []" by (rule render_len [OF "1.prems"(1)])
    have nb: "(?q \<noteq> [] \<and> hd ?q \<noteq> slash) = False" using hdq by blast
    have st: "abs_loop (render ps) p = (if ?x = dot then abs_loop (render ps) ?q
        else if ?x = dotdot then abs_loop (abs_up (render ps)) ?q
        else if length (render ps) > 1 \<and> length (render ps) \<ge> PATH_MAX then AbsOver
        else (case abs_comp (if length (render ps) > 1 then render ps @ [slash] else render ps) ?x of
               None \<Rightarrow> AbsBad | Some out' \<Rightarrow> abs_loop out' ?q))"
      using False by (subst abs_loop.simps) (simp only: Let_def cmp q nb name_same_eq if_False)
    have "abs_loop (render ps) p = abs_loop (render ?ps) ?q"
    proof -
      consider "?x = dot" | "?x = dotdot" | "?x \<noteq> dot" "?x \<noteq> dotdot" by blast
      then show ?thesis
      proof cases
        case 1
        then show ?thesis unfolding st by (simp add: canon_step_def)
      next
        case 2
        then show ?thesis unfolding st using abs_up_render [OF "1.prems"(1)] by (simp add: canon_step_def)
      next
        case 3
        let ?out = "if length (render ps) > 1 then render ps @ [slash] else render ps"
        have o: "?out @ ?x = render (ps @ [?x])"
          using len by (cases "ps = []") (simp_all add: render_snoc, simp add: render_def)
        have lr: "length ?out \<le> 1 + weight ps + 1" "length (render ps) < PATH_MAX"
          using length_render [of ps] w by auto
        have "length ?out + length ?x < PATH_MAX"
        proof (cases "ps = []")
          case True
          then show ?thesis using len w by (simp add: render_def)
        next
          case False
          have "length (render ps) \<le> weight ps"
            using False by (simp add: render_def length_concat comp_def)
          then show ?thesis using w by simp
        qed
        then have "abs_comp ?out ?x = Some (render (ps @ [?x]))" using abs_comp_ok o by simp
        then show ?thesis unfolding st using 3 lr(2) by (simp add: canon_step_def)
      qed
    qed
    then show ?thesis using IH pp by (simp add: canon_def)
  qed
qed

text \<open>
  Absolute paths become canonical: an absolute path whose components have at most 12 bytes and
  whose length stays below the buffer is turned into the path of its components with empty ones and
  \<open>.\<close> dropped and \<open>..\<close> removing the component before it (and staying at the root); no component is
  lost and nothing is written outside the buffer.
\<close>

theorem abspath_canonical:
  assumes "\<forall>x \<in> set (parts p). length x \<le> 12" "sum_list (map (\<lambda>x. length x + 1) (parts p)) + 1 < PATH_MAX"
  shows "abspath cwd (slash # p) = AbsOk (render (canon [] (parts p)))"
proof -
  have "render [] = [slash]" by (simp add: render_def)
  then show ?thesis
    using abs_loop_canon [of "[]" p] assms by (simp add: abspath_def plain_names_def)
qed

theorem abspath_canonical_witness:
  "abspath [] (slash # [97, 47, 46, 46, 47, 98]) = AbsOk [47, 98]"
proof -
  have p: "parts [97, 47, 46, 46, 47, 98] = [[97], [46, 46], [98]]"
    using parts_append_slash [of "[97]" "[46, 46, 47, 98]"] parts_append_slash [of "[46, 46]" "[98]"]
    by (simp add: parts_no_slash)
  show ?thesis
    using abspath_canonical [of "[97, 47, 46, 46, 47, 98]" "[]"]
    by (simp add: p PATH_MAX_def canon_def canon_step_def render_def)
qed

text \<open>
  Relative paths do not: in any directory below the root, \<open>..\<close> leads to the directory itself
  instead of its parent, \<open>.\<close> makes the stored path longer by a slash each time, and once that path has
  255 bytes the next \<open>.\<close> stores a byte behind the 256-byte buffer.
\<close>

theorem relative_paths_go_wrong:
  assumes "ps \<noteq> []" "plain_names ps" "length (render ps) < 255"
  shows "abspath (render ps) dotdot = AbsOk (render ps)
     \<and> abspath (render ps) dot = AbsOk (render ps @ [slash])
     \<and> (length cwd = 255 \<longrightarrow> abspath cwd dot = AbsOver)"
proof -
  have l: "length (render ps) > 1" using render_len [OF assms(2)] assms(1) by simp
  have sk: "skip_slash dot = dot" "skip_slash dotdot = dotdot" "skip_slash [] = []" by (simp_all add: skip_slash_def)
  have cm: "path_comp dot = dot" "path_comp dotdot = dotdot" by (simp_all add: path_comp_def)
  have fin: "abs_loop out [] = (if length out < PATH_MAX then AbsOk out else AbsOver)" for out
    by (subst abs_loop.simps) (simp add: sk)
  have d: "abs_loop out dot = (if length out < PATH_MAX then AbsOk out else AbsOver)" for out
    by (subst abs_loop.simps) (simp add: sk cm fin)
  have dd: "abs_loop out dotdot = (if length (abs_up out) < PATH_MAX then AbsOk (abs_up out) else AbsOver)" for out
    by (subst abs_loop.simps) (simp add: sk cm fin)
  have up: "abs_up (render ps @ [slash]) = render ps"
    using l abs_strip_app [of "[]" "render ps"] by (auto simp: abs_up_def Let_def)
  have hd: "\<not> (dot \<noteq> [] \<and> hd dot = slash)" "\<not> (dotdot \<noteq> [] \<and> hd dotdot = slash)" by simp_all
  have t: "take (PATH_MAX - 1) (render ps) = render ps" using assms(3) by (simp add: PATH_MAX_def)
  show ?thesis
    using assms(3) l unfolding abspath_def if_not_P [OF hd(1)] if_not_P [OF hd(2)] t Let_def
    by (auto simp: d dd up PATH_MAX_def)
qed

theorem relative_paths_go_wrong_witness:
  "abspath [47, 65] dotdot = AbsOk [47, 65] \<and> abspath [47, 65] dot = AbsOk [47, 65, 47]
   \<and> abspath (replicate 255 47) dot = AbsOver"
  using relative_paths_go_wrong [of "[[65]]" "replicate 255 47"] by (simp add: plain_names_def render_def)

section \<open>Mounting\<close>

definition bpb_ok :: "byte list \<Rightarrow> bool" where
  "bpb_ok b \<longleftrightarrow> rd16 b 11 = 512 \<and> b ! 13 \<noteq> 0 \<and> b ! 16 \<noteq> 0 \<and> rd32 b 36 \<noteq> 0 \<and> 2 \<le> rd32 b 44"

text \<open>
  Mounting: \<open>fat_mount\<close> of a partition on the drive succeeds exactly if its first sector has the boot
  signature and a usable BIOS parameter block, and then has the geometry of that block, the root as
  the current directory and no change on the drive. Without the signature the mounted volume is
  left alone; but if only the parameter block is unusable, the call fails and yet has overwritten the
  cluster size, table size and root cluster of the volume that stays mounted.
\<close>

theorem fat_mount_outcomes:
  assumes "ata_drive hw sect ident n phase busy regs" "ide_ok n phase busy (ft_ide s)" "lba < n"
  shows "\<exists>i. ide_ok n phase busy i \<and> ide_blk sect i = ide_blk sect (ft_ide s) \<and>
    (let b = ide_blk sect (ft_ide s) lba; s1 = s\<lparr>ft_ide := i, ft_sec := b\<rparr> in
     if b ! 510 \<noteq> 0x55 \<or> b ! 511 \<noteq> 0xAA then fat_mount hw lba s = (-1, s1)
     else if \<not> bpb_ok b then
       fat_mount hw lba s = (-1, s1\<lparr>ft_spc := b ! 13, ft_sz := rd32 b 36, ft_root := rd32 b 44\<rparr>)
     else fat_mount hw lba s = (0, s1\<lparr>ft_spc := b ! 13, ft_sz := rd32 b 36, ft_root := rd32 b 44,
       ft_nfats := b ! 16, ft_start := lba + ucast (rd16 b 14),
       ft_data := lba + ucast (rd16 b 14) + ucast (b ! 16) * ucast (rd32 b 36),
       ft_cwd := rd32 b 44, ft_path := [slash], ft_mnt := True\<rparr>))"
proof -
  obtain i where i: "rd_sec hw lba s = (True, s\<lparr>ft_ide := i, ft_sec := ide_blk sect (ft_ide s) lba\<rparr>)"
    "ide_ok n phase busy i" "ide_blk sect i = ide_blk sect (ft_ide s)"
    using ata_drive.rd_sec_ok [OF assms] by blast
  show ?thesis
    using i(2,3) by (intro exI [of _ i]) (auto simp: fat_mount_def i(1) Let_def bpb_ok_def linorder_not_le)
qed

text \<open>A drive whose sector 3 has the signature but an empty parameter block.\<close>

definition bad_boot :: "sim fat" where
  "bad_boot = sim_vol\<lparr>ft_ide := \<lparr>i_total = 2048, i_present = True, i_dev =
     (i_dev sim0)\<lparr>sm_disk := (\<lambda>l. if l = 3 then (replicate 256 0)[255 := 0xAA55] else [])\<rparr>\<rparr>\<rparr>"

theorem fat_mount_outcomes_witness:
  "\<exists>s'. fat_mount sim_hw 3 bad_boot = (-1, s') \<and> ft_mnt s' \<and> ft_spc bad_boot = 1 \<and> ft_spc s' = 0"
proof -
  have ok: "ide_ok 2048 sm_phase sm_busy (ft_ide bad_boot)"
    by (simp add: bad_boot_def ide_ok_def sim0_def)
  obtain b where b: "b = ide_blk sim_sect (ft_ide bad_boot) 3" by simp
  have at: "b ! j = (if j = 510 then 0x55 else if j = 511 then 0xAA else 0)" if "j < 512" for j
  proof -
    have "j div 2 = 255 \<longleftrightarrow> j = 510 \<or> j = 511" using that by auto
    then show ?thesis
      unfolding b using that
      by (auto simp: ide_blk_def sim_sect_def bad_boot_def nth_bytes_of nth_list_update)
  qed
  have "b ! 510 = 0x55" "b ! 511 = 0xAA" "b ! 13 = 0" by (simp_all add: at)
  moreover have "ft_mnt bad_boot" "ft_spc bad_boot = 1" by (simp_all add: bad_boot_def sim_vol_def)
  ultimately show ?thesis
    using fat_mount_outcomes [OF sim.ata_drive_axioms ok, of 3] unfolding b [symmetric]
    by (auto simp: bpb_ok_def Let_def)
qed

section \<open>Buffers and termination\<close>

lemma list_entries_bound: "length out \<le> cap \<Longrightarrow> length (snd (list_entries cap sec is out)) \<le> cap"
  by (induction "is" arbitrary: out) (auto simp: Let_def split: option.splits)

lemma scan_sectors_inv:
  assumes "\<And>l b a. P a \<Longrightarrow> P (snd (visit l b a))" "P acc"
  shows "P (snd (fst (scan_sectors hw visit ls acc s)))"
  using assms(2)
proof (induction ls arbitrary: acc s)
  case (Cons l ls)
  obtain ok s1 where r: "rd_sec hw l s = (ok, s1)" by (meson surj_pair)
  obtain sc a where v: "visit l (ft_sec s1) acc = (sc, a)" by (meson surj_pair)
  have "P a" using assms(1) [OF Cons.prems, of l "ft_sec s1"] v by simp
  then show ?case using Cons r v by (cases sc) auto
qed simp

lemma scan_chain_inv:
  assumes "\<And>l b a. P a \<Longrightarrow> P (snd (visit l b a))" "P acc"
    "scan_chain hw visit m c acc s = Inr ((r, acc'), s')"
  shows "P acc'"
  using assms(2,3)
proof (induction m arbitrary: c acc s)
  case (Suc m)
  obtain sc a s1 where v: "scan_sectors hw visit (clus_sectors s c) acc s = ((sc, a), s1)" by (metis surj_pair)
  have "P (snd (fst (scan_sectors hw visit (clus_sectors s c) acc s)))"
    by (rule scan_sectors_inv) (rule assms(1), assumption, rule Suc.prems(1))
  then have a: "P a" using v by simp
  show ?case
  proof (cases "c < EOC")
    case True
    obtain c' s2 where n: "fat_next hw c s1 = (c', s2)" by (meson surj_pair)
    show ?thesis
      using Suc.prems(2) True v a n Suc.IH [OF a, of c' s2] by (cases sc) auto
  next
    case False
    then show ?thesis using Suc.prems by simp
  qed
qed simp

lemma read_sectors_bound:
  "length out \<le> cap \<Longrightarrow> length (snd (fst (read_sectors hw ls cap out s))) \<le> cap"
  by (induction ls arbitrary: out s) (auto simp: Let_def split: prod.splits)

lemma read_chain_bound:
  "length out \<le> cap \<Longrightarrow> read_chain hw m c cap out s = Inr ((r, out'), s') \<Longrightarrow>
     length out' \<le> cap \<and> (r = -1 \<or> r = int (length out'))"
proof (induction m arbitrary: c out s)
  case (Suc m)
  obtain ok o1 s1 where v: "read_sectors hw (clus_sectors s c) cap out s = ((ok, o1), s1)" by (metis surj_pair)
  have "length (snd (fst (read_sectors hw (clus_sectors s c) cap out s))) \<le> cap"
    by (rule read_sectors_bound [OF Suc.prems(1)])
  then have b: "length o1 \<le> cap" using v by simp
  obtain c' s2 where n: "fat_next hw c s1 = (c', s2)" by (meson surj_pair)
  show ?case
    using Suc.prems v b n Suc.IH [OF b, of c' s2] by (cases ok) (auto split: if_splits)
qed simp

text \<open>
  The callers' buffers are safe (C34): whatever the disk holds and whatever the drive answers, a listing
  or a file read from it is never longer than the capacity given, and a result that is not -1 is the
  number of bytes stored.
\<close>

theorem fat_buffers_safe:
  "(fat_list hw fuel path cap s = Inr ((r, out), s') \<longrightarrow> length out \<le> cap \<and> (r = -1 \<or> r = int (length out)))
   \<and> (fat_read hw fuel path cap s = Inr ((r, out), s') \<longrightarrow> length out \<le> cap \<and> (r = -1 \<or> r = int (length out)))"
proof (intro conjI impI)
  assume "fat_list hw fuel path cap s = Inr ((r, out), s')"
  then show "length out \<le> cap" "r = -1 \<or> r = int (length out)"
    using scan_chain_inv [where P = "\<lambda>out. length out \<le> cap" and visit = "\<lambda>l sec out. list_entries cap sec [0..<16] out" and hw = hw and m = fuel and acc = "[]"]
      list_entries_bound
    by (auto simp: fat_list_def bindr_def split: absres.splits sum.splits option.splits bool.splits scan.splits if_splits)
next
  assume "fat_read hw fuel path cap s = Inr ((r, out), s')"
  then show "length out \<le> cap" "r = -1 \<or> r = int (length out)"
    using read_chain_bound [where out = "[]" and hw = hw and m = fuel]
    by (fastforce simp: fat_read_def bindr_def split: absres.splits sum.splits option.splits bool.splits)+
qed

lemma sim_vol_list: "\<exists>s'. fat_list sim_hw 5 [] 100 sim_vol = Inr ((0, []), s')"
proof -
  obtain i where i: "rd_sec sim_hw 3 sim_vol = (True, sim_vol\<lparr>ft_ide := i, ft_sec := ide_blk sim_sect (ft_ide sim_vol) 3\<rparr>)"
    using sim.rd_sec_ok [OF sim_vol_ok(1), of 3] by auto
  have z: "ide_blk sim_sect (ft_ide sim_vol) 3 ! 0 = 0"
    by (simp add: ide_blk_def sim_sect_def sim_vol_def sim0_def nth_bytes_of)
  have c: "clus_sectors sim_vol 2 = [3]" by (simp add: clus_sectors_def clus_lba_def sim_vol_def)
  have a: "abspath (ft_path sim_vol) [] = AbsOk [slash]"
    by (simp add: abspath_def sim_vol_def abs_loop.simps skip_slash_def PATH_MAX_def)
  have u: "[0..<16] = 0 # [1..<16]" by (simp add: upt_conv_Cons del: upt_rec_numeral)
  have "list_entries 100 (ide_blk sim_sect (ft_ide sim_vol) 3) [0..<16] [] = (Halt, [])"
    unfolding u by (simp add: z)
  then have "scan_chain sim_hw (\<lambda>l sec out. list_entries 100 sec [0..<16] out) (Suc 4) 2 [] sim_vol =
      Inr ((Halt, []), sim_vol\<lparr>ft_ide := i, ft_sec := ide_blk sim_sect (ft_ide sim_vol) 3\<rparr>)"
    unfolding scan_chain.simps using i by (simp add: c del: upt_rec_numeral)
  moreover have "ft_cwd sim_vol = 2" by (simp add: sim_vol_def)
  moreover have "Suc 4 = 5" by simp
  ultimately show ?thesis by (simp add: fat_list_def a del: upt_rec_numeral)
qed

theorem fat_buffers_safe_witness:
  "\<exists>r out s'. fat_list sim_hw 5 [] 100 sim_vol = Inr ((r, out), s') \<and> length out \<le> 100"
  using fat_buffers_safe [of sim_hw 5 "[]" 100 sim_vol 0 "[]"] sim_vol_list by fastforce

text \<open>The clusters a directory loop visits; unlike \<open>free_chain\<close> it does not stop at 0 and 1.\<close>

fun dir_chain :: "(32 word \<Rightarrow> 32 word) \<Rightarrow> 32 word \<Rightarrow> 32 word list \<Rightarrow> bool" where
  "dir_chain f c [] \<longleftrightarrow> \<not> c < EOC"
| "dir_chain f c (x # xs) \<longleftrightarrow> x = c \<and> c < EOC \<and> dir_chain f (f c AND 0x0FFFFFFF) xs"

context ata_drive
begin

lemma rd_sec_kept:
  assumes "dok s"
  shows "kept s (snd (rd_sec hw l s))"
proof (cases "l < size")
  case True
  then obtain i where "rd_sec hw l s = (True, s\<lparr>ft_ide := i, ft_sec := ide_blk sect (ft_ide s) l\<rparr>)"
    "ide_ok size phase busy i" "ide_blk sect i = ide_blk sect (ft_ide s)" using rd_sec_ok [of s l] assms by blast
  then show ?thesis using keptI by simp
next
  case False
  then have "ide_read hw l (ft_ide s) = (None, ft_ide s)"
    using assms by (intro block_read_out) (simp_all add: ide_ok_def)
  then have "rd_sec hw l s = (False, s)" by (simp add: rd_sec_def)
  then show ?thesis using keptI [of "ft_ide s" s "ft_sec s"] assms by simp
qed

lemma scan_sectors_kept: "dok s \<Longrightarrow> kept s (snd (scan_sectors hw visit ls acc s))"
proof (induction ls arbitrary: acc s)
  case Nil
  then show ?case using keptI [of "ft_ide s" s "ft_sec s"] by simp
next
  case (Cons l ls)
  obtain ok s1 where r: "rd_sec hw l s = (ok, s1)" by (meson surj_pair)
  have k: "kept s s1" using rd_sec_kept [OF Cons.prems, of l] r by simp
  obtain sc a where v: "visit l (ft_sec s1) acc = (sc, a)" by (meson surj_pair)
  show ?case
    using r v k Cons.IH [OF kept_cfg(1) [OF k Cons.prems], of a] kept_trans [OF k] by (cases sc) auto
qed

lemma scan_chain_returns:
  assumes "dok s" "dir_chain (fent sect s 0) c cl" "\<forall>x \<in> set cl. in_fat s x" "length cl < m"
  shows "\<exists>r s'. scan_chain hw visit m c acc s = Inr (r, s')"
  using assms
proof (induction cl arbitrary: m c acc s)
  case Nil
  then show ?case by (cases m) auto
next
  case (Cons x cl)
  then obtain m' where m: "m = Suc m'" "length cl < m'" by (cases m) auto
  have c: "c < EOC" "in_fat s c" using Cons.prems by auto
  obtain sc a s1 where v: "scan_sectors hw visit (clus_sectors s c) acc s = ((sc, a), s1)" by (metis surj_pair)
  have k1: "kept s s1" using scan_sectors_kept [OF Cons.prems(1), of visit "clus_sectors s c" acc] v by simp
  note K1 = kept_cfg [OF k1 Cons.prems(1)]
  have inf1: "in_fat s1 c" using c(2) K1(3) by simp
  obtain i b where n: "fat_next hw c s1 = (fent sect s1 0 c AND 0x0FFFFFFF, s1\<lparr>ft_ide := i, ft_sec := b\<rparr>)"
    "ide_ok size phase busy i" "ide_blk sect i = ide_blk sect (ft_ide s1)"
    using fat_next_ok [OF K1(1) inf1] by blast
  let ?s2 = "s1\<lparr>ft_ide := i, ft_sec := b\<rparr>"
  have k2: "kept s1 ?s2" using n(2,3) by (rule keptI)
  note K2 = kept_cfg [OF k2 K1(1)]
  have "\<exists>r s'. scan_chain hw visit m' (fent sect s 0 c AND 0x0FFFFFFF) a ?s2 = Inr (r, s')"
    using Cons.IH [of ?s2 "fent sect s 0 c AND 0x0FFFFFFF" m' a] Cons.prems m(2) K2(1) unfolding K2 K1 by auto
  then show ?case using m(1) c(1) v n(1) K1(4) by (cases sc) auto
qed

end



end
