(* ===== verification/Fs.thy ===== *)
theory Fs
  imports Part Fatdir
begin

text \<open>
  The mount switch of \<^verbatim>\<open>kernel/fs.c\<close>: the calls that system calls make go to the RAM file system of
  the theory \<open>Ramfs\<close>, or to the FAT driver of the theory \<open>Fat\<close> while a partition is mounted. The record
  \<open>vfs\<close> joins the static state of \<^verbatim>\<open>fs.c\<close>, \<^verbatim>\<open>fat.c\<close> and \<^verbatim>\<open>part.c\<close>.
\<close>

section \<open>State and operations\<close>

record 'd vfs =
  vf_ram :: ramfs
  vf_mounted :: bool
  vf_idx :: int
  vf_fat :: "'d fat"
  vf_ptab :: ptab

type_synonym ('a, 'd) vres = "fault + ('a \<times> 'd vfs)"

text \<open>A call into the FAT driver: its fault, or its result with the driver's new state.\<close>

definition on_fat :: "'d vfs \<Rightarrow> ('a, 'd) fres \<Rightarrow> ('a, 'd) vres" where
  "on_fat v m = (case m of Inl f \<Rightarrow> Inl f | Inr (a, s) \<Rightarrow> Inr (a, v\<lparr>vf_fat := s\<rparr>))"

definition fs_mount_part :: "'d ata \<Rightarrow> int \<Rightarrow> 'd vfs \<Rightarrow> int \<times> 'd vfs" where
  "fs_mount_part hw idx v =
     (case part_get (vf_ptab v) idx of
        None \<Rightarrow> (FS_BADPATH, v)
      | Some p \<Rightarrow>
        let (r, s) = fat_mount hw (pt_lba p) (vf_fat v); v1 = v\<lparr>vf_fat := s\<rparr> in
        if r \<noteq> 0 then (FS_BADPATH, v1) else (FS_OK, v1\<lparr>vf_mounted := True, vf_idx := idx\<rparr>))"

definition fs_unmount :: "'d vfs \<Rightarrow> 'd vfs" where
  "fs_unmount v = v\<lparr>vf_mounted := False, vf_idx := -1, vf_fat := fat_unmount (vf_fat v)\<rparr>"

definition fs_is_mounted :: "'d vfs \<Rightarrow> bool" where
  "fs_is_mounted v = vf_mounted v"

definition fs_mounted_idx :: "'d vfs \<Rightarrow> int" where
  "fs_mounted_idx v = vf_idx v"

definition fs_mkdir :: "cstr \<Rightarrow> 'd vfs \<Rightarrow> int \<times> 'd vfs" where
  "fs_mkdir arg v =
     (if vf_mounted v then (FS_RO, v)
      else let (r, m) = ram_mkdir (vf_ram v) arg in (r, v\<lparr>vf_ram := m\<rparr>))"

definition fs_fwrite :: "'d ata \<Rightarrow> nat \<Rightarrow> cstr \<Rightarrow> byte list \<Rightarrow> 'd vfs \<Rightarrow> (int, 'd) vres" where
  "fs_fwrite hw fuel path buf v =
     (if vf_mounted v then on_fat v (fat_write hw fuel path buf (vf_fat v))
      else let (r, m) = ram_fwrite (vf_ram v) path buf in Inr (r, v\<lparr>vf_ram := m\<rparr>))"

definition fs_chdir :: "'d ata \<Rightarrow> nat \<Rightarrow> cstr \<Rightarrow> 'd vfs \<Rightarrow> (int, 'd) vres" where
  "fs_chdir hw fuel path v =
     (if vf_mounted v then on_fat v (fat_chdir hw fuel path (vf_fat v))
      else let (r, m) = ram_chdir (vf_ram v) path in Inr (r, v\<lparr>vf_ram := m\<rparr>))"

definition fs_listdir :: "'d ata \<Rightarrow> nat \<Rightarrow> cstr \<Rightarrow> nat \<Rightarrow> 'd vfs \<Rightarrow> (int \<times> byte list, 'd) vres" where
  "fs_listdir hw fuel path cap v =
     (if vf_mounted v then on_fat v (fat_list hw fuel path cap (vf_fat v))
      else Inr (ram_listdir (vf_ram v) path cap, v))"

definition fs_getcwd :: "nat \<Rightarrow> 'd vfs \<Rightarrow> int \<times> cstr" where
  "fs_getcwd cap v = (if vf_mounted v then fat_getcwd (vf_fat v) cap else ram_getcwd (vf_ram v) cap)"

text \<open>
  The choice the system call \<open>SYS_FREAD\<close> makes in \<^verbatim>\<open>syscall.c\<close>: it asks the FAT driver's own flag.
\<close>

definition fs_fread :: "'d ata \<Rightarrow> nat \<Rightarrow> cstr \<Rightarrow> nat \<Rightarrow> 'd vfs \<Rightarrow> (int \<times> byte list, 'd) vres" where
  "fs_fread hw fuel path cap v =
     (if fat_mounted (vf_fat v) then on_fat v (fat_read hw fuel path cap (vf_fat v))
      else Inr (fs_fread_ram (vf_ram v) path cap, v))"

section \<open>The driver keeps the volume\<close>

text \<open>The volume a state of the driver works on. No operation but mounting changes it.\<close>

definition vol :: "'d fat \<Rightarrow> 64 word \<times> 64 word \<times> byte \<times> byte \<times> 32 word \<times> 32 word \<times> bool" where
  "vol s = (ft_start s, ft_data s, ft_spc s, ft_nfats s, ft_sz s, ft_root s, ft_mnt s)"

definition keeps :: "'d fat \<Rightarrow> ('a, 'd) fres \<Rightarrow> bool" where
  "keeps s m \<longleftrightarrow> (case m of Inl _ \<Rightarrow> True | Inr (_, s') \<Rightarrow> vol s' = vol s)"

lemma keeps_simps [simp]: "keeps s (Inl f)" "keeps s (Inr (a, s')) \<longleftrightarrow> vol s' = vol s"
  by (simp_all add: keeps_def)

lemma keeps_eq: "vol s1 = vol s \<Longrightarrow> keeps s1 m = keeps s m"
  by (simp add: keeps_def split: sum.splits)

lemma keeps_bindr:
  assumes "keeps s m" "\<And>a s1. vol s1 = vol s \<Longrightarrow> keeps s1 (k a s1)"
  shows "keeps s (bindr m k)"
  using assms keeps_eq [of _ s] by (cases m) (force simp: keeps_def)+

lemma vol_upd [simp]:
  "vol (s\<lparr>ft_ide := i\<rparr>) = vol s" "vol (s\<lparr>ft_sec := b\<rparr>) = vol s" "vol (s\<lparr>ft_hint := h\<rparr>) = vol s"
  "vol (s\<lparr>ft_cwd := c\<rparr>) = vol s" "vol (s\<lparr>ft_path := p\<rparr>) = vol s"
  by (simp_all add: vol_def)

lemma vol_rd_sec: "rd_sec hw l s = (ok, s') \<Longrightarrow> vol s' = vol s"
  by (auto simp: rd_sec_def split: prod.splits option.splits)

lemma vol_wr_blk: "wr_blk hw l b s = (ok, s') \<Longrightarrow> vol s' = vol s"
  by (auto simp: wr_blk_def split: prod.splits)

lemma vol_fat_next: "fat_next hw c s = (c', s') \<Longrightarrow> vol s' = vol s"
  by (auto simp: fat_next_def dest: vol_rd_sec split: prod.splits if_splits)

lemma vol_scan_sectors: "scan_sectors hw visit ls acc s = (r, s') \<Longrightarrow> vol s' = vol s"
proof (induction ls arbitrary: acc s)
  case (Cons l ls)
  obtain ok s1 where r: "rd_sec hw l s = (ok, s1)" by (meson surj_pair)
  obtain sc a where "visit l (ft_sec s1) acc = (sc, a)" by (meson surj_pair)
  with Cons r vol_rd_sec [OF r] show ?case by (cases sc) (auto split: if_splits)
qed simp

lemma keeps_scan_chain: "keeps s (scan_chain hw visit n c acc s)"
proof (induction n arbitrary: c acc s)
  case (Suc n)
  obtain sc a s1 where v: "scan_sectors hw visit (clus_sectors s c) acc s = ((sc, a), s1)" by (metis surj_pair)
  obtain c' s2 where n: "fat_next hw c s1 = (c', s2)" by (meson surj_pair)
  have "vol s1 = vol s" "vol s2 = vol s" using vol_scan_sectors [OF v] vol_fat_next [OF n] by simp_all
  then show ?case using v n Suc [of s2 c' a] keeps_eq [of s2 s] by (cases sc) auto
qed simp

lemma keeps_walk_loop: "keeps s (walk_loop hw fuel p cur d z s)"
proof (induction "length p" arbitrary: p cur d z s rule: less_induct)
  case less
  let ?p1 = "skip_slash p"
  let ?cmp = "path_comp ?p1"
  let ?p2 = "drop (length ?cmp) ?p1"
  show ?case
  proof (cases "?p1 = [] \<or> (?p2 \<noteq> [] \<and> hd ?p2 \<noteq> slash)")
    case True
    then show ?thesis by (subst walk_loop.simps) (auto simp: Let_def)
  next
    case False
    have k: "keeps s (scan_chain hw (walk_visit ?cmp ?p2) fuel cur () s)" by (rule keeps_scan_chain)
    show ?thesis
    proof (cases "scan_chain hw (walk_visit ?cmp ?p2) fuel cur () s")
      case (Inl f)
      then show ?thesis using False by (subst walk_loop.simps) (auto simp: Let_def)
    next
      case (Inr r)
      obtain sc u s1 where r: "r = ((sc, u), s1)" by (metis surj_pair)
      have v: "vol s1 = vol s" using k Inr r by simp
      show ?thesis
      proof (cases sc)
        case (Hit x)
        obtain cl d' z' where x: "x = (cl, d', z')" by (metis surj_pair)
        have "length ?p2 < length p" using False comp_decr by simp
        then have "keeps s (walk_loop hw fuel ?p2 cl d' z1 s1)" for z1
          using less keeps_eq [OF v] by blast
        then show ?thesis
          using False Inr r Hit x v by (subst walk_loop.simps) (auto simp: Let_def)
      qed (use False Inr r v in \<open>subst walk_loop.simps, auto simp: Let_def\<close>)+
    qed
  qed
qed

lemma keeps_walk: "keeps s (walk hw fuel p d z s)"
  by (simp add: walk_def keeps_walk_loop)

lemma vol_fat_set_loop: "fat_set_loop hw c v ks s = (ok, s') \<Longrightarrow> vol s' = vol s"
proof (induction ks arbitrary: s)
  case (Cons k ks)
  then show ?case
    by (auto simp: Let_def split: prod.splits if_splits dest!: vol_rd_sec vol_wr_blk)
qed simp

lemma vol_fat_set: "fat_set hw c v s = (ok, s') \<Longrightarrow> vol s' = vol s"
  unfolding fat_set_def by (rule vol_fat_set_loop)

lemma vol_alloc_loop: "alloc_loop hw n i s = (c, s') \<Longrightarrow> vol s' = vol s"
proof (induction n arbitrary: i s)
  case (Suc n)
  then show ?case
    by (auto simp: Let_def split: prod.splits if_splits dest!: vol_rd_sec vol_fat_set)
qed simp

lemma vol_alloc_clus: "alloc_clus hw s = (c, s') \<Longrightarrow> vol s' = vol s"
  unfolding alloc_clus_def by (rule vol_alloc_loop)

lemma vol_zero_sectors: "zero_sectors hw ls s = (ok, s') \<Longrightarrow> vol s' = vol s"
  by (induction ls arbitrary: s) (auto simp: Let_def split: prod.splits if_splits dest!: vol_wr_blk)

lemma vol_write_sectors: "write_sectors hw ls buf s = (r, s') \<Longrightarrow> vol s' = vol s"
  by (induction ls arbitrary: buf s) (auto simp: Let_def split: prod.splits if_splits dest!: vol_wr_blk)

lemma vol_read_sectors: "read_sectors hw ls cap out s = (r, s') \<Longrightarrow> vol s' = vol s"
  by (induction ls arbitrary: out s) (auto simp: Let_def split: prod.splits if_splits dest!: vol_rd_sec)

lemmas vol_dest = vol_rd_sec vol_wr_blk vol_fat_next vol_fat_set vol_alloc_clus vol_zero_sectors
  vol_write_sectors vol_read_sectors vol_scan_sectors

lemma keeps_free_chain: "keeps s (free_chain hw n c s)"
proof (induction n arbitrary: c s)
  case (Suc n)
  obtain ok s1 where r: "rd_sec hw (fat_lba s c) s = (ok, s1)" by (meson surj_pair)
  obtain ok2 s2 where f: "fat_set hw c 0 s1 = (ok2, s2)" by (meson surj_pair)
  have "vol s2 = vol s" using vol_rd_sec [OF r] vol_fat_set [OF f] by simp
  then have "keeps s (free_chain hw n x s2)" for x using Suc keeps_eq by blast
  then show ?case using r f by (simp add: Let_def)
qed simp

lemma keeps_slot_chain: "keeps s (slot_chain hw n prev c s)"
proof (induction n arbitrary: prev c s)
  case (Suc n)
  obtain sc a s1 where v: "scan_sectors hw slot_visit (clus_sectors s c) () s = ((sc, a), s1)" by (metis surj_pair)
  obtain c' s2 where n: "fat_next hw c s1 = (c', s2)" by (meson surj_pair)
  have "vol s1 = vol s" "vol s2 = vol s" using vol_scan_sectors [OF v] vol_fat_next [OF n] by simp_all
  then show ?case using v n Suc [of s2 c c'] keeps_eq [of s2 s] by (cases sc) auto
qed simp

lemma keeps_read_chain: "keeps s (read_chain hw n c cap out s)"
proof (induction n arbitrary: c out s)
  case (Suc n)
  obtain ok o1 s1 where v: "read_sectors hw (clus_sectors s c) cap out s = ((ok, o1), s1)" by (metis surj_pair)
  obtain c' s2 where n: "fat_next hw c s1 = (c', s2)" by (meson surj_pair)
  have "vol s1 = vol s" "vol s2 = vol s" using vol_read_sectors [OF v] vol_fat_next [OF n] by simp_all
  then show ?case using v n Suc [of s2 c' o1] keeps_eq [of s2 s] by (cases ok) auto
qed simp

lemma keeps_lookup: "keeps s (lookup hw fuel d n s)"
  unfolding lookup_def
  by (rule keeps_bindr [OF keeps_scan_chain]) (auto split: scan.splits)

lemma keeps_dir_slot: "keeps s (dir_slot hw fuel d s)"
  unfolding dir_slot_def
  by (rule keeps_bindr [OF keeps_slot_chain])
    (auto simp: Let_def split: scan.splits prod.splits dest!: vol_dest)

lemma keeps_fail: "vol s1 = vol s \<Longrightarrow> keeps s (bindr (free_chain hw n c s1) (\<lambda>_ s'. Inr (a, s')))"
  by (subst keeps_eq [symmetric], assumption) (rule keeps_bindr [OF keeps_free_chain], simp)

lemma keeps_write_chain: "keeps s (write_chain hw n nc t buf s)"
proof (induction n arbitrary: nc t buf s)
  case (Suc n)
  obtain c s1 where a: "alloc_clus hw s = (c, s1)" by (meson surj_pair)
  obtain ok2 s2 where f: "(if nc = 0 then (True, s1) else fat_set hw t c s1) = (ok2, s2)" by (meson surj_pair)
  obtain ok3 b3 s3 where w: "write_sectors hw (clus_sectors s2 c) buf s2 = ((ok3, b3), s3)" by (metis surj_pair)
  have v1: "vol s1 = vol s" using vol_alloc_clus [OF a] .
  then have v2: "vol s2 = vol s" using f vol_fat_set by (metis prod.inject)
  then have v3: "vol s3 = vol s" using vol_write_sectors [OF w] by simp
  have k: "keeps s (write_chain hw n x c b3 s3)" for x using Suc keeps_eq [OF v3] by blast
  show ?case
    using a f w keeps_fail [OF v1] keeps_fail [OF v2] keeps_fail [OF v3] k
    by (cases ok3) (auto simp: Let_def)
qed simp

lemma keeps_write_entry: "keeps s (write_entry hw fuel p n old nc len s)"
proof -
  have k: "keeps s (case old of Some (lba, off, _) \<Rightarrow>
        let (ok, s1) = rd_sec hw lba s in Inr (if ok then Some (lba, off) else None, s1)
      | None \<Rightarrow> dir_slot hw fuel p s)"
    by (auto simp: Let_def keeps_dir_slot split: option.splits prod.splits dest!: vol_dest)
  show ?thesis
    unfolding write_entry_def Let_def
    by (rule keeps_bindr [OF k [unfolded Let_def]])
      (auto split: option.splits prod.splits intro!: keeps_fail dest!: vol_dest)
qed

lemma keeps_chdir: "keeps s (fat_chdir hw fuel p s)"
  unfolding fat_chdir_def
  by (auto split: absres.splits bool.splits option.splits intro!: keeps_bindr [OF keeps_walk])

lemma keeps_read: "keeps s (fat_read hw fuel p cap s)"
  unfolding fat_read_def
  by (auto split: absres.splits bool.splits option.splits intro!: keeps_bindr [OF keeps_walk] keeps_read_chain)

lemma keeps_write: "keeps s (fat_write hw fuel p buf s)"
  unfolding fat_write_def Let_def
  by (auto split: absres.splits bool.splits option.splits
      intro!: keeps_bindr [OF keeps_walk] keeps_bindr [OF keeps_lookup] keeps_bindr [OF keeps_write_chain] keeps_write_entry)

lemma keeps_list: "keeps s (fat_list hw fuel p cap s)"
proof -
  have k: "keeps s (if p \<noteq> [] then walk hw fuel ab False 0 s else Inr (Some (ft_cwd s, True, 0), s))" for ab
    by (simp add: keeps_walk)
  show ?thesis
  proof (cases "abspath (ft_path s) p")
    case (AbsOk ab)
    show ?thesis
      unfolding fat_list_def AbsOk absres.case
      by (rule keeps_bindr [OF k])
        (auto split: bool.splits option.splits scan.splits intro!: keeps_bindr [OF keeps_scan_chain])
  qed (simp_all add: fat_list_def)
qed

section \<open>Sequences of calls\<close>

datatype fs_op = OpMkdir cstr | OpFwrite cstr "byte list" | OpChdir cstr | OpList cstr nat | OpRead cstr nat
  | OpMount int | OpUnmount

definition after :: "('a, 'd) vres \<Rightarrow> fault + 'd vfs" where
  "after m = (case m of Inl f \<Rightarrow> Inl f | Inr (_, v) \<Rightarrow> Inr v)"

fun fs_apply :: "'d ata \<Rightarrow> nat \<Rightarrow> fs_op \<Rightarrow> 'd vfs \<Rightarrow> fault + 'd vfs" where
  "fs_apply hw fuel (OpMkdir p) v = Inr (snd (fs_mkdir p v))"
| "fs_apply hw fuel (OpFwrite p b) v = after (fs_fwrite hw fuel p b v)"
| "fs_apply hw fuel (OpChdir p) v = after (fs_chdir hw fuel p v)"
| "fs_apply hw fuel (OpList p n) v = after (fs_listdir hw fuel p n v)"
| "fs_apply hw fuel (OpRead p n) v = after (fs_fread hw fuel p n v)"
| "fs_apply hw fuel (OpMount i) v = Inr (snd (fs_mount_part hw i v))"
| "fs_apply hw fuel OpUnmount v = Inr (fs_unmount v)"

fun fs_run :: "'d ata \<Rightarrow> nat \<Rightarrow> fs_op list \<Rightarrow> 'd vfs \<Rightarrow> fault + 'd vfs" where
  "fs_run hw fuel [] v = Inr v"
| "fs_run hw fuel (op # ops) v = (case fs_apply hw fuel op v of Inl f \<Rightarrow> Inl f | Inr v1 \<Rightarrow> fs_run hw fuel ops v1)"

fun switches :: "fs_op \<Rightarrow> bool" where
  "switches (OpMount _) = True"
| "switches OpUnmount = True"
| "switches _ = False"

text \<open>
  The RAM tree is well formed, the two flags of the two files agree, and the index is that of a
  partition exactly while one is mounted.
\<close>

definition vfs_inv :: "'d vfs \<Rightarrow> bool" where
  "vfs_inv v \<longleftrightarrow> fs_ok (vf_ram v) \<and> (vf_mounted v \<longleftrightarrow> fat_mounted (vf_fat v))
     \<and> (if vf_mounted v then part_get (vf_ptab v) (vf_idx v) \<noteq> None else vf_idx v = -1)"

text \<open>What a call that is not a mount leaves alone: the file system it does not work on.\<close>

definition isolated :: "'d vfs \<Rightarrow> 'd vfs \<Rightarrow> bool" where
  "isolated v v' \<longleftrightarrow> vf_mounted v' = vf_mounted v \<and> vf_idx v' = vf_idx v \<and> vf_ptab v' = vf_ptab v
     \<and> (if vf_mounted v then vf_ram v' = vf_ram v \<and> vol (vf_fat v') = vol (vf_fat v)
        else vf_fat v' = vf_fat v)"

lemma isolated_refl: "isolated v v"
  by (simp add: isolated_def)

lemma isolated_trans: "isolated v v1 \<Longrightarrow> isolated v1 v2 \<Longrightarrow> isolated v v2"
  by (auto simp: isolated_def split: if_splits)

lemma vol_mnt: "vol s' = vol s \<Longrightarrow> fat_mounted s' = fat_mounted s"
  by (simp add: vol_def fat_mounted_def)

lemma isolated_inv: "isolated v v' \<Longrightarrow> fs_ok (vf_ram v') \<Longrightarrow> vfs_inv v \<Longrightarrow> vfs_inv v'"
  using vol_mnt by (fastforce simp: isolated_def vfs_inv_def split: if_splits)

lemma on_fat_isolated:
  assumes "keeps (vf_fat v) m" "vf_mounted v" "after (on_fat v m) = Inr v'"
  shows "isolated v v' \<and> vf_ram v' = vf_ram v"
  using assms by (auto simp: isolated_def after_def on_fat_def keeps_def split: sum.splits)

lemma fat_mount_flag: "fat_mount hw l s = (r, s') \<Longrightarrow> fat_mounted s' = (if r = 0 then True else fat_mounted s)"
  by (auto simp: fat_mount_def Let_def fat_mounted_def split: prod.splits if_splits
      dest!: vol_rd_sec [THEN vol_mnt, unfolded fat_mounted_def])

lemma mount_inv: "vfs_inv v \<Longrightarrow> vfs_inv (snd (fs_mount_part hw i v))"
  by (auto simp: fs_mount_part_def Let_def vfs_inv_def split: option.splits prod.splits dest!: fat_mount_flag)

lemma unmount_inv: "vfs_inv v \<Longrightarrow> vfs_inv (fs_unmount v)"
  by (simp add: vfs_inv_def fs_unmount_def fat_unmount_def fat_mounted_def)

lemma apply_isolated:
  assumes "vfs_inv v" "\<not> switches op" "fs_apply hw fuel op v = Inr v'"
  shows "isolated v v' \<and> fs_ok (vf_ram v')"
proof (cases "vf_mounted v")
  case True
  have ok: "fs_ok (vf_ram v)" and fm: "fat_mounted (vf_fat v)" using assms(1) True by (simp_all add: vfs_inv_def)
  show ?thesis
  proof (cases op)
    case (OpMkdir p)
    then show ?thesis using assms True ok by (auto simp: fs_mkdir_def isolated_refl)
  next
    case (OpFwrite p b)
    then show ?thesis
      using assms(3) True ok on_fat_isolated [OF keeps_write True] by (simp add: fs_fwrite_def)
  next
    case (OpChdir p)
    then show ?thesis
      using assms(3) True ok on_fat_isolated [OF keeps_chdir True] by (simp add: fs_chdir_def)
  next
    case (OpList p n)
    then show ?thesis
      using assms(3) True ok on_fat_isolated [OF keeps_list True] by (simp add: fs_listdir_def)
  next
    case (OpRead p n)
    then show ?thesis
      using assms(3) fm ok on_fat_isolated [OF keeps_read True] by (simp add: fs_fread_def)
  qed (use assms(2) in simp_all)
next
  case False
  have ok: "fs_ok (vf_ram v)" and fm: "\<not> fat_mounted (vf_fat v)" using assms(1) False by (simp_all add: vfs_inv_def)
  show ?thesis
    using assms False ok fm ram_mkdir_ok [of "vf_ram v"] ram_fwrite_ok [of "vf_ram v"] ram_chdir_ok [of "vf_ram v"]
    by (cases op) (auto simp: fs_mkdir_def fs_fwrite_def fs_chdir_def fs_listdir_def fs_fread_def after_def
        isolated_def case_prod_unfold Let_def)
qed

lemma apply_inv: "vfs_inv v \<Longrightarrow> fs_apply hw fuel op v = Inr v' \<Longrightarrow> vfs_inv v'"
proof (cases "switches op")
  case True
  assume "vfs_inv v" "fs_apply hw fuel op v = Inr v'"
  then show ?thesis using True mount_inv unmount_inv by (cases op) auto
next
  case False
  assume "vfs_inv v" "fs_apply hw fuel op v = Inr v'"
  then show ?thesis using False apply_isolated isolated_inv by blast
qed

lemma run_inv: "vfs_inv v \<Longrightarrow> fs_run hw fuel ops v = Inr v' \<Longrightarrow> vfs_inv v'"
  by (induction ops arbitrary: v) (auto split: sum.splits dest: apply_inv)

lemma run_isolated:
  "vfs_inv v \<Longrightarrow> \<not> (\<exists>op \<in> set ops. switches op) \<Longrightarrow> fs_run hw fuel ops v = Inr v' \<Longrightarrow> isolated v v'"
proof (induction ops arbitrary: v)
  case (Cons op ops)
  then obtain v1 where "fs_apply hw fuel op v = Inr v1" "fs_run hw fuel ops v1 = Inr v'"
    by (auto split: sum.splits)
  with Cons show ?case
    using apply_isolated [of v op hw fuel v1] apply_inv [of v hw fuel op v1] isolated_trans by auto
qed (simp add: isolated_refl)

text \<open>
  The mount switch (C19): whatever calls are made, and whatever the drive holds or answers, the RAM tree
  stays well formed, the flags of \<open>fs.c\<close> and \<open>fat.c\<close> agree (so a read, which asks the one, goes to the
  file system that a write, which asks the other, has written to), and the index is that of a
  partition while one is mounted. Between two mounts the file system that is not in use is not
  touched: while a disk is mounted the RAM tree stays as it was and the disk's geometry is kept, and
  without one the driver's state and the disk stay as they were.
\<close>

theorem mount_switch:
  assumes "vfs_inv v" "fs_run hw fuel ops v = Inr v'"
  shows "vfs_inv v' \<and> (\<not> (\<exists>op \<in> set ops. switches op) \<longrightarrow> isolated v v') \<and>
    fs_fread hw fuel path cap v' =
      (if vf_mounted v' then on_fat v' (fat_read hw fuel path cap (vf_fat v'))
       else Inr (fs_fread_ram (vf_ram v') path cap, v'))"
proof -
  have i: "vfs_inv v'" using run_inv assms .
  then show ?thesis using run_isolated [OF assms(1) _ assms(2)] by (auto simp: fs_fread_def vfs_inv_def)
qed

definition vfs0 :: "sim vfs" where
  "vfs0 = \<lparr>vf_ram = ram_boot, vf_mounted = True, vf_idx = 0, vf_fat = sim_vol,
     vf_ptab = \<lparr>pt_parts = [\<lparr>pt_type = 0x0C, pt_lba = 1, pt_sectors = 100\<rparr>], pt_n = 1, pt_sec = []\<rparr>\<rparr>"

theorem mount_switch_witness:
  "\<exists>v'. fs_run sim_hw 5 [OpMkdir [97], OpUnmount, OpMkdir [97]] vfs0 = Inr v' \<and> vfs_inv v' \<and> \<not> vf_mounted v'
     \<and> fst (fs_mkdir [97] vfs0) = FS_RO"
proof -
  have i: "vfs_inv vfs0"
    using ram_boot(1) by (simp add: vfs_inv_def vfs0_def sim_vol_def fat_mounted_def part_get_def)
  obtain v' where v: "fs_run sim_hw 5 [OpMkdir [97], OpUnmount, OpMkdir [97]] vfs0 = Inr v'" by simp
  moreover have "\<not> vf_mounted v'"
    using v by (auto simp: fs_mkdir_def fs_unmount_def vfs0_def split: prod.splits)
  moreover have "fst (fs_mkdir [97] vfs0) = FS_RO" by (simp add: fs_mkdir_def vfs0_def)
  ultimately show ?thesis using mount_switch [OF i v] by blast
qed

end
