(* ===== verification/Pmm.thy ===== *)
theory Pmm
  imports Prelude
begin

text \<open>
  The physical frame allocator, \<^verbatim>\<open>kernel/pmm.c\<close>: one bit per 4 KB frame below 1 GB (set means
  used), a count of the free frames and a next-fit cursor. \<open>pmm_init\<close> reads the multiboot memory
  map from physical memory. The bitmap is a function from byte index to byte; a store past its
  32768 bytes would hit other variables, so it sets \<open>p_fault\<close>. The locale \<open>frame_allocator\<close> is
  what the paging code and the loader rely on.
\<close>

section \<open>Data\<close>

abbreviation PMM_MAX_PHYS :: "64 word" where "PMM_MAX_PHYS \<equiv> 0x40000000"
abbreviation FRAME_SIZE :: "64 word" where "FRAME_SIZE \<equiv> 4096"
abbreviation BITMAP_SIZE :: nat where "BITMAP_SIZE \<equiv> 32768"
abbreviation NFRAMES :: nat where "NFRAMES \<equiv> 262144"

record pmm =
  p_bitmap :: "nat \<Rightarrow> byte"
  p_total :: "64 word"
  p_free :: "64 word"
  p_cursor :: "64 word"
  p_fault :: bool

record mmap_entry =
  me_size :: "32 word"
  me_addr :: "64 word"
  me_len :: "64 word"
  me_type :: "32 word"

definition le_word :: "byte list \<Rightarrow> 'a::len word" where
  "le_word bs = foldr (\<lambda>b w. ucast b OR push_bit 8 w) bs 0"

text \<open>The packed structure at a physical address.\<close>

definition entry_at :: "(nat \<Rightarrow> byte) \<Rightarrow> nat \<Rightarrow> mmap_entry" where
  "entry_at mem a = \<lparr>me_size = le_word (map mem [a..<a + 4]), me_addr = le_word (map mem [a + 4..<a + 12]),
     me_len = le_word (map mem [a + 12..<a + 20]), me_type = le_word (map mem [a + 20..<a + 24])\<rparr>"

section \<open>Operations\<close>

definition bm_test :: "pmm \<Rightarrow> 64 word \<Rightarrow> bool" where
  "bm_test p f \<longleftrightarrow> p_bitmap p (unat (f div 8)) AND push_bit (unat (f mod 8)) 1 \<noteq> 0"

definition bm_put :: "nat \<Rightarrow> byte \<Rightarrow> pmm \<Rightarrow> pmm" where
  "bm_put i b p = (if i < BITMAP_SIZE then p\<lparr>p_bitmap := (p_bitmap p)(i := b)\<rparr> else p\<lparr>p_fault := True\<rparr>)"

definition bm_set :: "64 word \<Rightarrow> pmm \<Rightarrow> pmm" where
  "bm_set f p = bm_put (unat (f div 8)) (p_bitmap p (unat (f div 8)) OR push_bit (unat (f mod 8)) 1) p"

definition bm_clear :: "64 word \<Rightarrow> pmm \<Rightarrow> pmm" where
  "bm_clear f p =
     bm_put (unat (f div 8)) (p_bitmap p (unat (f div 8)) AND NOT (push_bit (unat (f mod 8)) 1)) p"

definition set_used :: "64 word \<Rightarrow> pmm \<Rightarrow> pmm" where
  "set_used f p = (if \<not> bm_test p f then (bm_set f p)\<lparr>p_free := p_free p - 1\<rparr> else p)"

text \<open>A loop \<open>for (f = f0; f < f1; f++)\<close> visits the words from \<open>f0\<close> below \<open>f1\<close> in order.\<close>

definition frames :: "64 word \<Rightarrow> 64 word \<Rightarrow> 64 word list" where
  "frames f0 f1 = map word_of_nat [unat f0..<unat f1]"

definition free_one :: "64 word \<Rightarrow> pmm \<Rightarrow> pmm" where
  "free_one f p = (bm_clear f p)\<lparr>p_free := p_free p + 1\<rparr>"

text \<open>The part of an available entry that is used: from 1 MB on, below 1 GB.\<close>

definition clip_low :: "64 word \<Rightarrow> 64 word \<Rightarrow> 64 word \<times> 64 word" where
  "clip_low s l = (if s < 0x100000
     then (let cut = 0x100000 - s in if l \<le> cut then (s, 0) else (s + cut, l - cut))
     else (s, l))"

definition clip_high :: "64 word \<Rightarrow> 64 word \<Rightarrow> 64 word \<times> 64 word" where
  "clip_high s l = (if PMM_MAX_PHYS < s + l
     then (if PMM_MAX_PHYS \<le> s then (s, 0) else (s, PMM_MAX_PHYS - s)) else (s, l))"

definition entry_frames :: "64 word \<Rightarrow> 64 word \<Rightarrow> 64 word list" where
  "entry_frames addr len =
     (let (s, l) = clip_low addr len; (s, l) = clip_high s l
      in frames ((s + FRAME_SIZE - 1) div FRAME_SIZE) ((s + l) div FRAME_SIZE))"

definition add_entry :: "mmap_entry \<Rightarrow> pmm \<Rightarrow> pmm" where
  "add_entry e p = (if me_type e = 1 then fold free_one (entry_frames (me_addr e) (me_len e)) p else p)"

text \<open>
  \<open>cur\<close> and \<open>end\<close> are pointers of at most 33 bits (a 32-bit address and a 32-bit length), so the
  additions do not wrap and natural numbers are exact.
\<close>

function scan_map :: "(nat \<Rightarrow> byte) \<Rightarrow> nat \<Rightarrow> nat \<Rightarrow> pmm \<Rightarrow> pmm" where
  "scan_map mem cur end p =
     (if cur < end
      then (let e = entry_at mem cur in scan_map mem (cur + unat (me_size e) + 4) end (add_entry e p))
      else p)"
  by pat_completeness auto
termination
  by (relation "measure (\<lambda>(mem, cur, end, p). end - cur)") auto

declare scan_map.simps [simp del]

text \<open>The linker symbols \<open>_kernel_start\<close> and \<open>_kernel_end\<close> are the arguments \<open>ks\<close> and \<open>ke\<close>.\<close>

definition pmm_init ::
  "64 word \<Rightarrow> 64 word \<Rightarrow> (nat \<Rightarrow> byte) \<Rightarrow> 32 word \<Rightarrow> 32 word \<Rightarrow> pmm \<Rightarrow> pmm" where
  "pmm_init ks ke mem mmap_addr mmap_len p =
     (let p1 = p\<lparr>p_total := PMM_MAX_PHYS div FRAME_SIZE, p_free := 0, p_cursor := 0,
                 p_bitmap := (\<lambda>i. if i < BITMAP_SIZE then 0xFF else p_bitmap p i)\<rparr>;
          p2 = scan_map mem (unat mmap_addr) (unat mmap_addr + unat mmap_len) p1
      in fold set_used (frames (ks div FRAME_SIZE) ((ke + FRAME_SIZE - 1) div FRAME_SIZE)) p2)"

definition pmm_reserve :: "64 word \<Rightarrow> 64 word \<Rightarrow> pmm \<Rightarrow> pmm" where
  "pmm_reserve start end p =
     (let f0 = start div FRAME_SIZE; f1 = (end + FRAME_SIZE - 1) div FRAME_SIZE in
      if p_total p \<le> f0 then p
      else fold set_used (frames f0 (if p_total p < f1 then p_total p else f1)) p)"

function alloc_from :: "nat \<Rightarrow> pmm \<Rightarrow> 64 word \<times> pmm" where
  "alloc_from i p =
     (if i < unat (p_total p)
      then (let f = (p_cursor p + word_of_nat i) mod p_total p in
        if \<not> bm_test p f
        then (f * FRAME_SIZE,
              (bm_set f p)\<lparr>p_free := p_free p - 1, p_cursor := (f + 1) mod p_total p\<rparr>)
        else alloc_from (i + 1) p)
      else (0, p))"
  by pat_completeness auto
termination
  by (relation "measure (\<lambda>(i, p). unat (p_total p) - i)") auto

declare alloc_from.simps [simp del]

definition pmm_alloc_frame :: "pmm \<Rightarrow> 64 word \<times> pmm" where
  "pmm_alloc_frame p = alloc_from 0 p"

definition pmm_free_frame :: "64 word \<Rightarrow> pmm \<Rightarrow> pmm" where
  "pmm_free_frame phys p =
     (let f = phys div FRAME_SIZE in
      if f < p_total p \<and> bm_test p f then (bm_clear f p)\<lparr>p_free := p_free p + 1\<rparr> else p)"

definition pmm_free_kb :: "pmm \<Rightarrow> 64 word" where
  "pmm_free_kb p = p_free p * 4"

definition pmm_total_kb :: "pmm \<Rightarrow> 64 word" where
  "pmm_total_kb p = p_total p * 4"

section \<open>The bitmap as a set of used frames\<close>

definition pused :: "pmm \<Rightarrow> nat \<Rightarrow> bool" where
  "pused p n \<longleftrightarrow> bit (p_bitmap p (n div 8)) (n mod 8)"

definition free_set :: "pmm \<Rightarrow> nat set" where
  "free_set p = {n. n < NFRAMES \<and> \<not> pused p n}"

lemma unat_split8: "unat ((f :: 64 word) div 8) = unat f div 8" "unat (f mod 8) = unat f mod 8"
  by (simp_all add: unat_div unat_mod)

lemma bm_test_iff: "bm_test p f \<longleftrightarrow> pused p (unat f)"
  using and_exp_eq_0_iff_not_bit [of "p_bitmap p (unat f div 8)" "unat f mod 8"]
  by (simp add: bm_test_def pused_def unat_split8 push_bit_eq_mult)

lemma bit_one_byte: "k < 8 \<Longrightarrow> bit (2 ^ k :: byte) n \<longleftrightarrow> n = k"
  by (auto simp: bit_exp_iff)

lemma same_slot: "m div 8 = n div 8 \<Longrightarrow> m mod 8 = n mod 8 \<longleftrightarrow> m = (n :: nat)"
  by (metis mod_div_mult_eq)

lemma pused_bm_set:
  assumes "unat f < NFRAMES"
  shows "pused (bm_set f p) n \<longleftrightarrow> n = unat f \<or> pused p n"
proof (cases "n div 8 = unat f div 8")
  case True
  have "unat f div 8 < BITMAP_SIZE" using assms by (simp add: less_mult_imp_div_less)
  with True same_slot [OF True] show ?thesis
    by (simp add: pused_def bm_set_def bm_put_def unat_split8 bit_or_iff bit_one_byte disj_commute)
next
  case False
  then show ?thesis by (auto simp: pused_def bm_set_def bm_put_def unat_split8)
qed

lemma pused_bm_clear:
  assumes "unat f < NFRAMES"
  shows "pused (bm_clear f p) n \<longleftrightarrow> n \<noteq> unat f \<and> pused p n"
proof (cases "n div 8 = unat f div 8")
  case True
  have "unat f div 8 < BITMAP_SIZE" using assms by (simp add: less_mult_imp_div_less)
  with True same_slot [OF True] show ?thesis
    by (simp add: pused_def bm_clear_def bm_put_def unat_split8 bit_and_iff bit_not_iff bit_one_byte
        conj_commute)
next
  case False
  then show ?thesis by (auto simp: pused_def bm_clear_def bm_put_def unat_split8)
qed

lemma bm_frame [simp]:
  "unat f < NFRAMES \<Longrightarrow> p_total (bm_set f p) = p_total p"
  "unat f < NFRAMES \<Longrightarrow> p_free (bm_set f p) = p_free p"
  "unat f < NFRAMES \<Longrightarrow> p_cursor (bm_set f p) = p_cursor p"
  "unat f < NFRAMES \<Longrightarrow> p_fault (bm_set f p) = p_fault p"
  "unat f < NFRAMES \<Longrightarrow> p_total (bm_clear f p) = p_total p"
  "unat f < NFRAMES \<Longrightarrow> p_free (bm_clear f p) = p_free p"
  "unat f < NFRAMES \<Longrightarrow> p_cursor (bm_clear f p) = p_cursor p"
  "unat f < NFRAMES \<Longrightarrow> p_fault (bm_clear f p) = p_fault p"
  by (auto simp: bm_set_def bm_clear_def bm_put_def unat_split8)

lemma pused_upd [simp]:
  "pused (p\<lparr>p_free := a\<rparr>) = pused p" "pused (p\<lparr>p_cursor := c\<rparr>) = pused p"
  "pused (p\<lparr>p_total := t\<rparr>) = pused p"
  by (simp_all add: pused_def fun_eq_iff)

lemma free_set_set: "unat f < NFRAMES \<Longrightarrow> free_set (bm_set f p) = free_set p - {unat f}"
  by (auto simp: free_set_def pused_bm_set)

lemma free_set_clear: "unat f < NFRAMES \<Longrightarrow> free_set (bm_clear f p) = insert (unat f) (free_set p)"
  by (auto simp: free_set_def pused_bm_clear)

lemma free_set_upd [simp]:
  "free_set (p\<lparr>p_free := a\<rparr>) = free_set p" "free_set (p\<lparr>p_cursor := c\<rparr>) = free_set p"
  "free_set (p\<lparr>p_total := t\<rparr>) = free_set p"
  by (simp_all add: free_set_def)

lemma free_set_finite [simp]: "finite (free_set p)"
  by (simp add: free_set_def)

section \<open>Invariant\<close>

definition pmm_inv :: "pmm \<Rightarrow> bool" where
  "pmm_inv p \<longleftrightarrow> p_total p = 0x40000 \<and> p_cursor p < 0x40000 \<and>
     p_free p = word_of_nat (card (free_set p)) \<and> 0 \<notin> free_set p \<and> \<not> p_fault p"

lemma frame_bound: "unat (f :: 64 word) < NFRAMES \<longleftrightarrow> f < 0x40000"
  by (simp add: word_less_nat_alt)

lemma set_used_inv [inv_intros]:
  assumes "pmm_inv p" and "unat f < NFRAMES"
  shows "pmm_inv (set_used f p)"
proof (cases "pused p (unat f)")
  case True
  with assms show ?thesis by (simp add: set_used_def bm_test_iff)
next
  case False
  with assms have "unat f \<in> free_set p" by (simp add: free_set_def)
  then have "0 < card (free_set p)" by (auto simp: card_gt_0_iff)
  with False assms \<open>unat f \<in> free_set p\<close> show ?thesis
    by (auto simp: set_used_def bm_test_iff pmm_inv_def free_set_set card_Diff_singleton of_nat_diff)
qed

lemma free_set_set_used:
  "unat f < NFRAMES \<Longrightarrow> free_set (set_used f p) = free_set p - {unat f}"
  by (auto simp: set_used_def bm_test_iff free_set_set) (simp add: free_set_def)

lemma fold_set_used:
  "pmm_inv p \<Longrightarrow> \<forall>f \<in> set fs. unat f < NFRAMES \<Longrightarrow>
     pmm_inv (fold set_used fs p) \<and> free_set (fold set_used fs p) = free_set p - unat ` set fs"
  by (induction fs arbitrary: p) (auto simp: set_used_inv free_set_set_used)

lemma pmm_free_inv [inv_intros]:
  assumes "pmm_inv p" and "FRAME_SIZE \<le> phys"
  shows "pmm_inv (pmm_free_frame phys p)"
proof -
  let ?f = "phys div FRAME_SIZE"
  have nz: "unat ?f \<noteq> 0"
    using assms(2) by (simp add: unat_div word_le_nat_alt div_eq_0_iff)
  show ?thesis
  proof (cases "?f < p_total p \<and> pused p (unat ?f)")
    case True
    then have b: "unat ?f < NFRAMES" using assms(1) by (simp add: pmm_inv_def frame_bound)
    moreover have "unat ?f \<notin> free_set p" using True by (simp add: free_set_def)
    ultimately show ?thesis
      using True assms(1) nz
      by (auto simp: pmm_free_frame_def bm_test_iff pmm_inv_def free_set_clear)
  next
    case False
    with assms show ?thesis by (auto simp: pmm_free_frame_def bm_test_iff Let_def)
  qed
qed

section \<open>Allocation\<close>

lemma probe_unat:
  assumes "c < (0x40000 :: 64 word)" and "i < NFRAMES"
  shows "unat ((c + word_of_nat i) mod 0x40000) = (unat c + i) mod NFRAMES"
proof -
  have "unat c < NFRAMES" using assms(1) by (simp add: word_less_nat_alt)
  with assms(2) have "unat (c + word_of_nat i) = unat c + i"
    by (simp add: unat_word_ariths unat_of_nat)
  then show ?thesis by (simp add: unat_mod)
qed

definition take_frame :: "64 word \<Rightarrow> pmm \<Rightarrow> pmm" where
  "take_frame f p = (bm_set f p)\<lparr>p_free := p_free p - 1, p_cursor := (f + 1) mod p_total p\<rparr>"

lemma alloc_from_cases:
  assumes "pmm_inv p" and "i \<le> NFRAMES"
  shows "(\<exists>f. unat f \<in> free_set p \<and> alloc_from i p = (f * FRAME_SIZE, take_frame f p)) \<or>
    (alloc_from i p = (0, p) \<and> (\<forall>j. i \<le> j \<and> j < NFRAMES \<longrightarrow> (unat (p_cursor p) + j) mod NFRAMES \<notin> free_set p))"
  using assms
proof (induction i p rule: alloc_from.induct)
  case (1 i p)
  let ?f = "(p_cursor p + word_of_nat i) mod p_total p"
  have tot: "unat (p_total p) = NFRAMES" using "1.prems" by (simp add: pmm_inv_def)
  show ?case
  proof (cases "i < NFRAMES")
    case True
    have f: "unat ?f = (unat (p_cursor p) + i) mod NFRAMES"
      using "1.prems" True probe_unat [of "p_cursor p" i] by (simp add: pmm_inv_def)
    show ?thesis
    proof (cases "pused p (unat ?f)")
      case used: True
      then have step: "alloc_from i p = alloc_from (i + 1) p"
        using True tot by (simp add: alloc_from.simps [of i p] bm_test_iff)
      have here: "(unat (p_cursor p) + i) mod NFRAMES \<notin> free_set p"
        using used f by (simp add: free_set_def)
      from "1.IH" [OF _ refl] used True tot "1.prems"
      have IH: "(\<exists>f. unat f \<in> free_set p \<and> alloc_from (i + 1) p = (f * FRAME_SIZE, take_frame f p)) \<or>
        (alloc_from (i + 1) p = (0, p) \<and>
         (\<forall>j. i + 1 \<le> j \<and> j < NFRAMES \<longrightarrow> (unat (p_cursor p) + j) mod NFRAMES \<notin> free_set p))"
        by (simp add: bm_test_iff)
      have "i \<le> j \<longleftrightarrow> j = i \<or> i + 1 \<le> j" for j by auto
      with IH here show ?thesis unfolding step by metis
    next
      case False
      then have "unat ?f \<in> free_set p" using f by (simp add: free_set_def)
      moreover have "alloc_from i p = (?f * FRAME_SIZE, take_frame ?f p)"
        using True False tot by (simp add: alloc_from.simps [of i p] bm_test_iff take_frame_def Let_def)
      ultimately show ?thesis by blast
    qed
  next
    case False
    then have "alloc_from i p = (0, p)" using tot by (simp add: alloc_from.simps [of i p])
    then show ?thesis using False by auto
  qed
qed

lemma probe_surj:
  assumes "c < NFRAMES" and "n < NFRAMES"
  shows "\<exists>j < NFRAMES. (c + j) mod NFRAMES = n"
proof -
  have "(c + (n + NFRAMES - c) mod NFRAMES) mod NFRAMES = n"
    using assms by (simp add: mod_add_right_eq)
  then show ?thesis by (intro exI [of _ "(n + NFRAMES - c) mod NFRAMES"]) simp
qed

lemma alloc_cases:
  assumes inv: "pmm_inv p"
  shows "(\<exists>f. unat f \<in> free_set p \<and> pmm_alloc_frame p = (f * FRAME_SIZE, take_frame f p)) \<or>
    (pmm_alloc_frame p = (0, p) \<and> free_set p = {})"
proof -
  have c: "unat (p_cursor p) < NFRAMES" using inv by (simp add: pmm_inv_def frame_bound)
  have "free_set p = {}"
    if "\<forall>j. 0 \<le> j \<and> j < NFRAMES \<longrightarrow> (unat (p_cursor p) + j) mod NFRAMES \<notin> free_set p"
  proof -
    have "n \<notin> free_set p" for n
      using that probe_surj [OF c, of n] by (auto simp: free_set_def)
    then show ?thesis by blast
  qed
  then show ?thesis
    using alloc_from_cases [OF inv, of 0] unfolding pmm_alloc_frame_def by auto
qed

lemma take_frame_inv:
  assumes inv: "pmm_inv p" and f: "unat f \<in> free_set p"
  shows "pmm_inv (take_frame f p)" and "free_set (take_frame f p) = free_set p - {unat f}"
proof -
  have b: "unat f < NFRAMES" using f by (simp add: free_set_def)
  show fs: "free_set (take_frame f p) = free_set p - {unat f}"
    using b by (simp add: take_frame_def free_set_set)
  have "0 < card (free_set p)" using f by (auto simp: card_gt_0_iff)
  moreover have "(f + 1) mod 0x40000 < 0x40000" by (rule word_mod_less_divisor) simp
  ultimately show "pmm_inv (take_frame f p)"
    using inv b f fs
    by (auto simp: take_frame_def pmm_inv_def card_Diff_singleton of_nat_diff)
qed

section \<open>The allocator as an interface\<close>

text \<open>\<open>fr\<close> is the set of physical addresses the allocator may still hand out.\<close>

primrec alloc_n :: "('s \<Rightarrow> 'a \<times> 's) \<Rightarrow> nat \<Rightarrow> 's \<Rightarrow> 'a list \<times> 's" where
  "alloc_n al 0 s = ([], s)"
| "alloc_n al (Suc n) s = (let (a, s1) = al s; (xs, s2) = alloc_n al n s1 in (a # xs, s2))"

locale frame_allocator =
  fixes alloc :: "'s \<Rightarrow> 64 word \<times> 's"
    and release :: "64 word \<Rightarrow> 's \<Rightarrow> 's"
    and fr :: "'s \<Rightarrow> 64 word set"
    and invar :: "'s \<Rightarrow> bool"
  assumes alloc_empty: "invar s \<Longrightarrow> fr s = {} \<Longrightarrow> alloc s = (0, s)"
    and alloc_in: "invar s \<Longrightarrow> fr s \<noteq> {} \<Longrightarrow> fst (alloc s) \<in> fr s"
    and fr_alloc: "invar s \<Longrightarrow> fr s \<noteq> {} \<Longrightarrow> fr (snd (alloc s)) = fr s - {fst (alloc s)}"
    and invar_alloc: "invar s \<Longrightarrow> invar (snd (alloc s))"
    and fr_valid: "invar s \<Longrightarrow> a \<in> fr s \<Longrightarrow> a \<noteq> 0 \<and> a mod 4096 = 0 \<and> a < 0x40000000"
    and fr_release: "invar s \<Longrightarrow> a \<noteq> 0 \<Longrightarrow> a mod 4096 = 0 \<Longrightarrow> a < 0x40000000 \<Longrightarrow>
      fr (release a s) = insert a (fr s)"
    and invar_release: "invar s \<Longrightarrow> a \<noteq> 0 \<Longrightarrow> a mod 4096 = 0 \<Longrightarrow> invar (release a s)"
    and fr_finite: "invar s \<Longrightarrow> finite (fr s)"
begin

lemma alloc_zero_iff: "invar s \<Longrightarrow> fst (alloc s) = 0 \<longleftrightarrow> fr s = {}"
  by (cases "fr s = {}") (auto simp: alloc_empty dest: alloc_in fr_valid)

text \<open>Frames handed out one after the other are distinct, and all come from the free ones.\<close>

lemma alloc_n_distinct:
  "invar s \<Longrightarrow> n \<le> card (fr s) \<Longrightarrow> alloc_n alloc n s = (xs, s') \<Longrightarrow>
     length xs = n \<and> distinct xs \<and> set xs \<subseteq> fr s \<and> fr s' = fr s - set xs \<and> invar s'"
proof (induction n arbitrary: s xs s')
  case (Suc n)
  obtain a s1 ys s2 where a: "alloc s = (a, s1)" and ys: "alloc_n alloc n s1 = (ys, s2)"
    by (metis surj_pair)
  have ne: "fr s \<noteq> {}" using Suc.prems(2) by auto
  then have mem: "a \<in> fr s" and fr1: "fr s1 = fr s - {a}" and inv1: "invar s1"
    using alloc_in [of s] fr_alloc [of s] invar_alloc [of s] Suc.prems(1) a by simp_all
  have "n \<le> card (fr s1)"
    using Suc.prems mem fr_finite [OF Suc.prems(1)] by (simp add: fr1 card_Diff_singleton)
  note IH = Suc.IH [OF inv1 this ys]
  have "xs = a # ys" "s' = s2" using Suc.prems(3) by (simp_all add: a ys)
  with IH mem fr1 show ?case by auto
qed auto

text \<open>A frame given back is the only change: the others stay as they were.\<close>

lemma alloc_release:
  assumes "invar s" and "fr s \<noteq> {}"
  shows "fr (release (fst (alloc s)) (snd (alloc s))) = fr s"
  using assms alloc_in [OF assms] fr_alloc [OF assms] invar_alloc [OF assms(1)]
    fr_valid [OF assms(1) alloc_in [OF assms]] by (auto simp: fr_release)

end

definition free_addrs :: "pmm \<Rightarrow> 64 word set" where
  "free_addrs p = (\<lambda>n. word_of_nat n * FRAME_SIZE) ` free_set p"

lemma frame_addr:
  assumes "n < NFRAMES"
  shows "unat (word_of_nat n * FRAME_SIZE :: 64 word) = n * 4096"
  using assms by (simp add: unat_word_ariths unat_of_nat)

lemma free_addrs_iff: "word_of_nat n * FRAME_SIZE \<in> free_addrs p \<longleftrightarrow> n \<in> free_set p" if "n < NFRAMES"
proof -
  have "n = m" if "word_of_nat n * FRAME_SIZE = word_of_nat m * FRAME_SIZE" "m \<in> free_set p" for m
    using frame_addr [OF \<open>n < NFRAMES\<close>] frame_addr [of m] that by (simp add: free_set_def)
  then show ?thesis by (auto simp: free_addrs_def)
qed

lemma frame_addr_inj: "inj_on (\<lambda>n. word_of_nat n * FRAME_SIZE) {..<NFRAMES}"
  by (rule inj_onI) (metis frame_addr lessThan_iff mult_cancel2 zero_neq_numeral)

lemma free_addrs_remove:
  assumes "free_set q = free_set p - {unat f}" and "unat f \<in> free_set p"
  shows "free_addrs q = free_addrs p - {f * FRAME_SIZE}"
proof -
  have "inj_on (\<lambda>n. word_of_nat n * FRAME_SIZE) (free_set p)"
    by (rule inj_on_subset [OF frame_addr_inj]) (auto simp: free_set_def)
  from inj_on_image_set_diff [OF this, of "free_set p" "{unat f}"] assms(2)
  show ?thesis by (simp add: free_addrs_def assms(1))
qed

lemma unat_aligned_pos: "a \<noteq> 0 \<Longrightarrow> a mod 4096 = 0 \<Longrightarrow> 4096 \<le> unat (a :: 64 word)"
proof -
  assume "a \<noteq> 0" "a mod 4096 = 0"
  then have "unat a \<noteq> 0" "unat a mod 4096 = 0"
    by (auto simp: word_unat_eq_iff unat_mod)
  then show ?thesis using dvd_imp_le [of 4096 "unat a"] by (simp add: mod_eq_0_iff_dvd)
qed

lemma free_addrs_valid:
  assumes "pmm_inv p" and "a \<in> free_addrs p"
  shows "a \<noteq> 0 \<and> a mod 4096 = 0 \<and> a < 0x40000000"
proof -
  from assms(2) obtain n where n: "n \<in> free_set p" "a = word_of_nat n * FRAME_SIZE"
    by (auto simp: free_addrs_def)
  then have "n < NFRAMES" by (simp add: free_set_def)
  moreover have "n \<noteq> 0" using n(1) assms(1) by (cases "n = 0") (auto simp: pmm_inv_def)
  ultimately show ?thesis using n frame_addr [of n]
    by (simp add: word_unat_eq_iff unat_mod word_less_nat_alt)
qed

lemma free_addrs_release:
  assumes "pmm_inv p" and "a \<noteq> 0" "a mod 4096 = 0" "a < 0x40000000"
  shows "free_addrs (pmm_free_frame a p) = insert a (free_addrs p)"
proof -
  let ?f = "a div FRAME_SIZE"
  have f: "unat ?f = unat a div 4096" by (simp add: unat_div)
  have b: "unat ?f < NFRAMES" using assms(4) f by (simp add: word_less_nat_alt less_mult_imp_div_less)
  have "unat a mod 4096 = 0" using assms(3) by (simp add: word_unat_eq_iff unat_mod)
  then have "unat a = unat ?f * 4096" unfolding f by auto
  then have a: "a = word_of_nat (unat ?f) * FRAME_SIZE"
    using frame_addr [OF b] by (metis word_unat_eq_iff)
  have t: "?f < p_total p" using b assms(1) by (simp add: pmm_inv_def frame_bound)
  have "free_set (pmm_free_frame a p) = insert (unat ?f) (free_set p)"
    using t b by (auto simp: pmm_free_frame_def bm_test_iff free_set_clear Let_def)
      (auto simp: free_set_def)
  then show ?thesis using a by (simp add: free_addrs_def)
qed

interpretation pmm_alloc: frame_allocator pmm_alloc_frame pmm_free_frame free_addrs pmm_inv
proof (unfold_locales, goal_cases)
  case (1 p)
  then show ?case using alloc_cases [of p] by (auto simp: free_addrs_def)
next
  case (2 p)
  then obtain f where "unat f \<in> free_set p" "pmm_alloc_frame p = (f * FRAME_SIZE, take_frame f p)"
    using alloc_cases [of p] by (auto simp: free_addrs_def)
  then show ?case by (auto simp: free_addrs_def intro: image_eqI [of _ _ "unat f"])
next
  case (3 p)
  then obtain f where f: "unat f \<in> free_set p" "pmm_alloc_frame p = (f * FRAME_SIZE, take_frame f p)"
    using alloc_cases [of p] by (auto simp: free_addrs_def)
  then show ?case
    using take_frame_inv(2) [OF 3(1) f(1)] by (simp add: free_addrs_remove f(1))
next
  case (4 p)
  then show ?case using alloc_cases [of p] take_frame_inv(1) by auto
next
  case (5 p a)
  then show ?case by (rule free_addrs_valid)
next
  case (6 p a)
  then show ?case by (simp add: free_addrs_release)
next
  case (7 p a)
  then have "4096 \<le> unat a"
    using unat_aligned_pos [of a] by simp
  then show ?case using 7(1) by (intro pmm_free_inv) (simp_all add: word_le_nat_alt)
next
  case (8 p)
  then show ?case by (simp add: free_addrs_def)
qed

section \<open>Reading the memory map\<close>

text \<open>
  The frames an available entry stands for: those that lie wholly inside it, from 1 MB on and
  below 1 GB. The code agrees for every entry that ends at least one frame below \<open>2 ^ 64\<close>.
\<close>

definition entry_set :: "mmap_entry \<Rightarrow> nat set" where
  "entry_set e = (if me_type e = 1
     then {n. max (unat (me_addr e)) 0x100000 \<le> 4096 * n \<and>
              4096 * (n + 1) \<le> min (unat (me_addr e) + unat (me_len e)) 0x40000000}
     else {})"

definition entry_ok :: "mmap_entry \<Rightarrow> bool" where
  "entry_ok e \<longleftrightarrow> unat (me_addr e) + unat (me_len e) + 4096 \<le> 2 ^ 64"

function map_entries :: "(nat \<Rightarrow> byte) \<Rightarrow> nat \<Rightarrow> nat \<Rightarrow> mmap_entry list" where
  "map_entries mem cur end =
     (if cur < end then entry_at mem cur # map_entries mem (cur + unat (me_size (entry_at mem cur)) + 4) end
      else [])"
  by pat_completeness auto
termination
  by (relation "measure (\<lambda>(mem, cur, end). end - cur)") auto

declare map_entries.simps [simp del]

lemma scan_map_fold: "scan_map mem cur end p = fold add_entry (map_entries mem cur end) p"
  by (induction mem cur "end" p rule: scan_map.induct)
    (subst scan_map.simps, subst map_entries.simps, simp add: Let_def)

lemma unat_frames: "unat ` set (frames f0 f1) = {unat f0..<unat f1}" "distinct (frames f0 f1)"
proof -
  have u: "unat (word_of_nat n :: 64 word) = n" if "n < unat f1" for n
    using that unat_lt_power [of f1] by (simp add: unat_of_nat)
  show "unat ` set (frames f0 f1) = {unat f0..<unat f1}"
    by (auto simp: frames_def u image_image cong: image_cong_simp)
  show "distinct (frames f0 f1)"
    unfolding frames_def distinct_map
    by (auto intro!: inj_onI) (metis u)
qed

lemma frames_span:
  assumes "unat (s :: 64 word) + 4096 \<le> 2 ^ 64"
  shows "unat ` set (frames ((s + FRAME_SIZE - 1) div FRAME_SIZE) (e div FRAME_SIZE)) =
    {n. unat s \<le> 4096 * n \<and> 4096 * (n + 1) \<le> unat e}"
proof -
  have "unat (s + FRAME_SIZE - 1) = unat s + 4095"
    using assms by (simp add: unat_word_ariths)
  then have "unat ((s + FRAME_SIZE - 1) div FRAME_SIZE) = (unat s + 4095) div 4096"
    "unat (e div FRAME_SIZE) = unat e div 4096" by (simp_all add: unat_div)
  then show ?thesis unfolding unat_frames(1) by auto
qed

lemma entry_frames_set:
  assumes ok: "unat addr + unat len + 4096 \<le> 2 ^ 64"
  shows "unat ` set (entry_frames addr len) =
    {n. max (unat addr) 0x100000 \<le> 4096 * n \<and> 4096 * (n + 1) \<le> min (unat addr + unat len) 0x40000000}"
proof -
  obtain s l where low: "clip_low addr len = (s, l)"
    and sl: "unat s + unat l + 4096 \<le> 2 ^ 64"
    "unat l = 0 \<longrightarrow> unat addr + unat len \<le> max (unat addr) 0x100000"
    "unat l \<noteq> 0 \<longrightarrow> unat s = max (unat addr) 0x100000 \<and> unat s + unat l = unat addr + unat len"
  proof (cases "addr < 0x100000")
    case True
    then have u: "unat (0x100000 - addr) = 0x100000 - unat addr" "unat addr < 0x100000"
      by (auto simp: unat_sub word_less_nat_alt word_le_nat_alt)
    show ?thesis
    proof (cases "len \<le> 0x100000 - addr")
      case l: True
      then have "unat len \<le> 0x100000 - unat addr" using u by (simp add: word_le_nat_alt)
      with l True ok u show ?thesis
        by (intro that [of addr 0]) (auto simp: clip_low_def Let_def)
    next
      case l: False
      then have "unat (len - (0x100000 - addr)) = unat len - (0x100000 - unat addr)"
        "0x100000 - unat addr < unat len"
        using u by (auto simp: unat_sub word_le_nat_alt)
      with l True ok u show ?thesis
        by (intro that [of "0x100000" "len - (0x100000 - addr)"]) (auto simp: clip_low_def Let_def)
    qed
  next
    case False
    then have "0x100000 \<le> unat addr" by (simp add: word_less_nat_alt)
    with False ok show ?thesis
      by (intro that [of addr len]) (auto simp: clip_low_def)
  qed
  have sum: "unat (s + l) = unat s + unat l" using sl(1) by (simp add: unat_word_ariths)
  obtain l' where high: "clip_high s l = (s, l')"
    by (cases "clip_high s l") (auto simp: clip_high_def split: if_splits)
  have set: "unat ` set (entry_frames addr len) =
    {n. unat s \<le> 4096 * n \<and> 4096 * (n + 1) \<le> unat (s + l')}"
    unfolding entry_frames_def low high Let_def prod.case by (rule frames_span) (use sl in simp)
  have "unat (s + l') = (if unat s + unat l \<le> 0x40000000 then unat s + unat l else max (unat s) 0x40000000)"
    using high sum by (auto simp: clip_high_def word_less_nat_alt word_le_nat_alt split: if_splits)
  then show ?thesis unfolding set using sl by (cases "unat l = 0") (auto split: if_splits)
qed

lemma entry_frames_distinct: "distinct (entry_frames addr len)"
  by (simp add: entry_frames_def unat_frames split: prod.splits)

lemma free_one_simps:
  assumes "unat f < NFRAMES"
  shows "free_set (free_one f p) = insert (unat f) (free_set p)"
    and "p_free (free_one f p) = p_free p + 1" and "p_total (free_one f p) = p_total p"
    and "p_cursor (free_one f p) = p_cursor p" and "p_fault (free_one f p) = p_fault p"
  using assms by (simp_all add: free_one_def free_set_clear)

lemma fold_free_one:
  "\<forall>f \<in> set fs. unat f < NFRAMES \<Longrightarrow>
     free_set (fold free_one fs p) = free_set p \<union> unat ` set fs \<and>
     p_free (fold free_one fs p) = p_free p + word_of_nat (length fs) \<and>
     p_total (fold free_one fs p) = p_total p \<and> p_cursor (fold free_one fs p) = p_cursor p \<and>
     p_fault (fold free_one fs p) = p_fault p"
  by (induction fs arbitrary: p) (auto simp: free_one_simps)

lemma entry_set_bounds: "n \<in> entry_set e \<Longrightarrow> 256 \<le> n \<and> n < NFRAMES"
  by (auto simp: entry_set_def split: if_splits)

lemma add_entry_effect:
  assumes "entry_ok e"
  shows "free_set (add_entry e p) = free_set p \<union> entry_set e"
    and "p_free (add_entry e p) = p_free p + word_of_nat (card (entry_set e))"
    and "p_total (add_entry e p) = p_total p" and "p_cursor (add_entry e p) = p_cursor p"
    and "p_fault (add_entry e p) = p_fault p"
proof -
  have set: "unat ` set (entry_frames (me_addr e) (me_len e)) = entry_set e" if "me_type e = 1"
    using entry_frames_set assms that by (simp add: entry_ok_def entry_set_def)
  then have b: "\<forall>f \<in> set (entry_frames (me_addr e) (me_len e)). unat f < NFRAMES" if "me_type e = 1"
    using entry_set_bounds that by blast
  have "length (entry_frames (me_addr e) (me_len e)) = card (entry_set e)" if "me_type e = 1"
    using set [OF that] entry_frames_distinct
    by (metis card_image distinct_card inj_on_def word_unat_eq_iff)
  with fold_free_one [OF b] set show
    "free_set (add_entry e p) = free_set p \<union> entry_set e"
    "p_free (add_entry e p) = p_free p + word_of_nat (card (entry_set e))"
    "p_total (add_entry e p) = p_total p" "p_cursor (add_entry e p) = p_cursor p"
    "p_fault (add_entry e p) = p_fault p"
    by (auto simp: add_entry_def entry_set_def)
qed

lemma add_entry_inv [inv_intros]:
  assumes "pmm_inv p" and "entry_ok e" and "entry_set e \<inter> free_set p = {}"
  shows "pmm_inv (add_entry e p)"
proof -
  have "finite (entry_set e)" by (rule finite_subset [of _ "{..<NFRAMES}"]) (auto dest: entry_set_bounds)
  with assms show ?thesis
    by (auto simp: pmm_inv_def add_entry_effect card_Un_disjoint Int_commute dest: entry_set_bounds)
qed

text \<open>No frame is described as available by two entries.\<close>

fun no_overlap :: "mmap_entry list \<Rightarrow> bool" where
  "no_overlap [] \<longleftrightarrow> True"
| "no_overlap (e # es) \<longleftrightarrow> (\<forall>e' \<in> set es. entry_set e \<inter> entry_set e' = {}) \<and> no_overlap es"

lemma fold_add_entry:
  "pmm_inv p \<Longrightarrow> \<forall>e \<in> set es. entry_ok e \<and> entry_set e \<inter> free_set p = {} \<Longrightarrow> no_overlap es \<Longrightarrow>
     pmm_inv (fold add_entry es p) \<and>
     free_set (fold add_entry es p) = free_set p \<union> (\<Union>e \<in> set es. entry_set e)"
proof (induction es arbitrary: p)
  case (Cons e es)
  then have "pmm_inv (add_entry e p)" by (intro add_entry_inv) auto
  moreover have "\<forall>e' \<in> set es. entry_ok e' \<and> entry_set e' \<inter> free_set (add_entry e p) = {}"
    using Cons.prems by (auto simp: add_entry_effect)
  ultimately show ?case
    using Cons.IH [of "add_entry e p"] Cons.prems by (simp add: add_entry_effect Un_assoc)
qed simp

lemma blank_bitmap:
  "free_set (p\<lparr>p_bitmap := (\<lambda>i. if i < BITMAP_SIZE then 0xFF else p_bitmap p i)\<rparr>) = {}"
proof -
  have "bit (0xFF :: byte) k" if "k < 8" for k
  proof -
    have "(0xFF :: byte) = mask 8" by (simp add: mask_eq_exp_minus_1)
    then show ?thesis using that by (simp only: bit_simps) simp
  qed
  then show ?thesis by (auto simp: free_set_def pused_def less_mult_imp_div_less)
qed

lemma pmm_init_effect:
  assumes "\<not> p_fault p" and "unat ke \<le> 0x40000000"
    and es: "es = map_entries mem (unat addr) (unat addr + unat len)"
    and ok: "\<forall>e \<in> set es. entry_ok e" and disj: "no_overlap es"
  shows "pmm_inv (pmm_init ks ke mem addr len p) \<and>
    free_set (pmm_init ks ke mem addr len p) =
      (\<Union>e \<in> set es. entry_set e) - {unat ks div 4096..<(unat ke + 4095) div 4096}"
proof -
  define p1 where "p1 = p\<lparr>p_total := PMM_MAX_PHYS div FRAME_SIZE, p_free := 0, p_cursor := 0,
    p_bitmap := (\<lambda>i. if i < BITMAP_SIZE then 0xFF else p_bitmap p i)\<rparr>"
  have fs1: "free_set p1 = {}"
    using blank_bitmap [of p] by (simp add: p1_def free_set_def pused_def)
  then have inv1: "pmm_inv p1" using assms(1) by (simp add: pmm_inv_def p1_def)
  define p2 where "p2 = scan_map mem (unat addr) (unat addr + unat len) p1"
  have p2: "pmm_inv p2" "free_set p2 = (\<Union>e \<in> set es. entry_set e)"
    using fold_add_entry [OF inv1, of es] ok disj by (simp_all add: p2_def scan_map_fold es fs1)
  let ?fs = "frames (ks div FRAME_SIZE) ((ke + FRAME_SIZE - 1) div FRAME_SIZE)"
  have "unat (ke + FRAME_SIZE - 1) = unat ke + 4095" using assms(2) by (simp add: unat_word_ariths)
  then have fs: "unat ` set ?fs = {unat ks div 4096..<(unat ke + 4095) div 4096}"
    unfolding unat_frames by (simp add: unat_div)
  have "(unat ke + 4095) div 4096 \<le> NFRAMES" using assms(2) by linarith
  moreover have "unat f \<in> {unat ks div 4096..<(unat ke + 4095) div 4096}" if "f \<in> set ?fs" for f
    using that unfolding fs [symmetric] by (rule imageI)
  ultimately have "\<forall>f \<in> set ?fs. unat f < NFRAMES" by fastforce
  from fold_set_used [OF p2(1) this] show ?thesis
    unfolding pmm_init_def p2(2) fs p1_def [symmetric] p2_def [symmetric] Let_def by simp
qed

section \<open>Properties\<close>

text \<open>
  (C22) Initialisation from a memory map whose entries end at least a frame below \<open>2 ^ 64\<close> and do
  not describe a frame twice: the free frames are exactly those lying wholly inside an available
  entry, at or above 1 MB and below 1 GB, less the frames of the kernel image; the free count is
  their number; and no bitmap store is out of range.
\<close>

theorem pmm_init_free_frames:
  assumes "\<not> p_fault p" and "unat ke \<le> 0x40000000"
    and es: "es = map_entries mem (unat addr) (unat addr + unat len)"
    and ok: "\<forall>e \<in> set es. entry_ok e" and disj: "no_overlap es"
  shows "pmm_inv (pmm_init ks ke mem addr len p) \<and>
    free_set (pmm_init ks ke mem addr len p) =
      (\<Union>e \<in> set es. entry_set e) - {unat ks div 4096..<(unat ke + 4095) div 4096}"
  using assms by (rule pmm_init_effect)

text \<open>A map with one available entry, the megabyte from 1 MB on.\<close>

definition one_entry :: "nat \<Rightarrow> byte" where
  "one_entry a = (if a = 0 then 20 else if a = 6 \<or> a = 14 then 0x10 else if a = 20 then 1 else 0)"

definition pmm_boot :: pmm where
  "pmm_boot = \<lparr>p_bitmap = (\<lambda>_. 0), p_total = 0, p_free = 0, p_cursor = 0, p_fault = False\<rparr>"

lemma one_entry_map:
  "map_entries one_entry 0 24 =
     [\<lparr>me_size = 20, me_addr = 0x100000, me_len = 0x100000, me_type = 1\<rparr>]"
  by (simp add: map_entries.simps entry_at_def one_entry_def le_word_def upt_rec)

theorem pmm_init_free_frames_witness:
  "free_set (pmm_init 0x100000 0x101001 one_entry 0 24 pmm_boot) = {256..<512} - {256..<258}"
proof -
  have "entry_set \<lparr>me_size = 20, me_addr = 0x100000, me_len = 0x100000, me_type = 1\<rparr> = {256..<512}"
    by (auto simp: entry_set_def)
  then show ?thesis
    using pmm_init_free_frames [of pmm_boot "0x101001" _ one_entry 0 24 "0x100000", OF _ _ refl]
    by (simp add: one_entry_map pmm_boot_def entry_ok_def)
qed

text \<open>
  (C16) \<open>pmm_alloc_frame\<close> returns 0 only when no frame is free, and then changes nothing;
  otherwise it returns the address of a free frame, which becomes used while every other frame
  stays as it was. The frame is never frame 0, is page aligned and lies below 1 GB, so the
  caller's test against 0 is exact.
\<close>

theorem pmm_alloc_frame_spec:
  assumes "pmm_inv p" and "pmm_alloc_frame p = (a, p')"
  shows "(if free_set p = {} then a = 0 \<and> p' = p
    else \<exists>n \<in> free_set p. a = word_of_nat n * FRAME_SIZE \<and> a \<noteq> 0 \<and> a mod 4096 = 0 \<and>
      a < PMM_MAX_PHYS \<and> free_set p' = free_set p - {n} \<and> pmm_inv p')"
proof (cases "free_set p = {}")
  case True
  then show ?thesis using alloc_cases [OF assms(1)] assms(2) by auto
next
  case False
  then obtain f where f: "unat f \<in> free_set p" "a = f * FRAME_SIZE" "p' = take_frame f p"
    using alloc_cases [OF assms(1)] assms(2) by auto
  then have "a \<in> free_addrs p" by (auto simp: free_addrs_def intro: image_eqI [of _ _ "unat f"])
  from free_addrs_valid [OF assms(1) this] take_frame_inv [OF assms(1) f(1)]
  have h: "a = word_of_nat (unat f) * FRAME_SIZE \<and> a \<noteq> 0 \<and> a mod 4096 = 0 \<and>
      a < PMM_MAX_PHYS \<and> free_set p' = free_set p - {unat f} \<and> pmm_inv p'"
    by (simp add: f(2,3))
  show ?thesis unfolding if_not_P [OF False] using h f(1) by (rule bexI)
qed

text \<open>The allocator of the map above, with the kernel in frames 256 and 257.\<close>

definition pmm_example :: pmm where
  "pmm_example = pmm_init 0x100000 0x101001 one_entry 0 24 pmm_boot"

lemma pmm_example: "pmm_inv pmm_example" "free_set pmm_example = {258..<512}"
proof -
  have "entry_set \<lparr>me_size = 20, me_addr = 0x100000, me_len = 0x100000, me_type = 1\<rparr> = {256..<512}"
    by (auto simp: entry_set_def)
  then have "pmm_inv pmm_example \<and> free_set pmm_example = {256..<512} - {256..<258}"
    using pmm_init_effect [of pmm_boot "0x101001" _ one_entry 0 24 "0x100000", OF _ _ refl]
    by (simp add: one_entry_map pmm_boot_def entry_ok_def pmm_example_def)
  then show "pmm_inv pmm_example" "free_set pmm_example = {258..<512}" by auto
qed

theorem pmm_alloc_frame_spec_witness:
  "\<exists>a p'. pmm_alloc_frame pmm_example = (a, p') \<and> a \<noteq> 0 \<and> a mod 4096 = 0"
proof -
  obtain a p' where r: "pmm_alloc_frame pmm_example = (a, p')" by (meson surj_pair)
  have "free_set pmm_example \<noteq> {}" by (simp add: pmm_example(2))
  from pmm_alloc_frame_spec [OF pmm_example(1) r, unfolded if_not_P [OF this]]
  have "a \<noteq> 0 \<and> a mod 4096 = 0" by (elim bexE conjE) (intro conjI)
  with r show ?thesis by (intro exI conjI) auto
qed

text \<open>
  Frames handed out one after the other, as the loader takes them, are pairwise distinct,
  never 0, and all of them were free; and a run of \<open>n\<close> allocations succeeds whenever \<open>n\<close> frames
  are free.
\<close>

theorem pmm_allocations_distinct:
  assumes "pmm_inv p" and "n \<le> card (free_set p)" and "alloc_n pmm_alloc_frame n p = (xs, p')"
  shows "length xs = n \<and> distinct xs \<and> 0 \<notin> set xs \<and> set xs \<subseteq> free_addrs p \<and>
    free_addrs p' = free_addrs p - set xs"
proof -
  have "card (free_addrs p) = card (free_set p)"
    unfolding free_addrs_def
    by (intro card_image inj_on_subset [OF frame_addr_inj]) (auto simp: free_set_def)
  then have "n \<le> card (free_addrs p)" using assms(2) by simp
  from pmm_alloc.alloc_n_distinct [OF assms(1) this assms(3)]
  have r: "length xs = n \<and> distinct xs \<and> set xs \<subseteq> free_addrs p \<and> free_addrs p' = free_addrs p - set xs"
    by blast
  moreover have "0 \<notin> free_addrs p" using free_addrs_valid [OF assms(1), of 0] by blast
  ultimately show ?thesis by blast
qed

theorem pmm_allocations_distinct_witness:
  "distinct (fst (alloc_n pmm_alloc_frame 100 pmm_example))"
proof -
  have "100 \<le> card (free_set pmm_example)" by (simp add: pmm_example(2))
  from pmm_allocations_distinct [OF pmm_example(1) this surjective_pairing] show ?thesis by blast
qed

text \<open>
  Freeing the frame that was just allocated restores the set of free frames: no frame is
  lost and none is created.
\<close>

theorem pmm_free_undoes_alloc:
  assumes "pmm_inv p" and "free_set p \<noteq> {}" and "pmm_alloc_frame p = (a, p')"
  shows "free_addrs (pmm_free_frame a p') = free_addrs p \<and> pmm_inv (pmm_free_frame a p')"
proof -
  have ne: "free_addrs p \<noteq> {}" using assms(2) by (simp add: free_addrs_def)
  have inv: "pmm_inv p'" using pmm_alloc.invar_alloc [OF assms(1)] by (simp add: assms(3))
  have "a \<in> free_addrs p" using pmm_alloc.alloc_in [OF assms(1) ne] by (simp add: assms(3))
  from pmm_alloc.fr_valid [OF assms(1) this] have "pmm_inv (pmm_free_frame a p')"
    by (intro pmm_alloc.invar_release [OF inv]) blast+
  moreover have "free_addrs (pmm_free_frame a p') = free_addrs p"
    using pmm_alloc.alloc_release [OF assms(1) ne] by (simp add: assms(3))
  ultimately show ?thesis by blast
qed

theorem pmm_free_undoes_alloc_witness:
  "\<exists>a p'. pmm_alloc_frame pmm_example = (a, p') \<and>
     free_addrs (pmm_free_frame a p') = free_addrs pmm_example"
proof -
  obtain a p' where r: "pmm_alloc_frame pmm_example = (a, p')" by (meson surj_pair)
  from pmm_free_undoes_alloc [OF pmm_example(1) _ r] r show ?thesis
    unfolding pmm_example(2) by auto
qed

text \<open>
  A memory map that describes an available range twice, which the multiboot specification
  does not exclude, leaves the set of free frames right but counts the range twice, so that
  \<open>pmm_free_kb\<close> reports more memory than there is.
\<close>

theorem overlapping_entries_overcount:
  assumes "entry_ok e" and "pmm_inv p" and "entry_set e \<inter> free_set p = {}" and "entry_set e \<noteq> {}"
  defines "q \<equiv> add_entry e (add_entry e p)"
  shows "free_set q = free_set p \<union> entry_set e \<and>
    p_free q = word_of_nat (card (free_set q) + card (entry_set e)) \<and>
    p_free q \<noteq> word_of_nat (card (free_set q))"
proof -
  have fin: "finite (entry_set e)" by (rule finite_subset [of _ "{..<NFRAMES}"]) (auto dest: entry_set_bounds)
  have le: "card (entry_set e) \<le> NFRAMES"
    using card_mono [of "{..<NFRAMES}" "entry_set e"] by (auto dest: entry_set_bounds)
  have fs: "free_set q = free_set p \<union> entry_set e" using assms(1) by (simp add: q_def add_entry_effect)
  then have c: "card (free_set q) = card (free_set p) + card (entry_set e)"
    using assms(3) fin by (simp add: card_Un_disjoint Int_commute)
  have pf: "p_free q = word_of_nat (card (free_set q) + card (entry_set e))"
    using assms(1,2) unfolding c by (simp add: q_def add_entry_effect pmm_inv_def)
  have "(word_of_nat (card (entry_set e)) :: 64 word) \<noteq> 0"
    using le assms(4) fin by (simp add: word_unat_eq_iff unat_of_nat)
  with fs pf show ?thesis by simp
qed

theorem overlapping_entries_overcount_witness:
  "\<exists>e p. entry_set e \<noteq> {} \<and> p_free (add_entry e (add_entry e p)) \<noteq>
     word_of_nat (card (free_set (add_entry e (add_entry e p))))"
proof -
  let ?e = "\<lparr>me_size = 20, me_addr = 0x200000, me_len = 0x1000, me_type = 1\<rparr>"
  have "entry_set ?e = {512}" by (auto simp: entry_set_def)
  moreover have "entry_ok ?e" by (simp add: entry_ok_def)
  ultimately show ?thesis
    using overlapping_entries_overcount [of ?e pmm_example] pmm_example by auto
qed

end
