(* ===== verification/Vmm.thy ===== *)
theory Vmm
  imports Pmm
begin

text \<open>
  Four-level paging, \<^verbatim>\<open>arch/x86_64/vmm.c\<close>. Memory is a function from the address of an aligned
  64-bit word to its value; the kernel reaches physical memory at its own address, as the boot code
  maps it. A page table is the address of its first entry. The translation look-aside buffer, which
  \<open>flush_all\<close> empties after every change, has no state in the model.
\<close>

section \<open>State\<close>

abbreviation PTE_P :: "64 word" where "PTE_P \<equiv> 0x001"
abbreviation PTE_W :: "64 word" where "PTE_W \<equiv> 0x002"
abbreviation PTE_U :: "64 word" where "PTE_U \<equiv> 0x004"
abbreviation PT_ENTRIES :: nat where "PT_ENTRIES \<equiv> 512"

type_synonym qmem = "64 word \<Rightarrow> 64 word"

record vm =
  vm_pml4 :: "64 word"
  vm_mem :: qmem
  vm_pmm :: pmm

text \<open>Entry \<open>i\<close> of the table at \<open>t\<close>; the index of an address at a level.\<close>

definition ent :: "vm \<Rightarrow> 64 word \<Rightarrow> 64 word \<Rightarrow> 64 word" where
  "ent s t i = vm_mem s (t + 8 * i)"

definition set_ent :: "64 word \<Rightarrow> 64 word \<Rightarrow> 64 word \<Rightarrow> vm \<Rightarrow> vm" where
  "set_ent t i e s = s\<lparr>vm_mem := (vm_mem s)(t + 8 * i := e)\<rparr>"

definition pidx :: "64 word \<Rightarrow> nat \<Rightarrow> 64 word" where
  "pidx virt level = drop_bit (12 + 9 * level) virt AND 0x1FF"

section \<open>Operations\<close>

definition table_alloc :: "vm \<Rightarrow> 64 word option \<times> vm" where
  "table_alloc s =
     (let (p, q) = pmm_alloc_frame (vm_pmm s); s1 = s\<lparr>vm_pmm := q\<rparr> in
      if p = 0 then (None, s1)
      else (Some p, fold (\<lambda>i. set_ent p (word_of_nat i) 0) [0..<PT_ENTRIES] s1))"

fun walk_from :: "64 word \<Rightarrow> bool \<Rightarrow> nat \<Rightarrow> 64 word \<Rightarrow> vm \<Rightarrow> 64 word option \<times> vm" where
  "walk_from virt create 0 t s = (Some t, s)"
| "walk_from virt create (Suc l) t s =
     (let i = pidx virt (Suc l) in
      if ent s t i AND PTE_P = 0 then
        if \<not> create then (None, s)
        else (case table_alloc s of
            (None, s1) \<Rightarrow> (None, s1)
          | (Some nt, s1) \<Rightarrow>
            let s2 = set_ent t i (nt OR PTE_P OR PTE_W OR PTE_U) s1
            in walk_from virt create l (ent s2 t i AND NOT 0xFFF) s2)
      else walk_from virt create l (ent s t i AND NOT 0xFFF) s)"

definition vmm_walk :: "64 word \<Rightarrow> bool \<Rightarrow> vm \<Rightarrow> 64 word option \<times> vm" where
  "vmm_walk virt create s = walk_from virt create 3 (vm_pml4 s) s"

definition split_large :: "64 word \<Rightarrow> vm \<Rightarrow> int \<times> vm" where
  "split_large virt s =
     (let pdpt_idx = drop_bit 30 virt AND 0x1FF; pd_idx = drop_bit 21 virt AND 0x1FF;
          pdpt = ent s (vm_pml4 s) 0 AND NOT 0xFFF in
      if ent s pdpt pdpt_idx AND PTE_P = 0 then (-1, s)
      else
        let pd = ent s pdpt pdpt_idx AND NOT 0xFFF in
        if ent s pd pd_idx AND PTE_P = 0 \<or> ent s pd pd_idx AND 0x80 = 0 then (0, s)
        else (case table_alloc s of
            (None, s1) \<Rightarrow> (-1, s1)
          | (Some pt, s1) \<Rightarrow>
            let base = ent s1 pd pd_idx AND NOT 0x1FFFFF; flags = ent s1 pd pd_idx AND 0xFFF AND NOT 0x80;
                s2 = fold (\<lambda>i. set_ent pt (word_of_nat i) (base + word_of_nat i * 0x1000 + flags)) [0..<PT_ENTRIES] s1
            in (0, set_ent pd pd_idx (pt OR PTE_P OR PTE_W OR PTE_U) s2)))"

definition vmm_map :: "64 word \<Rightarrow> 64 word \<Rightarrow> 64 word \<Rightarrow> vm \<Rightarrow> vm" where
  "vmm_map virt phys flags s =
     (case vmm_walk virt True (snd (split_large virt s)) of
        (None, s2) \<Rightarrow> s2
      | (Some pt, s2) \<Rightarrow> set_ent pt (pidx virt 0) ((phys AND NOT 0xFFF) OR (flags AND 0xFFF) OR PTE_P) s2)"

text \<open>The pages a loop \<open>for (v = a; v < e; v += 0x1000)\<close> visits, for a bound at which it ends.\<close>

definition page_range :: "64 word \<Rightarrow> 64 word \<Rightarrow> 64 word list" where
  "page_range a e = map (\<lambda>k. a + 0x1000 * word_of_nat k) [0..<(unat e - unat a + 4095) div 4096]"

definition set_user_page :: "64 word \<Rightarrow> vm \<Rightarrow> vm" where
  "set_user_page v s =
     (case vmm_walk v False (snd (split_large v s)) of
        (None, s2) \<Rightarrow> s2
      | (Some pt, s2) \<Rightarrow>
        if ent s2 pt (pidx v 0) AND PTE_P \<noteq> 0 then set_ent pt (pidx v 0) (ent s2 pt (pidx v 0) OR PTE_U) s2 else s2)"

definition vmm_set_user :: "64 word \<Rightarrow> 64 word \<Rightarrow> vm \<Rightarrow> vm" where
  "vmm_set_user virt len s = fold set_user_page (page_range (virt AND NOT 0xFFF) ((virt + len + 0xFFF) AND NOT 0xFFF)) s"

fun phys_from :: "64 word \<Rightarrow> nat \<Rightarrow> 64 word \<Rightarrow> vm \<Rightarrow> 64 word" where
  "phys_from virt 0 t s =
     (let e = ent s t (pidx virt 0) in
      if e AND PTE_P = 0 then 0 else (e AND NOT 0xFFF) + (virt AND 0xFFF))"
| "phys_from virt (Suc l) t s =
     (let e = ent s t (pidx virt (Suc l)) in
      if e AND PTE_P = 0 then 0
      else if l = 0 \<and> e AND 0x80 \<noteq> 0 then (e AND NOT 0x1FFFFF) + (virt AND 0x1FFFFF)
      else phys_from virt l (e AND NOT 0xFFF) s)"

definition vmm_phys :: "vm \<Rightarrow> 64 word \<Rightarrow> 64 word" where
  "vmm_phys s virt = phys_from virt 3 (vm_pml4 s) s"

fun leaf_from :: "64 word \<Rightarrow> nat \<Rightarrow> 64 word \<Rightarrow> vm \<Rightarrow> 64 word option" where
  "leaf_from virt 0 t s = Some t"
| "leaf_from virt (Suc l) t s =
     (let e = ent s t (pidx virt (Suc l)) in
      if e AND PTE_P = 0 \<or> l = 0 \<and> e AND 0x80 \<noteq> 0 then None else leaf_from virt l (e AND NOT 0xFFF) s)"

definition unmap_page :: "64 word \<Rightarrow> vm \<Rightarrow> vm" where
  "unmap_page v s =
     (case leaf_from v 3 (vm_pml4 s) s of
        None \<Rightarrow> s
      | Some t \<Rightarrow>
        let e = ent s t (pidx v 0) in
        if e AND PTE_P \<noteq> 0 then set_ent t (pidx v 0) 0 (s\<lparr>vm_pmm := pmm_free_frame (e AND NOT 0xFFF) (vm_pmm s)\<rparr>) else s)"

text \<open>With a bound in the last page of the address space \<open>v\<close> wraps to 0 and the loop never ends: the value None.\<close>

definition vmm_unmap_range :: "64 word \<Rightarrow> 64 word \<Rightarrow> vm \<Rightarrow> vm option" where
  "vmm_unmap_range start e s =
     (if 0xFFFFFFFFFFFFF000 < e then None
      else Some (fold unmap_page (page_range (start AND NOT 0xFFF) e) s))"

section \<open>Addresses of entries\<close>

definition aligned :: "64 word \<Rightarrow> bool" where
  "aligned t \<longleftrightarrow> unat t mod 4096 = 0"

lemma mask_consts: "(0xFFF :: 64 word) = mask 12" "(0x1FF :: 64 word) = mask 9" "(0x1FFFFF :: 64 word) = mask 21"
  by (simp_all add: mask_eq_exp_minus_1)

lemma unat_low12: "unat ((t :: 64 word) AND 0xFFF) = unat t mod 4096"
  by (simp add: mask_consts take_bit_eq_mod unsigned_take_bit_eq unat_mod flip: take_bit_eq_mask)

lemma aligned_iff: "aligned t \<longleftrightarrow> t AND 0xFFF = 0"
  using unat_low12 [of t] unat_eq_0 [of "t AND 0xFFF"] by (simp add: aligned_def)

lemma aligned_bits: "aligned t \<longleftrightarrow> (\<forall>n < 12. \<not> bit t n)"
proof -
  have l: "n < 64" if "n < 12" for n :: nat using that by simp
  show ?thesis unfolding aligned_iff by (auto simp: mask_consts bit_eq_iff bit_simps) (meson l)
qed

lemma aligned_mask [simp]: "aligned (e AND NOT 0xFFF)" "aligned (e AND - 4096)"
proof -
  show "aligned (e AND NOT 0xFFF)" unfolding aligned_bits by (simp add: mask_consts bit_simps)
  then show "aligned (e AND - 4096)" by simp
qed

lemma masked: "unat (e AND NOT 0xFFF) = unat (e :: 64 word) div 4096 * 4096"
proof -
  have "e AND NOT 0xFFF = push_bit 12 (drop_bit 12 e)"
    by (auto simp: mask_consts bit_eq_iff bit_simps)
  moreover have "unat e div 4096 * 4096 < 18446744073709551616"
    using word64_bound [of e] by linarith
  ultimately show ?thesis
    by (simp add: push_bit_eq_mult drop_bit_eq_div unat_word_ariths unat_div)
qed

lemma idx_bound [simp]: "pidx v l < 512" "unat (pidx v l) < 512"
proof -
  have "pidx v l \<le> 0x1FF" unfolding pidx_def by (rule word_and_le1)
  then show "pidx v l < 512" "unat (pidx v l) < 512" by (simp_all add: word_less_nat_alt word_le_nat_alt)
qed

lemma slot_addr:
  assumes "aligned t" "unat i < 512"
  shows "unat (t + 8 * i) = unat t + 8 * unat i"
proof -
  obtain k where k: "unat t = 4096 * k" using assms(1) unfolding aligned_def by (metis dvdE mod_0_imp_dvd)
  then have "k < 4503599627370496" using word64_bound [of t] by linarith
  then have "unat t \<le> 18446744073709551616 - 4096" using k by linarith
  then show ?thesis using assms(2) by (simp add: unat_word_ariths)
qed

lemma slot_inj:
  assumes "aligned t" "aligned u" "unat i < 512" "unat j < 512" "t + 8 * i = u + 8 * j"
  shows "t = u \<and> i = j"
proof -
  have e: "unat t + 8 * unat i = unat u + 8 * unat j" using slot_addr assms by metis
  moreover have "(unat t + 8 * unat i) div 4096 = unat t div 4096" "(unat u + 8 * unat j) div 4096 = unat u div 4096"
    using assms(3,4) by (simp_all add: div_add1_eq [of "unat _"] assms(1,2) [unfolded aligned_def])
  ultimately have "unat t = unat u" using assms(1,2) unfolding aligned_def by (metis div_mult_mod_eq)
  with e show ?thesis by (simp add: word_unat_eq_iff)
qed

section \<open>The tree of tables\<close>

text \<open>The table reached from the root by a path of indices, the deepest index first.\<close>

fun tab :: "vm \<Rightarrow> 64 word list \<Rightarrow> 64 word option" where
  "tab s [] = Some (vm_pml4 s)"
| "tab s (i # p) =
     (case tab s p of
        None \<Rightarrow> None
      | Some t \<Rightarrow>
        if ent s t i AND PTE_P = 0 \<or> length p = 2 \<and> ent s t i AND 0x80 \<noteq> 0 then None else Some (ent s t i AND NOT 0xFFF))"

definition path_ok :: "64 word list \<Rightarrow> bool" where
  "path_ok p \<longleftrightarrow> length p \<le> 3 \<and> (\<forall>i \<in> set p. unat i < 512)"

lemma path_ok_simps [simp]: "path_ok []" "path_ok (i # p) \<longleftrightarrow> unat i < 512 \<and> length p < 3 \<and> path_ok p"
  by (auto simp: path_ok_def)

text \<open>
  The invariant: the tables form a tree (no table is reached by two paths), none of them is a
  free frame of the allocator, and the root's first entry is in use.
\<close>

definition pt_inv :: "vm \<Rightarrow> bool" where
  "pt_inv s \<longleftrightarrow> pmm_inv (vm_pmm s) \<and> aligned (vm_pml4 s) \<and> tab s [0] \<noteq> None
     \<and> (\<forall>p t. path_ok p \<and> tab s p = Some t \<longrightarrow> t \<notin> free_addrs (vm_pmm s))
     \<and> (\<forall>p q t. path_ok p \<and> path_ok q \<and> tab s p = Some t \<and> tab s q = Some t \<longrightarrow> p = q)"

lemma pt_invD:
  assumes "pt_inv s"
  shows "pmm_inv (vm_pmm s)" "aligned (vm_pml4 s)" "tab s [0] \<noteq> None"
    "path_ok p \<Longrightarrow> tab s p = Some t \<Longrightarrow> t \<notin> free_addrs (vm_pmm s)"
    "path_ok p \<Longrightarrow> path_ok q \<Longrightarrow> tab s p = Some t \<Longrightarrow> tab s q = Some t \<Longrightarrow> p = q"
  using assms unfolding pt_inv_def by blast+

lemma tab_aligned: "aligned (vm_pml4 s) \<Longrightarrow> tab s p = Some t \<Longrightarrow> aligned t"
  by (cases p) (auto split: option.splits if_splits)

lemma ent_set_ent:
  assumes "aligned t" "aligned u" "unat i < 512" "unat j < 512"
  shows "ent (set_ent t i e s) u j = (if u = t \<and> j = i then e else ent s u j)"
  using slot_inj [OF assms] by (auto simp: ent_def set_ent_def)

lemma set_ent_simps [simp]: "vm_pml4 (set_ent t i e s) = vm_pml4 s" "vm_pmm (set_ent t i e s) = vm_pmm s"
  by (simp_all add: set_ent_def)

lemma tab_None_ext: "tab s p = None \<Longrightarrow> tab s (q @ p) = None"
  by (induction q) auto

text \<open>Writing one entry leaves alone every path that does not pass through it.\<close>

lemma tab_set_ent:
  assumes "pt_inv s" "path_ok p" "tab s p = Some t" "unat i < 512" "path_ok q" "\<not> suffix (i # p) q"
  shows "tab (set_ent t i e s) q = tab s q"
  using assms(5,6)
proof (induction q)
  case (Cons j q)
  then have IH: "tab (set_ent t i e s) q = tab s q" by (auto simp: suffix_Cons)
  have "ent (set_ent t i e s) u j = ent s u j" if u: "tab s q = Some u" for u
  proof -
    have "u \<noteq> t \<or> j \<noteq> i" using pt_invD(5) [OF assms(1,2) _ assms(3), of q] u Cons.prems by auto
    then show ?thesis
      using ent_set_ent [of t u i j e s] tab_aligned [OF pt_invD(2) [OF assms(1)]] assms(3,4) u Cons.prems(1) by auto
  qed
  then show ?case using IH by (simp split: option.splits)
qed simp

text \<open>Changes outside the tables do not change the tree.\<close>

definition tabs :: "vm \<Rightarrow> 64 word set" where
  "tabs s = {t. \<exists>p. path_ok p \<and> tab s p = Some t}"

lemma tabsI: "path_ok p \<Longrightarrow> tab s p = Some t \<Longrightarrow> t \<in> tabs s"
  by (auto simp: tabs_def)

lemma tabs_aligned: "pt_inv s \<Longrightarrow> t \<in> tabs s \<Longrightarrow> aligned t"
  using tab_aligned pt_invD(2) unfolding tabs_def by blast

lemma tabs_not_free: "pt_inv s \<Longrightarrow> tabs s \<inter> free_addrs (vm_pmm s) = {}"
  using pt_invD(4) unfolding tabs_def by blast

lemma tree_cong:
  assumes "vm_pml4 s' = vm_pml4 s" "\<And>u j. u \<in> tabs s \<Longrightarrow> unat j < 512 \<Longrightarrow> ent s' u j = ent s u j" "path_ok q"
  shows "tab s' q = tab s q"
  using assms(3)
proof (induction q)
  case (Cons j q)
  then have "ent s' u j = ent s u j" if "tab s q = Some u" for u
    using assms(2) [OF tabsI [OF _ that]] by simp
  then show ?case using Cons by (simp split: option.splits)
qed (simp add: assms(1))

lemma tree_cong_inv:
  assumes "pt_inv s" "vm_pml4 s' = vm_pml4 s" "\<And>u j. u \<in> tabs s \<Longrightarrow> unat j < 512 \<Longrightarrow> ent s' u j = ent s u j"
    and "pmm_inv (vm_pmm s')" "free_addrs (vm_pmm s') \<inter> tabs s = {}"
  shows "pt_inv s'" "tabs s' = tabs s"
proof -
  have t: "tab s' q = tab s q" if "path_ok q" for q using tree_cong assms(2,3) that by blast
  then show tt: "tabs s' = tabs s" by (auto simp: tabs_def)
  have "tab s' [0] \<noteq> None" using t [of "[0]"] pt_invD(3) [OF assms(1)] by (simp del: tab.simps)
  moreover have "u \<notin> free_addrs (vm_pmm s')" if "path_ok q" "tab s' q = Some u" for q u
    using tabsI [OF that] assms(5) tt by auto
  moreover have "q = r" if "path_ok q" "path_ok r" "tab s' q = Some u" "tab s' r = Some u" for q r u
    using pt_invD(5) [OF assms(1) that(1,2)] that t by auto
  ultimately show "pt_inv s'" using assms(2,4) pt_invD(2) [OF assms(1)] unfolding pt_inv_def by auto
qed

section \<open>Allocating a table\<close>

lemma same_frame: "aligned p \<Longrightarrow> unat i < 512 \<Longrightarrow> (p + 8 * i) div 4096 = p div 4096"
  using slot_addr [of p i] div_add1_eq [of "unat p" "8 * unat i" 4096] by (simp add: aligned_def word_unat_eq_iff unat_div)

lemma fill_table:
  assumes "aligned p"
  shows "n \<le> 512 \<Longrightarrow>
      (\<forall>u j. aligned u \<and> unat j < 512 \<longrightarrow> ent (fold (\<lambda>i. set_ent p (word_of_nat i) (g i)) [0..<n] s) u j
         = (if u = p \<and> unat j < n then g (unat j) else ent s u j))
    \<and> (\<forall>a. a div 4096 \<noteq> p div 4096 \<longrightarrow> vm_mem (fold (\<lambda>i. set_ent p (word_of_nat i) (g i)) [0..<n] s) a = vm_mem s a)
    \<and> vm_pml4 (fold (\<lambda>i. set_ent p (word_of_nat i) (g i)) [0..<n] s) = vm_pml4 s
    \<and> vm_pmm (fold (\<lambda>i. set_ent p (word_of_nat i) (g i)) [0..<n] s) = vm_pmm s"
proof (induction n)
  case (Suc n)
  have w: "unat (word_of_nat n :: 64 word) = n" using Suc.prems by (simp add: unat_of_nat)
  have e: "j = word_of_nat n \<longleftrightarrow> unat j = n" for j :: "64 word" using w by (metis word_unat_eq_iff)
  have sf: "(p + 8 * word_of_nat n) div 4096 = p div 4096" using same_frame [OF assms] w Suc.prems by simp
  have "ent (set_ent p (word_of_nat n) x t) u j = (if u = p \<and> unat j = n then x else ent t u j)"
    if "aligned u" "unat j < 512" for u j x t
    using ent_set_ent [OF assms that(1) _ that(2), of "word_of_nat n"] w e Suc.prems by simp
  moreover have "vm_mem (set_ent p (word_of_nat n) x t) a = vm_mem t a" if "a div 4096 \<noteq> p div 4096" for a x t
    using that sf by (auto simp: set_ent_def)
  ultimately show ?case using Suc.IH Suc.prems by (simp add: less_Suc_eq)
qed simp

lemma table_alloc_ok:
  assumes "pmm_inv (vm_pmm s)" "free_addrs (vm_pmm s) \<noteq> {}"
  obtains nt s1 where "table_alloc s = (Some nt, s1)" "nt \<in> free_addrs (vm_pmm s)" "aligned nt" "pmm_inv (vm_pmm s1)"
    "free_addrs (vm_pmm s1) = free_addrs (vm_pmm s) - {nt}" "vm_pml4 s1 = vm_pml4 s"
    "\<And>u j. aligned u \<Longrightarrow> unat j < 512 \<Longrightarrow> ent s1 u j = (if u = nt then 0 else ent s u j)"
    "\<And>a. a div 4096 \<noteq> nt div 4096 \<Longrightarrow> vm_mem s1 a = vm_mem s a"
proof -
  obtain nt q where a: "pmm_alloc_frame (vm_pmm s) = (nt, q)" by fastforce
  have n: "nt \<in> free_addrs (vm_pmm s)" "pmm_inv q" "free_addrs q = free_addrs (vm_pmm s) - {nt}"
    using pmm_alloc.alloc_in [OF assms] pmm_alloc.invar_alloc [OF assms(1)] pmm_alloc.fr_alloc [OF assms] a by simp_all
  have v: "nt \<noteq> 0" "aligned nt" using free_addrs_valid [OF assms(1) n(1)] by (auto simp: aligned_def word_unat_eq_iff unat_mod)
  let ?s = "fold (\<lambda>i. set_ent nt (word_of_nat i) 0) [0..<PT_ENTRIES] (s\<lparr>vm_pmm := q\<rparr>)"
  have "table_alloc s = (Some nt, ?s)" using a v(1) by (simp add: table_alloc_def)
  then show thesis
    using n v that [of nt ?s] fill_table [OF v(2), of 512 "\<lambda>_. 0" "s\<lparr>vm_pmm := q\<rparr>"] by (simp add: ent_def)
qed

section \<open>Linking a table\<close>

lemma link_entry:
  assumes "aligned nt"
  shows "(nt OR PTE_P OR PTE_W OR PTE_U) AND NOT 0xFFF = nt" "(nt OR PTE_P OR PTE_W OR PTE_U) AND PTE_P \<noteq> 0"
    "(nt OR PTE_P OR PTE_W OR PTE_U) AND 0x80 = 0"
proof -
  have z: "\<not> bit nt n" if "n < 12" for n using assms that by (simp add: aligned_bits)
  have e: "PTE_P OR PTE_W OR PTE_U = mask 3" by (simp add: mask_eq_exp_minus_1)
  show "(nt OR PTE_P OR PTE_W OR PTE_U) AND NOT 0xFFF = nt"
    unfolding e mask_consts by (rule bit_word_eqI) (auto simp: bit_and_iff bit_or_iff bit_not_iff bit_mask_iff intro: ccontr dest: z)
  have "bit (nt OR mask 3) 0" by (simp add: bit_or_iff bit_mask_iff)
  then show "(nt OR PTE_P OR PTE_W OR PTE_U) AND PTE_P \<noteq> 0" unfolding e by (simp add: and_one_eq odd_iff_mod_2_eq_one bit_0)
  show "(nt OR PTE_P OR PTE_W OR PTE_U) AND 0x80 = 0"
    using and_exp_eq_0_iff_not_bit [of "nt OR mask 3" 7] z [of 7] unfolding e by (simp add: bit_or_iff bit_mask_iff)
qed

text \<open>
  A new table \<open>nt\<close> under an entry that led nowhere: one more path, and everything else as before.
  Its own entries lead nowhere either, unless it is a last-level table.
\<close>

lemma link_table:
  assumes "pt_inv s" "path_ok p" "length p < 3" "tab s p = Some t" "unat i < 512" "tab s (i # p) = None"
    and "aligned nt" "nt \<notin> free_addrs (vm_pmm s)" "\<And>q. path_ok q \<Longrightarrow> tab s q \<noteq> Some nt"
    and "length p < 2 \<Longrightarrow> \<forall>j. unat j < 512 \<longrightarrow> ent s nt j AND PTE_P = 0"
  defines "s' \<equiv> set_ent t i (nt OR PTE_P OR PTE_W OR PTE_U) s"
  shows "pt_inv s'" "path_ok q \<Longrightarrow> tab s' q = (if q = i # p then Some nt else tab s q)"
proof -
  have al: "aligned t" using tab_aligned pt_invD(2) assms(1,4) by blast
  have tp: "tab s' p = Some t"
    using tab_set_ent [OF assms(1,2,4,5,2)] assms(4) by (metis s'_def suffix_length_le length_Cons Suc_n_not_le_n)
  have e: "ent s' u j = (if u = t \<and> j = i then nt OR PTE_P OR PTE_W OR PTE_U else ent s u j)" if "aligned u" "unat j < 512" for u j
    unfolding s'_def by (rule ent_set_ent [OF al that(1) assms(5) that(2)])
  have tip: "tab s' (i # p) = Some nt"
    using tp e [OF al assms(5)] link_entry [OF assms(7)] by simp
  have main: "tab s' q = (if q = i # p then Some nt else tab s q)" if "path_ok q" for q
  proof (cases "suffix (i # p) q")
    case False
    then show ?thesis using tab_set_ent [OF assms(1,2,4,5) that] by (auto simp: s'_def)
  next
    case True
    then obtain r where r: "q = r @ i # p" by (auto simp: suffix_def)
    show ?thesis
    proof (cases r rule: rev_cases)
      case (snoc r' j)
      have "length p < 2" "unat j < 512" using that r snoc by (auto simp: path_ok_def)
      then have "ent s' nt j AND PTE_P = 0"
        using e [OF assms(7)] assms(10) assms(4,9) assms(2) by auto
      then have "tab s' (j # i # p) = None" using tip by simp
      then have "tab s' q = None" using tab_None_ext [of s' "j # i # p" r'] r snoc by simp
      moreover have "tab s q = None" using tab_None_ext [OF assms(6), of r] r by simp
      ultimately show ?thesis using r snoc by simp
    qed (use tip r in simp)
  qed
  show "path_ok q \<Longrightarrow> tab s' q = (if q = i # p then Some nt else tab s q)" by (rule main)
  have "tab s' [0] \<noteq> None" using main [of "[0]"] pt_invD(3) [OF assms(1)] by auto
  moreover have "u \<notin> free_addrs (vm_pmm s')" if "path_ok q" "tab s' q = Some u" for q u
    using main [OF that(1)] that assms(8) pt_invD(4) [OF assms(1) that(1)] by (auto simp: s'_def split: if_splits)
  moreover have "q = r" if "path_ok q" "path_ok r" "tab s' q = Some u" "tab s' r = Some u" for q r u
    using main [OF that(1)] main [OF that(2)] that assms(9) pt_invD(5) [OF assms(1) that(1,2), of u] by (auto split: if_splits)
  ultimately show "pt_inv s'"
    using pt_invD(1,2) [OF assms(1)] unfolding pt_inv_def by (simp add: s'_def) blast
qed

text \<open>Allocating leaves the tree as it was, and the new table is not one of it.\<close>

lemma alloc_keeps_tree:
  assumes "pt_inv s" "free_addrs (vm_pmm s) \<noteq> {}"
  obtains nt s1 where "table_alloc s = (Some nt, s1)" "pt_inv s1" "aligned nt" "nt \<in> free_addrs (vm_pmm s)"
    "free_addrs (vm_pmm s1) = free_addrs (vm_pmm s) - {nt}" "vm_pml4 s1 = vm_pml4 s"
    "\<And>q. path_ok q \<Longrightarrow> tab s1 q = tab s q" "\<And>q. path_ok q \<Longrightarrow> tab s1 q \<noteq> Some nt"
    "\<And>u j. aligned u \<Longrightarrow> unat j < 512 \<Longrightarrow> ent s1 u j = (if u = nt then 0 else ent s u j)"
    "\<And>a. a div 4096 \<noteq> nt div 4096 \<Longrightarrow> vm_mem s1 a = vm_mem s a"
proof (rule table_alloc_ok [OF pt_invD(1) [OF assms(1)] assms(2)])
  fix nt s1
  assume a: "table_alloc s = (Some nt, s1)" "nt \<in> free_addrs (vm_pmm s)" "aligned nt" "pmm_inv (vm_pmm s1)"
      "free_addrs (vm_pmm s1) = free_addrs (vm_pmm s) - {nt}" "vm_pml4 s1 = vm_pml4 s"
    and e: "\<And>u j. aligned u \<Longrightarrow> unat j < 512 \<Longrightarrow> ent s1 u j = (if u = nt then 0 else ent s u j)"
    and m: "\<And>a. a div 4096 \<noteq> nt div 4096 \<Longrightarrow> vm_mem s1 a = vm_mem s a"
  have e': "ent s1 u j = ent s u j" if "u \<in> tabs s" "unat j < 512" for u j
    using e tabs_aligned [OF assms(1) that(1)] tabs_not_free [OF assms(1)] a(2) that by auto
  note t = tree_cong [OF a(6) e']
  have n: "tab s1 q \<noteq> Some nt" if "path_ok q" for q
    using t [OF _ _ that] pt_invD(4) [OF assms(1) that] a(2) by auto
  have "pt_inv s1"
    by (rule tree_cong_inv [OF assms(1) a(6) e' a(4)]) (use a(5) tabs_not_free [OF assms(1)] in auto)
  then show thesis using that a e m t n by blast
qed

section \<open>What the tables map\<close>

definition vpath :: "64 word \<Rightarrow> nat \<Rightarrow> 64 word list" where
  "vpath v l = map (pidx v) [Suc l..<4]"

lemma vpath_simps: "vpath v 3 = []" "l < 3 \<Longrightarrow> vpath v l = pidx v (Suc l) # vpath v (Suc l)" "length (vpath v l) = 3 - l"
  "path_ok (vpath v l)"
  by (auto simp: vpath_def upt_conv_Cons path_ok_def)

text \<open>
  The frame and the flags of the page of \<open>v\<close>, a page of a large one included: this is the map the
  tables stand for.
\<close>

definition leaf :: "vm \<Rightarrow> 64 word \<Rightarrow> (64 word \<times> 64 word) option" where
  "leaf s v =
     (case tab s (vpath v 1) of
        None \<Rightarrow> None
      | Some pd \<Rightarrow>
        let e = ent s pd (pidx v 1) in
        if e AND PTE_P = 0 then None
        else if e AND 0x80 \<noteq> 0 then Some ((e AND NOT 0x1FFFFF) + push_bit 12 (pidx v 0), e AND 0xFFF AND NOT 0x80)
        else
          let e0 = ent s (e AND NOT 0xFFF) (pidx v 0) in
          if e0 AND PTE_P = 0 then None else Some (e0 AND NOT 0xFFF, e0 AND 0xFFF))"

lemma page_offset: "push_bit 12 (pidx v 0) + (v AND 0xFFF) = v AND 0x1FFFFF"
proof -
  have "push_bit 12 (pidx v 0) + (v AND 0xFFF) = push_bit 12 (pidx v 0) OR (v AND 0xFFF)"
    by (rule disjunctive_add) (auto simp: mask_consts bit_simps)
  also have "\<dots> = v AND 0x1FFFFF"
    unfolding pidx_def mask_consts by (rule bit_word_eqI) (auto simp: bit_simps)
  finally show ?thesis .
qed

lemma vmm_phys_leaf: "vmm_phys s v = (case leaf s v of None \<Rightarrow> 0 | Some (b, f) \<Rightarrow> b + (v AND 0xFFF))"
proof -
  have v: "vpath v 1 = [pidx v (Suc (Suc 0)), pidx v (Suc (Suc (Suc 0)))]" by (simp add: vpath_def upt_rec)
  show ?thesis
    unfolding vmm_phys_def numeral_3_eq_3 phys_from.simps leaf_def v
    by (auto simp: Let_def page_offset add.assoc)
qed

lemma leaf_cong:
  assumes "vm_pml4 s' = vm_pml4 s" "\<And>u j. u \<in> tabs s \<Longrightarrow> unat j < 512 \<Longrightarrow> ent s' u j = ent s u j"
  shows "leaf s' v = leaf s v"
proof (cases "tab s (vpath v 1)")
  case (Some pd)
  have t: "tab s' (vpath v 1) = tab s (vpath v 1)" by (rule tree_cong [OF assms vpath_simps(4)])
  have e: "ent s' pd (pidx v 1) = ent s pd (pidx v 1)" by (rule assms(2) [OF tabsI [OF vpath_simps(4) Some]]) simp
  have "ent s pd (pidx v 1) AND PTE_P \<noteq> 0 \<Longrightarrow> ent s pd (pidx v 1) AND 0x80 = 0 \<Longrightarrow>
      tab s (vpath v 0) = Some (ent s pd (pidx v 1) AND NOT 0xFFF)"
    using Some by (simp add: vpath_simps(2) [of 0])
  then have "ent s pd (pidx v 1) AND PTE_P \<noteq> 0 \<Longrightarrow> ent s pd (pidx v 1) AND 0x80 = 0 \<Longrightarrow>
      ent s' (ent s pd (pidx v 1) AND NOT 0xFFF) (pidx v 0) = ent s (ent s pd (pidx v 1) AND NOT 0xFFF) (pidx v 0)"
    using assms(2) [OF tabsI [OF vpath_simps(4)]] by simp
  then show ?thesis using t Some e by (auto simp: leaf_def Let_def)
qed (simp add: leaf_def tree_cong [OF assms vpath_simps(4)])

section \<open>Growing the tree\<close>

text \<open>
  What the operations below have in common: at most \<open>k\<close> frames are taken from the allocator, the new
  tables are such frames, and frames that are neither tables nor free keep their contents.
\<close>

definition grows :: "nat \<Rightarrow> vm \<Rightarrow> vm \<Rightarrow> bool" where
  "grows k s s' \<longleftrightarrow> pt_inv s' \<and> vm_pml4 s' = vm_pml4 s \<and> free_addrs (vm_pmm s') \<subseteq> free_addrs (vm_pmm s)
     \<and> card (free_addrs (vm_pmm s)) \<le> card (free_addrs (vm_pmm s')) + k
     \<and> tabs s \<subseteq> tabs s' \<and> tabs s' \<subseteq> tabs s \<union> free_addrs (vm_pmm s)
     \<and> (\<forall>f a. aligned f \<and> f \<notin> tabs s \<and> f \<notin> free_addrs (vm_pmm s) \<and> a div 4096 = f div 4096 \<longrightarrow> vm_mem s' a = vm_mem s a)"

lemma grows_refl [simp]: "pt_inv s \<Longrightarrow> grows 0 s s"
  by (simp add: grows_def)

lemma grows_trans:
  assumes "grows k s s'" "grows m s' s''"
  shows "grows (k + m) s s''"
proof -
  have "vm_mem s'' a = vm_mem s a"
    if "aligned f" "f \<notin> tabs s" "f \<notin> free_addrs (vm_pmm s)" "a div 4096 = f div 4096" for f a
  proof -
    have "f \<notin> tabs s'" "f \<notin> free_addrs (vm_pmm s')" using assms(1) that unfolding grows_def by blast+
    then have "vm_mem s'' a = vm_mem s' a" using assms(2) that unfolding grows_def by blast
    also have "\<dots> = vm_mem s a" using assms(1) that unfolding grows_def by blast
    finally show ?thesis .
  qed
  moreover have "tabs s \<subseteq> tabs s''" "tabs s'' \<subseteq> tabs s \<union> free_addrs (vm_pmm s)"
    using assms unfolding grows_def by blast+
  ultimately show ?thesis using assms unfolding grows_def by auto
qed

lemma grows_mono: "grows k s s' \<Longrightarrow> k \<le> m \<Longrightarrow> grows m s s'"
  by (auto simp: grows_def)

lemma frame_eq: "aligned t \<Longrightarrow> aligned u \<Longrightarrow> t div 4096 = u div 4096 \<longleftrightarrow> t = u"
proof
  assume "aligned t" "aligned u" "t div 4096 = u div 4096"
  then have "unat t mod 4096 = unat u mod 4096" "unat t div 4096 = unat u div 4096"
    by (simp_all add: aligned_def word_unat_eq_iff unat_div)
  then show "t = u" by (metis div_mult_mod_eq word_unat_eq_iff)
qed simp

lemma card_take: "pt_inv s \<Longrightarrow> nt \<in> free_addrs (vm_pmm s) \<Longrightarrow>
    card (free_addrs (vm_pmm s)) = Suc (card (free_addrs (vm_pmm s) - {nt}))"
  using pmm_alloc.fr_finite [OF pt_invD(1)] by (metis card_Suc_Diff1)

text \<open>A fresh frame filled with \<open>g\<close> becomes the table under an entry that led to no table.\<close>

lemma grow_table:
  assumes "pt_inv s" "path_ok p" "length p < 3" "tab s p = Some t" "unat i < 512" "tab s (i # p) = None"
    and "free_addrs (vm_pmm s) \<noteq> {}" "length p < 2 \<Longrightarrow> \<forall>n < 512. g n AND PTE_P = 0"
  obtains nt s1 where "table_alloc s = (Some nt, s1)" "ent s1 t i = ent s t i" "aligned nt" "nt \<notin> tabs s"
    "\<And>s2. s2 = set_ent t i (nt OR PTE_P OR PTE_W OR PTE_U) (fold (\<lambda>n. set_ent nt (word_of_nat n) (g n)) [0..<512] s1) \<Longrightarrow>
       grows 1 s s2 \<and> (\<forall>q. path_ok q \<longrightarrow> tab s2 q = (if q = i # p then Some nt else tab s q))
       \<and> (\<forall>u j. aligned u \<and> unat j < 512 \<longrightarrow>
           ent s2 u j = (if u = t \<and> j = i then nt OR PTE_P OR PTE_W OR PTE_U else if u = nt then g (unat j) else ent s u j))"
    "g = (\<lambda>_. 0) \<Longrightarrow> fold (\<lambda>n. set_ent nt (word_of_nat n) (g n)) [0..<512] s1 = s1"
proof (rule alloc_keeps_tree [OF assms(1,7)])
  fix nt s1
  assume a: "table_alloc s = (Some nt, s1)" "pt_inv s1" "aligned nt" "nt \<in> free_addrs (vm_pmm s)"
      "free_addrs (vm_pmm s1) = free_addrs (vm_pmm s) - {nt}" "vm_pml4 s1 = vm_pml4 s"
    and t: "\<And>q. path_ok q \<Longrightarrow> tab s1 q = tab s q" and n: "\<And>q. path_ok q \<Longrightarrow> tab s1 q \<noteq> Some nt"
    and e: "\<And>u j. aligned u \<Longrightarrow> unat j < 512 \<Longrightarrow> ent s1 u j = (if u = nt then 0 else ent s u j)"
    and m: "\<And>a. a div 4096 \<noteq> nt div 4096 \<Longrightarrow> vm_mem s1 a = vm_mem s a"
  have al: "aligned t" using tab_aligned pt_invD(2) assms(1,4) by blast
  have tn: "t \<noteq> nt" using n [OF assms(2)] t [OF assms(2)] assms(4) by auto
  define s15 where "s15 = fold (\<lambda>n. set_ent nt (word_of_nat n) (g n)) [0..<512] s1"
  have f: "ent s15 u j = (if u = nt then g (unat j) else ent s1 u j)" if "aligned u" "unat j < 512" for u j
    using fill_table [OF a(3), of 512 g s1] that by (simp add: s15_def)
  have fm: "a div 4096 \<noteq> nt div 4096 \<Longrightarrow> vm_mem s15 a = vm_mem s1 a"
    and fp: "vm_pml4 s15 = vm_pml4 s1" "vm_pmm s15 = vm_pmm s1" for a
    using fill_table [OF a(3), of 512 g s1] by (simp_all add: s15_def)
  have tb: "tabs s1 = tabs s" using t by (auto simp: tabs_def)
  have nt: "nt \<notin> tabs s" using n t by (auto simp: tabs_def)
  have f': "ent s15 u j = ent s1 u j" if "u \<in> tabs s1" "unat j < 512" for u j
    using f tabs_aligned [OF a(2) that(1)] that nt tb by auto
  have i15: "pt_inv s15" "tabs s15 = tabs s1"
    using tree_cong_inv [OF a(2) fp(1) f'] fp(2) pt_invD(1) [OF a(2)] tabs_not_free [OF a(2)] by auto
  have t15: "tab s15 q = tab s q" if "path_ok q" for q using tree_cong [OF fp(1) f' that] t [OF that] by simp
  define s2 where "s2 = set_ent t i (nt OR PTE_P OR PTE_W OR PTE_U) s15"
  have pz: "length p < 2 \<Longrightarrow> \<forall>j. unat j < 512 \<longrightarrow> ent s15 nt j AND PTE_P = 0" using f [OF a(3)] assms(8) by simp
  have np: "tab s15 q \<noteq> Some nt" if "path_ok q" for q using t15 [OF that] t [OF that] n [OF that] by simp
  have nf: "nt \<notin> free_addrs (vm_pmm s15)" using fp(2) a(5) by simp
  have t0: "tab s15 p = Some t" "tab s15 (i # p) = None"
    using t15 [OF assms(2)] t15 [of "i # p"] assms(2-6) by (simp_all del: tab.simps)
  have l: "pt_inv s2" "\<And>q. path_ok q \<Longrightarrow> tab s2 q = (if q = i # p then Some nt else tab s15 q)"
    using link_table [OF i15(1) assms(2,3) t0(1) assms(5) t0(2) a(3) nf] np pz unfolding s2_def by blast+
  have l2: "tab s2 q = (if q = i # p then Some nt else tab s q)" if "path_ok q" for q
    using l(2) [OF that] t15 [OF that] by simp
  have e2: "ent s2 u j = (if u = t \<and> j = i then nt OR PTE_P OR PTE_W OR PTE_U else if u = nt then g (unat j) else ent s u j)"
    if "aligned u" "unat j < 512" for u j
    using ent_set_ent [OF al that(1) assms(5) that(2)] f [OF that] e [OF that] unfolding s2_def by auto
  have "x \<in> tabs s2 \<longleftrightarrow> x = nt \<or> x \<in> tabs s" for x
  proof
    assume "x \<in> tabs s2"
    then obtain q where "path_ok q" "tab s2 q = Some x" by (auto simp: tabs_def)
    then show "x = nt \<or> x \<in> tabs s" using l2 [of q] tabsI [of q s x] by (cases "q = i # p") (simp_all del: tab.simps)
  next
    assume "x = nt \<or> x \<in> tabs s"
    then show "x \<in> tabs s2"
    proof
      assume "x = nt"
      then show ?thesis using l2 [of "i # p"] tabsI [of "i # p" s2 nt] assms(2,3,5) by (simp del: tab.simps)
    next
      assume "x \<in> tabs s"
      then obtain q where "path_ok q" "tab s q = Some x" by (auto simp: tabs_def)
      then show ?thesis using l2 [of q] tabsI [of q s2 x] assms(6) by (cases "q = i # p") (simp_all del: tab.simps)
    qed
  qed
  then have ts: "tabs s2 = insert nt (tabs s)" by blast
  have mm: "vm_mem s2 b = vm_mem s b" if "aligned w" "w \<notin> tabs s" "w \<notin> free_addrs (vm_pmm s)" "b div 4096 = w div 4096" for w b
  proof -
    have "w \<noteq> nt" "w \<noteq> t" using that a(4) tabsI [OF assms(2,4)] by auto
    then have "b div 4096 \<noteq> nt div 4096" "b \<noteq> t + 8 * i"
      using frame_eq [OF that(1) a(3)] frame_eq [OF that(1) al] same_frame [OF al assms(5)] that(4) by auto
    then show ?thesis using fm m by (simp add: s2_def set_ent_def)
  qed
  have "grows 1 s s2"
    unfolding grows_def using l(1) fp a(4,5,6) ts mm card_take [OF assms(1) a(4)] by (auto simp: s2_def)
  then have "s3 = set_ent t i (nt OR PTE_P OR PTE_W OR PTE_U) (fold (\<lambda>n. set_ent nt (word_of_nat n) (g n)) [0..<512] s1) \<Longrightarrow>
      grows 1 s s3 \<and> (\<forall>q. path_ok q \<longrightarrow> tab s3 q = (if q = i # p then Some nt else tab s q))
      \<and> (\<forall>u j. aligned u \<and> unat j < 512 \<longrightarrow>
          ent s3 u j = (if u = t \<and> j = i then nt OR PTE_P OR PTE_W OR PTE_U else if u = nt then g (unat j) else ent s u j))" for s3
    using l2 e2 unfolding s2_def s15_def by (simp del: tab.simps)
  moreover have "fold (\<lambda>n. set_ent nt (word_of_nat n) (g n)) [0..<512] s1 = s1" if "g = (\<lambda>_. 0)"
  proof -
    have "set_ent nt (word_of_nat n) 0 s1 = s1" if "n < 512" for n
    proof -
      have "unat (word_of_nat n :: 64 word) < 512" using that by (simp add: unat_of_nat)
      then have "vm_mem s1 (nt + 8 * word_of_nat n) = 0" using e [OF a(3)] by (simp add: ent_def)
      then show ?thesis by (simp add: set_ent_def fun_upd_idem)
    qed
    then have "n \<le> 512 \<Longrightarrow> fold (\<lambda>n. set_ent nt (word_of_nat n) 0) [0..<n] s1 = s1" for n by (induction n) auto
    then show ?thesis using that by simp
  qed
  ultimately show thesis using that [OF a(1) _ a(3) nt] e [OF al assms(5)] tn by simp
qed

text \<open>A table of absent entries maps nothing.\<close>

lemma leaf_grow_zero:
  assumes "pt_inv s" "path_ok p" "length p < 3" "tab s p = Some t" "unat i < 512" "ent s t i AND PTE_P = 0" "aligned nt" "nt \<notin> tabs s"
    and "\<And>q. path_ok q \<Longrightarrow> tab s2 q = (if q = i # p then Some nt else tab s q)"
    and "\<And>u j. aligned u \<Longrightarrow> unat j < 512 \<Longrightarrow>
      ent s2 u j = (if u = t \<and> j = i then nt OR PTE_P OR PTE_W OR PTE_U else if u = nt then 0 else ent s u j)"
  shows "leaf s2 v = leaf s v"
proof (cases "vpath v 1 = i # p")
  case True
  then have "tab s2 (vpath v 1) = Some nt" "tab s (vpath v 1) = None"
    using assms(9) [OF vpath_simps(4), of v 1] assms(4,6) by (simp_all add: True del: One_nat_def)
  moreover have "ent s2 nt (pidx v 1) = 0" using assms(10) [OF assms(7), of "pidx v 1"] tabsI [OF assms(2,4)] assms(8) by auto
  ultimately show ?thesis by (simp add: leaf_def)
next
  case False
  then have t: "tab s2 (vpath v 1) = tab s (vpath v 1)" using assms(9) [OF vpath_simps(4)] by simp
  show ?thesis
  proof (cases "tab s (vpath v 1)")
    case (Some pd)
    have pd: "aligned pd" "pd \<in> tabs s" using Some tabsI [OF vpath_simps(4)] tabs_aligned [OF assms(1)] by auto
    have tn: "t \<noteq> nt" using tabsI [OF assms(2,4)] assms(8) by auto
    show ?thesis
    proof (cases "pd = t \<and> pidx v 1 = i")
      case True
      have "ent s2 pd (pidx v 1) = nt OR PTE_P OR PTE_W OR PTE_U" using assms(10) [OF pd(1), of "pidx v 1"] True by simp
      moreover have "ent s2 nt (pidx v 0) = 0" using assms(10) [OF assms(7), of "pidx v 0"] tn by auto
      ultimately show ?thesis
        using t Some True assms(6) link_entry [OF assms(7)] unfolding leaf_def Let_def by simp
    next
      case False
      then have e: "ent s2 pd (pidx v 1) = ent s pd (pidx v 1)" using assms(10) [OF pd(1), of "pidx v 1"] pd(2) assms(8) by auto
      have "ent s2 u (pidx v 0) = ent s u (pidx v 0)"
        if u: "u = ent s pd (pidx v 1) AND NOT 0xFFF" "ent s pd (pidx v 1) AND PTE_P \<noteq> 0" "ent s pd (pidx v 1) AND 0x80 = 0" for u
      proof -
        have tu: "tab s (vpath v 0) = Some u" using Some u by (simp add: vpath_simps(2) [of 0])
        then have "u \<noteq> t" using pt_invD(5) [OF assms(1) vpath_simps(4) assms(2), of v 0 t] assms(3,4) vpath_simps(3) [of v 0] by auto
        moreover have "u \<noteq> nt" using tabsI [OF vpath_simps(4) tu] assms(8) by auto
        ultimately show ?thesis using assms(10) [of u "pidx v 0"] u(1) by simp
      qed
      then show ?thesis using t Some e unfolding leaf_def Let_def by auto
    qed
  qed (use t in \<open>simp add: leaf_def\<close>)
qed

text \<open>No large page in the way of \<open>v\<close>.\<close>

definition no_large :: "vm \<Rightarrow> 64 word \<Rightarrow> bool" where
  "no_large s v \<longleftrightarrow> (\<forall>pd. tab s (vpath v 1) = Some pd \<longrightarrow> ent s pd (pidx v 1) AND PTE_P \<noteq> 0 \<longrightarrow> ent s pd (pidx v 1) AND 0x80 = 0)"

lemma no_large_grow:
  assumes "Suc l \<le> 3" "pt_inv s" "tab s (vpath v (Suc l)) = Some t" "ent s t (pidx v (Suc l)) AND PTE_P = 0" "aligned nt" "nt \<notin> tabs s"
    and tb: "\<And>q. path_ok q \<Longrightarrow> tab s2 q = (if q = pidx v (Suc l) # vpath v (Suc l) then Some nt else tab s q)"
    and e: "\<And>u j. aligned u \<Longrightarrow> unat j < 512 \<Longrightarrow>
      ent s2 u j = (if u = t \<and> j = pidx v (Suc l) then nt OR PTE_P OR PTE_W OR PTE_U else if u = nt then 0 else ent s u j)"
  shows "no_large s2 v"
  unfolding no_large_def
proof (intro allI impI)
  fix pd
  assume pd: "tab s2 (vpath v 1) = Some pd" and pr: "ent s2 pd (pidx v 1) AND PTE_P \<noteq> 0"
  have t: "tab s2 (vpath v 1) = (if vpath v 1 = pidx v (Suc l) # vpath v (Suc l) then Some nt else tab s (vpath v 1))"
    by (rule tb [OF vpath_simps(4)])
  consider "l = 0" | "l = 1" | "l = 2" using assms(1) by linarith
  then show "ent s2 pd (pidx v 1) AND 0x80 = 0"
  proof cases
    case 1
    have "pd = t" using t pd assms(3) 1 by (simp del: tab.simps)
    moreover have "aligned t" using tab_aligned pt_invD(2) assms(2,3) by blast
    ultimately show ?thesis using e [of t "pidx v 1"] link_entry(3) [OF assms(5)] 1 by simp
  next
    case 2
    then have "vpath v 1 = pidx v (Suc l) # vpath v (Suc l)" using vpath_simps(2) [of 1 v] by simp
    then have "pd = nt" using t pd by (simp del: tab.simps)
    moreover have "nt \<noteq> t" using tabsI [OF vpath_simps(4) assms(3)] assms(6) by auto
    ultimately have "ent s2 pd (pidx v 1) = 0" using e [OF assms(5), of "pidx v 1"] by simp
    then show ?thesis by simp
  next
    case 3
    have n: "tab s (vpath v 2) = None" using assms(3,4) vpath_simps(2) [of 2 v] 3 by (simp add: numeral_3_eq_3)
    have "vpath v 1 = pidx v 2 # vpath v 2" using vpath_simps(2) [of 1 v] by (simp add: numeral_2_eq_2)
    moreover have "length (vpath v 1) \<noteq> length (pidx v (Suc l) # vpath v (Suc l))" using 3 by (simp add: vpath_simps(3))
    ultimately have "tab s2 (vpath v 1) = None" using t n by (auto split: if_splits)
    then show ?thesis using pd by simp
  qed
qed

lemma walk_create:
  "l \<le> 3 \<Longrightarrow> pt_inv s \<Longrightarrow> tab s (vpath v l) = Some t \<Longrightarrow> l \<le> card (free_addrs (vm_pmm s)) \<Longrightarrow> no_large s v \<Longrightarrow>
     \<exists>t' s'. walk_from v True l t s = (Some t', s') \<and> grows l s s' \<and> tab s' (vpath v 0) = Some t' \<and> leaf s' = leaf s"
proof (induction l arbitrary: s t)
  case 0
  then show ?case by auto
next
  case (Suc l)
  let ?p = "vpath v (Suc l)" and ?i = "pidx v (Suc l)"
  have pl: "vpath v l = ?i # ?p" and pk: "path_ok ?p" "length ?p < 3" using vpath_simps(2) [of l v] vpath_simps(3,4) Suc.prems(1) by auto
  show ?case
  proof (cases "ent s t ?i AND PTE_P = 0")
    case False
    have "length ?p = 2 \<Longrightarrow> l = 0" using vpath_simps(3) [of v "Suc l"] Suc.prems(1) by simp
    then have nl: "length ?p = 2 \<Longrightarrow> ent s t ?i AND 0x80 = 0" using Suc.prems(3,5) False unfolding no_large_def by auto
    then have "tab s (vpath v l) = Some (ent s t ?i AND NOT 0xFFF)" unfolding pl tab.simps using Suc.prems(3) False by auto
    then show ?thesis using Suc.IH [of s] Suc.prems False grows_mono [of l s _ "Suc l"] by (auto simp: Let_def)
  next
    case True
    have n: "tab s (?i # ?p) = None" using True Suc.prems(3) by simp
    have fr: "free_addrs (vm_pmm s) \<noteq> {}" using Suc.prems(4) by auto
    show ?thesis
    proof (rule grow_table [OF Suc.prems(2) pk Suc.prems(3) idx_bound(2) n fr, where g = "\<lambda>_. 0"])
      fix nt s1
      assume a: "table_alloc s = (Some nt, s1)" "aligned nt" "nt \<notin> tabs s"
        and z: "(\<lambda>_. 0 :: 64 word) = (\<lambda>_. 0) \<Longrightarrow> fold (\<lambda>n. set_ent nt (word_of_nat n) 0) [0..<512] s1 = s1"
        and f: "\<And>s2. s2 = set_ent t ?i (nt OR PTE_P OR PTE_W OR PTE_U) (fold (\<lambda>n. set_ent nt (word_of_nat n) 0) [0..<512] s1) \<Longrightarrow>
           grows 1 s s2 \<and> (\<forall>q. path_ok q \<longrightarrow> tab s2 q = (if q = ?i # ?p then Some nt else tab s q))
           \<and> (\<forall>u j. aligned u \<and> unat j < 512 \<longrightarrow>
               ent s2 u j = (if u = t \<and> j = ?i then nt OR PTE_P OR PTE_W OR PTE_U else if u = nt then 0 else ent s u j))"
      define s2 where "s2 = set_ent t ?i (nt OR PTE_P OR PTE_W OR PTE_U) s1"
      have g: "grows 1 s s2" and tb: "\<And>q. path_ok q \<Longrightarrow> tab s2 q = (if q = ?i # ?p then Some nt else tab s q)"
        and e: "\<And>u j. aligned u \<Longrightarrow> unat j < 512 \<Longrightarrow>
          ent s2 u j = (if u = t \<and> j = ?i then nt OR PTE_P OR PTE_W OR PTE_U else if u = nt then 0 else ent s u j)"
        using f [of s2] z s2_def by auto
      have al: "aligned t" using tab_aligned pt_invD(2) Suc.prems(2,3) by blast
      have e0: "ent s2 t ?i = nt OR PTE_P OR PTE_W OR PTE_U" using e [OF al idx_bound(2)] by simp
      have lf: "leaf s2 = leaf s"
        using leaf_grow_zero [OF Suc.prems(2) pk Suc.prems(3) idx_bound(2) True a(2,3) tb e] by blast
      have w: "walk_from v True (Suc l) t s = walk_from v True l nt s2"
        using True a(1) link_entry(1) [OF a(2)] e0 unfolding s2_def by (simp add: Let_def)
      have "tab s2 (vpath v l) = Some nt" using tb [OF vpath_simps(4), of v l] pl by (simp del: tab.simps)
      moreover have "l \<le> card (free_addrs (vm_pmm s2))" using g Suc.prems(4) unfolding grows_def by simp
      moreover have "no_large s2 v"
        by (rule no_large_grow [OF Suc.prems(1-3) True a(2,3) tb e])
      moreover have "pt_inv s2" using g by (simp add: grows_def)
      ultimately obtain t' s' where "walk_from v True l nt s2 = (Some t', s')" "grows l s2 s'" "tab s' (vpath v 0) = Some t'" "leaf s' = leaf s2"
        using Suc.IH [of s2 nt] Suc.prems(1) by auto
      then show ?thesis using w lf grows_trans [OF g] by auto
    qed simp
  qed
qed

section \<open>Splitting a large page\<close>

lemma split_entry:
  fixes e j :: "64 word"
  assumes "unat j < 512"
  defines "x \<equiv> (e AND NOT 0x1FFFFF) + j * 0x1000 + (e AND 0xFFF AND NOT 0x80)"
  shows "x AND NOT 0xFFF = (e AND NOT 0x1FFFFF) + push_bit 12 j" "x AND 0xFFF = e AND 0xFFF AND NOT 0x80"
    "x AND PTE_P = 0 \<longleftrightarrow> e AND PTE_P = 0"
proof -
  have jm: "j AND mask 9 = j"
    using assms(1) by (simp add: take_bit_eq_mod word_unat_eq_iff unat_mod flip: take_bit_eq_mask)
  have jb: "bit j n \<Longrightarrow> n < 9" for n using jm by (metis bit_and_iff bit_mask_iff)
  have m: "j * 0x1000 = push_bit 12 j" by (simp add: push_bit_eq_mult)
  have s1: "(e AND NOT (mask 21)) + push_bit 12 j = (e AND NOT (mask 21)) OR push_bit 12 j"
    by (rule disjunctive_add) (auto simp: bit_simps dest: jb)
  have s2: "((e AND NOT (mask 21)) OR push_bit 12 j) + (e AND mask 12 AND NOT 0x80) =
      ((e AND NOT (mask 21)) OR push_bit 12 j) OR (e AND mask 12 AND NOT 0x80)"
    by (rule disjunctive_add) (auto simp: bit_simps)
  have x: "x = ((e AND NOT (mask 21)) OR push_bit 12 j) OR (e AND mask 12 AND NOT 0x80)"
    unfolding x_def m mask_consts s1 s2 ..
  show "x AND NOT 0xFFF = (e AND NOT 0x1FFFFF) + push_bit 12 j"
    unfolding mask_consts x s1 by (rule bit_word_eqI) (auto simp: bit_and_iff bit_or_iff bit_not_iff bit_mask_iff bit_push_bit_iff)
  show l: "x AND 0xFFF = e AND 0xFFF AND NOT 0x80"
    unfolding mask_consts x by (rule bit_word_eqI) (auto simp: bit_and_iff bit_or_iff bit_not_iff bit_mask_iff bit_push_bit_iff)
  have "bit x 0 = bit (x AND 0xFFF) 0" by (simp add: mask_consts bit_simps)
  also have "\<dots> = bit e 0" unfolding l by (simp add: mask_consts bit_simps)
  finally show "x AND PTE_P = 0 \<longleftrightarrow> e AND PTE_P = 0"
    using and_exp_eq_0_iff_not_bit [of x 0] and_exp_eq_0_iff_not_bit [of e 0] by simp
qed

lemma leaf_split:
  assumes "pt_inv s" "path_ok p" "length p = 2" "tab s p = Some t" "unat i < 512" "ent s t i AND PTE_P \<noteq> 0" "ent s t i AND 0x80 \<noteq> 0"
    and "aligned nt" "nt \<notin> tabs s"
    and tb: "\<And>q. path_ok q \<Longrightarrow> tab s2 q = (if q = i # p then Some nt else tab s q)"
    and e: "\<And>u j. aligned u \<Longrightarrow> unat j < 512 \<Longrightarrow>
      ent s2 u j = (if u = t \<and> j = i then nt OR PTE_P OR PTE_W OR PTE_U
        else if u = nt then (ent s t i AND NOT 0x1FFFFF) + j * 0x1000 + (ent s t i AND 0xFFF AND NOT 0x80) else ent s u j)"
  shows "leaf s2 v = leaf s v"
proof -
  have "vpath v 1 \<noteq> i # p" using assms(3) vpath_simps(3) [of v 1] by auto
  then have t: "tab s2 (vpath v 1) = tab s (vpath v 1)" using tb [OF vpath_simps(4)] by simp
  show ?thesis
  proof (cases "tab s (vpath v 1)")
    case (Some pd)
    have pd: "aligned pd" "pd \<in> tabs s" using Some tabsI [OF vpath_simps(4)] tabs_aligned [OF assms(1)] by auto
    have tn: "t \<noteq> nt" using tabsI [OF assms(2,4)] assms(9) by auto
    show ?thesis
    proof (cases "pd = t \<and> pidx v 1 = i")
      case True
      let ?e = "ent s t i" and ?x = "ent s2 nt (pidx v 0)"
      have e1: "ent s2 pd (pidx v 1) = nt OR PTE_P OR PTE_W OR PTE_U" using e [OF pd(1), of "pidx v 1"] True by simp
      have x: "?x = (?e AND NOT 0x1FFFFF) + pidx v 0 * 0x1000 + (?e AND 0xFFF AND NOT 0x80)"
        using e [OF assms(8), of "pidx v 0"] tn by auto
      note se = split_entry [OF idx_bound(2) [of v 0], of ?e, folded x]
      have "leaf s2 v = Some (?x AND NOT 0xFFF, ?x AND 0xFFF)"
        using t Some e1 link_entry [OF assms(8)] se(3) assms(6) unfolding leaf_def Let_def by (simp del: One_nat_def)
      moreover have "leaf s v = Some ((?e AND NOT 0x1FFFFF) + push_bit 12 (pidx v 0), ?e AND 0xFFF AND NOT 0x80)"
        using Some True assms(6,7) unfolding leaf_def Let_def by (simp del: One_nat_def)
      ultimately show ?thesis using se(1,2) by simp
    next
      case False
      then have e1: "ent s2 pd (pidx v 1) = ent s pd (pidx v 1)" using e [OF pd(1), of "pidx v 1"] pd(2) assms(9) by auto
      have "ent s2 u (pidx v 0) = ent s u (pidx v 0)"
        if u: "u = ent s pd (pidx v 1) AND NOT 0xFFF" "ent s pd (pidx v 1) AND PTE_P \<noteq> 0" "ent s pd (pidx v 1) AND 0x80 = 0" for u
      proof -
        have tu: "tab s (vpath v 0) = Some u" using Some u by (simp add: vpath_simps(2) [of 0])
        then have "u \<noteq> t" using pt_invD(5) [OF assms(1) vpath_simps(4) assms(2), of v 0 t] assms(3,4) vpath_simps(3) [of v 0] by auto
        moreover have "u \<noteq> nt" using tabsI [OF vpath_simps(4) tu] assms(9) by auto
        ultimately show ?thesis using e [of u "pidx v 0"] u(1) by simp
      qed
      then show ?thesis using t Some e1 unfolding leaf_def Let_def by auto
    qed
  qed (use t in \<open>simp add: leaf_def\<close>)
qed

lemma low_path: "v < 0x8000000000 \<Longrightarrow> pidx v 3 = 0"
proof -
  assume "v < 0x8000000000"
  then have "unat v < 2 ^ 39" by (simp add: word_less_nat_alt)
  then have "drop_bit 39 v = 0" by (simp add: drop_bit_eq_div word_unat_eq_iff unat_div)
  then show ?thesis by (simp add: pidx_def)
qed

lemma split_ok:
  assumes "pt_inv s" "v < 0x8000000000" "free_addrs (vm_pmm s) \<noteq> {}"
  obtains r s' where "split_large v s = (r, s')" "grows 1 s s'" "leaf s' = leaf s" "no_large s' v"
proof -
  let ?i2 = "pidx v 2" and ?i1 = "pidx v 1"
  have pi: "drop_bit 30 v AND 0x1FF = ?i2" "drop_bit 21 v AND 0x1FF = ?i1" by (simp_all add: pidx_def)
  have v1: "vpath v 1 = [?i2, 0]" using low_path [OF assms(2)] by (simp add: vpath_def upt_rec numeral_2_eq_2 numeral_3_eq_3)
  obtain pdpt where pdpt: "tab s [0] = Some pdpt" using pt_invD(3) [OF assms(1)] by auto
  then have p0: "ent s (vm_pml4 s) 0 AND NOT 0xFFF = pdpt" by (auto split: if_splits)
  have g0: "grows 1 s s" using grows_mono [OF grows_refl [OF assms(1)]] by simp
  show thesis
  proof (cases "tab s (vpath v 1)")
    case None
    then have "ent s pdpt ?i2 AND PTE_P = 0" using pdpt unfolding v1 tab.simps(2) [of s ?i2] by (auto split: if_splits)
    then have "split_large v s = (-1, s)" by (simp only: split_large_def Let_def pi p0 simp_thms if_True)
    then show thesis using that g0 None by (auto simp: no_large_def)
  next
    case (Some pd)
    then have pp: "ent s pdpt ?i2 AND PTE_P \<noteq> 0" "pd = ent s pdpt ?i2 AND NOT 0xFFF"
      using pdpt unfolding v1 tab.simps(2) [of s ?i2] by (auto split: if_splits)
    show thesis
    proof (cases "ent s pd ?i1 AND PTE_P = 0 \<or> ent s pd ?i1 AND 0x80 = 0")
      case True
      then have "split_large v s = (0, s)"
        by (simp only: split_large_def Let_def pi p0 pp(2) [symmetric] pp(1) if_True if_False)
      then show thesis using that g0 Some True by (auto simp: no_large_def)
    next
      case False
      let ?e = "ent s pd ?i1"
      let ?g = "\<lambda>n. (?e AND NOT 0x1FFFFF) + word_of_nat n * 0x1000 + (?e AND 0xFFF AND NOT 0x80)"
      have len: "length (vpath v 1) = 2" "length (vpath v 1) < 3" using v1 by simp_all
      have n: "tab s (?i1 # vpath v 1) = None" using Some False len by simp
      show thesis
      proof (rule grow_table [OF assms(1) vpath_simps(4) len(2) Some idx_bound(2) n assms(3), where g = ?g])
        fix nt s1
        assume a: "table_alloc s = (Some nt, s1)" "ent s1 pd ?i1 = ?e" "aligned nt" "nt \<notin> tabs s"
          and f: "\<And>s2. s2 = set_ent pd ?i1 (nt OR PTE_P OR PTE_W OR PTE_U) (fold (\<lambda>n. set_ent nt (word_of_nat n) (?g n)) [0..<512] s1) \<Longrightarrow>
             grows 1 s s2 \<and> (\<forall>q. path_ok q \<longrightarrow> tab s2 q = (if q = ?i1 # vpath v 1 then Some nt else tab s q))
             \<and> (\<forall>u j. aligned u \<and> unat j < 512 \<longrightarrow>
                 ent s2 u j = (if u = pd \<and> j = ?i1 then nt OR PTE_P OR PTE_W OR PTE_U else if u = nt then ?g (unat j) else ent s u j))"
        define s2 where "s2 = set_ent pd ?i1 (nt OR PTE_P OR PTE_W OR PTE_U) (fold (\<lambda>n. set_ent nt (word_of_nat n) (?g n)) [0..<512] s1)"
        have g: "grows 1 s s2" and tb: "\<And>q. path_ok q \<Longrightarrow> tab s2 q = (if q = ?i1 # vpath v 1 then Some nt else tab s q)"
          and e: "\<And>u j. aligned u \<Longrightarrow> unat j < 512 \<Longrightarrow>
            ent s2 u j = (if u = pd \<and> j = ?i1 then nt OR PTE_P OR PTE_W OR PTE_U
              else if u = nt then (?e AND NOT 0x1FFFFF) + j * 0x1000 + (?e AND 0xFFF AND NOT 0x80) else ent s u j)"
          using f [OF s2_def] by (simp_all del: tab.simps)
        have sp: "split_large v s = (0, s2)"
          unfolding split_large_def Let_def pi p0 pp(2) [symmetric] a(1) option.case prod.case a(2) s2_def
          using pp(1) False by simp
        have lf: "leaf s2 = leaf s"
          using leaf_split [OF assms(1) vpath_simps(4) len(1) Some idx_bound(2) _ _ a(3,4) tb e] False by blast
        have al: "aligned pd" using tab_aligned pt_invD(2) assms(1) Some by blast
        have "tab s2 (vpath v 1) = Some pd" using tb [OF vpath_simps(4), of v 1] len Some by (auto simp del: tab.simps)
        then have "no_large s2 v" using e [OF al idx_bound(2)] link_entry(3) [OF a(3)] by (simp add: no_large_def)
        then show thesis using that sp g lf by blast
      qed (use len in simp)
    qed
  qed
qed

section \<open>Writing a last-level entry\<close>

definition same_page :: "64 word \<Rightarrow> 64 word \<Rightarrow> bool" where
  "same_page v w \<longleftrightarrow> (\<forall>l < 4. pidx v l = pidx w l)"

lemma same_page_path: "same_page v w \<longleftrightarrow> vpath v 0 = vpath w 0 \<and> pidx v 0 = pidx w 0"
proof -
  have "(\<forall>l < 4. pidx v l = pidx w l) \<longleftrightarrow> pidx v 0 = pidx w 0 \<and> pidx v 1 = pidx w 1 \<and> pidx v 2 = pidx w 2 \<and> pidx v 3 = pidx w 3"
    by (auto simp: less_Suc_eq numeral_eq_Suc)
  then show ?thesis by (auto simp: same_page_def vpath_def upt_rec numeral_2_eq_2 numeral_3_eq_3)
qed

lemma same_page_iff:
  assumes "v < 0x1000000000000" "w < 0x1000000000000"
  shows "same_page v w \<longleftrightarrow> v div 4096 = w div 4096"
proof -
  have b: "bit (pidx x l) n \<longleftrightarrow> n < 9 \<and> bit x (12 + 9 * l + n)" for x l n
    by (auto simp: pidx_def mask_consts bit_simps)
  have hi: "\<not> bit x n" if "x < 0x1000000000000" "48 \<le> n" for x :: "64 word" and n
  proof -
    have "unat x < 2 ^ 48" using that(1) by (simp add: word_less_nat_alt)
    also have "(2 :: nat) ^ 48 \<le> 2 ^ n" using that(2) by (rule power_increasing) simp
    finally have "\<not> bit (unat x) n" by (simp add: bit_iff_odd)
    then show ?thesis by (simp add: bit_unsigned_iff)
  qed
  show ?thesis
  proof
    assume s: "same_page v w"
    have "bit v n = bit w n" if "12 \<le> n" for n
    proof (cases "n < 48")
      case True
      define l where "l = (n - 12) div 9"
      have l: "l < 4" "n = 12 + 9 * l + (n - 12) mod 9" "(n - 12) mod 9 < 9" using True that by (auto simp: l_def)
      then show ?thesis using s b [of v l "(n - 12) mod 9"] b [of w l "(n - 12) mod 9"] unfolding same_page_def by auto
    qed (use hi assms in auto)
    then have "drop_bit 12 v = drop_bit 12 w" by (intro bit_word_eqI) (auto simp: bit_drop_bit_eq)
    then show "v div 4096 = w div 4096" by (simp add: drop_bit_eq_div)
  next
    assume "v div 4096 = w div 4096"
    then have d: "drop_bit 12 v = drop_bit 12 w" by (simp add: drop_bit_eq_div)
    have "bit v (12 + n) = bit w (12 + n)" for n using arg_cong [OF d, of "\<lambda>x. bit x n"] by (simp add: bit_drop_bit_eq)
    then show "same_page v w" unfolding same_page_def by (auto intro!: bit_word_eqI simp: b add.assoc)
  qed
qed

lemma leaf_write:
  fixes e :: "64 word"
  assumes "pt_inv s" "tab s (vpath w 0) = Some pt"
  defines "s' \<equiv> set_ent pt (pidx w 0) e s"
  shows "grows 0 s s'" "tabs s' = tabs s"
    "leaf s' v = (if same_page v w then (if e AND PTE_P = 0 then None else Some (e AND NOT 0xFFF, e AND 0xFFF)) else leaf s v)"
    "leaf s w = (let e = ent s pt (pidx w 0) in if e AND PTE_P = 0 then None else Some (e AND NOT 0xFFF, e AND 0xFFF))"
proof -
  have len: "length (vpath w 0) = 3" by (simp add: vpath_simps)
  have al: "aligned pt" using tab_aligned pt_invD(2) assms(1,2) by blast
  have t: "tab s' q = tab s q" if "path_ok q" for q
  proof -
    have "\<not> suffix (pidx w 0 # vpath w 0) q" using that len suffix_length_le [of "pidx w 0 # vpath w 0" q] by (auto simp: path_ok_def)
    then show ?thesis unfolding s'_def by (rule tab_set_ent [OF assms(1) vpath_simps(4) assms(2) idx_bound(2) that])
  qed
  then show ts: "tabs s' = tabs s" by (auto simp: tabs_def)
  have en: "ent s' u j = (if u = pt \<and> j = pidx w 0 then e else ent s u j)" if "aligned u" "unat j < 512" for u j
    unfolding s'_def by (rule ent_set_ent [OF al that(1) idx_bound(2) that(2)])
  have "tab s' [0] \<noteq> None" using t [of "[0]"] pt_invD(3) [OF assms(1)] by (simp del: tab.simps)
  then have inv: "pt_inv s'"
    using pt_invD(1,2) [OF assms(1)] pt_invD(4,5) [OF assms(1)] t unfolding pt_inv_def by (auto simp: s'_def simp del: tab.simps)
  have "vm_mem s' a = vm_mem s a" if "aligned f" "f \<notin> tabs s" "a div 4096 = f div 4096" for f a
  proof -
    have "f \<noteq> pt" using that(2) tabsI [OF vpath_simps(4) assms(2)] by auto
    then have "a \<noteq> pt + 8 * pidx w 0" using same_frame [OF al idx_bound(2)] frame_eq [OF that(1) al] that(3) by auto
    then show ?thesis by (simp add: s'_def set_ent_def)
  qed
  then show "grows 0 s s'" using inv ts by (auto simp: grows_def s'_def)
  have pres: "tab s (vpath v 1) = Some pd \<and> ent s pd (pidx v 1) AND PTE_P \<noteq> 0 \<and> ent s pd (pidx v 1) AND 0x80 = 0
      \<and> pt' = ent s pd (pidx v 1) AND NOT 0xFFF" if "tab s (vpath v 0) = Some pt'" "tab s (vpath v 1) = Some pd" for v pt' pd
    using that by (auto simp: vpath_simps(2) [of 0] vpath_simps(3) split: if_splits)
  have "\<exists>pd. tab s (vpath w 1) = Some pd" using assms(2) by (auto simp: vpath_simps(2) [of 0] split: option.splits)
  then show "leaf s w = (let e = ent s pt (pidx w 0) in if e AND PTE_P = 0 then None else Some (e AND NOT 0xFFF, e AND 0xFFF))"
    using pres [OF assms(2)] unfolding leaf_def Let_def by auto
  show "leaf s' v = (if same_page v w then (if e AND PTE_P = 0 then None else Some (e AND NOT 0xFFF, e AND 0xFFF)) else leaf s v)"
  proof (cases "tab s (vpath v 1)")
    case None
    then have "tab s (vpath v 0) = None" by (simp add: vpath_simps(2) [of 0])
    then have "\<not> same_page v w" using assms(2) by (auto simp: same_page_path)
    then show ?thesis using None t [OF vpath_simps(4), of v 1] by (simp add: leaf_def)
  next
    case (Some pd)
    have "pd \<noteq> pt" using pt_invD(5) [OF assms(1) vpath_simps(4) vpath_simps(4) Some, of w 0] assms(2) vpath_simps(3) [of v 1] len by auto
    then have e1: "ent s' pd (pidx v 1) = ent s pd (pidx v 1)"
      using en [of pd "pidx v 1"] tab_aligned [OF pt_invD(2) [OF assms(1)] Some] by simp
    show ?thesis
    proof (cases "tab s (vpath v 0)")
      case None
      then have "\<not> same_page v w" using assms(2) by (auto simp: same_page_path)
      moreover have "ent s pd (pidx v 1) AND PTE_P = 0 \<or> ent s pd (pidx v 1) AND 0x80 \<noteq> 0"
        using None Some by (auto simp: vpath_simps(2) [of 0] vpath_simps(3) split: if_splits)
      ultimately show ?thesis using t [OF vpath_simps(4), of v 1] Some e1 unfolding leaf_def Let_def by auto
    next
      case (Some u)
      note u = pres [OF Some \<open>tab s (vpath v 1) = Some pd\<close>]
      have "same_page v w \<longleftrightarrow> u = pt \<and> pidx v 0 = pidx w 0"
        using pt_invD(5) [OF assms(1) vpath_simps(4) vpath_simps(4) Some, of w 0] assms(2) Some by (auto simp: same_page_path)
      moreover have "ent s' u (pidx v 0) = (if u = pt \<and> pidx v 0 = pidx w 0 then e else ent s u (pidx v 0))"
        using en [of u "pidx v 0"] u by simp
      ultimately show ?thesis using t [OF vpath_simps(4), of v 1] u e1 unfolding leaf_def Let_def by auto
    qed
  qed
qed

lemma map_entry_bits:
  "((p AND NOT 0xFFF) OR (f AND 0xFFF) OR PTE_P) AND PTE_P \<noteq> 0"
  "((p AND NOT 0xFFF) OR (f AND 0xFFF) OR PTE_P) AND NOT 0xFFF = (p :: 64 word) AND NOT 0xFFF"
  "((p AND NOT 0xFFF) OR (f AND 0xFFF) OR PTE_P) AND 0xFFF = (f AND 0xFFF) OR PTE_P"
proof -
  have "bit ((p AND NOT 0xFFF) OR (f AND 0xFFF) OR PTE_P) 0" by (simp add: bit_or_iff)
  then show "((p AND NOT 0xFFF) OR (f AND 0xFFF) OR PTE_P) AND PTE_P \<noteq> 0"
    using and_exp_eq_0_iff_not_bit [of "(p AND NOT 0xFFF) OR (f AND 0xFFF) OR PTE_P" 0] by simp
  show "((p AND NOT 0xFFF) OR (f AND 0xFFF) OR PTE_P) AND NOT 0xFFF = (p :: 64 word) AND NOT 0xFFF"
    unfolding mask_consts by (rule bit_word_eqI) (auto simp: bit_and_iff bit_or_iff bit_not_iff bit_mask_iff bit_1_iff)
  show "((p AND NOT 0xFFF) OR (f AND 0xFFF) OR PTE_P) AND 0xFFF = (f AND 0xFFF) OR PTE_P"
    unfolding mask_consts by (rule bit_word_eqI) (auto simp: bit_and_iff bit_or_iff bit_not_iff bit_mask_iff bit_1_iff)
qed

lemma vmm_map_leaf:
  assumes "pt_inv s" "virt < 0x8000000000" "4 \<le> card (free_addrs (vm_pmm s))"
  shows "grows 4 s (vmm_map virt phys flags s)"
    "leaf (vmm_map virt phys flags s) v =
       (if same_page v virt then Some (phys AND NOT 0xFFF, (flags AND 0xFFF) OR PTE_P) else leaf s v)"
    "tab (vmm_map virt phys flags s) (vpath virt 0) \<noteq> None"
proof -
  have "free_addrs (vm_pmm s) \<noteq> {}" using assms(3) by auto
  then obtain r s1 where s1: "split_large virt s = (r, s1)" "grows 1 s s1" "leaf s1 = leaf s" "no_large s1 virt"
    using split_ok [OF assms(1,2)] by blast
  have i1: "pt_inv s1" "3 \<le> card (free_addrs (vm_pmm s1))" "tab s1 (vpath virt 3) = Some (vm_pml4 s1)"
    using s1(2) assms(3) by (auto simp: grows_def vpath_simps)
  obtain pt s2 where s2: "walk_from virt True 3 (vm_pml4 s1) s1 = (Some pt, s2)" "grows 3 s1 s2" "tab s2 (vpath virt 0) = Some pt" "leaf s2 = leaf s1"
    using walk_create [OF order_refl i1(1,3,2) s1(4)] by blast
  let ?e = "(phys AND NOT 0xFFF) OR (flags AND 0xFFF) OR PTE_P"
  have m: "vmm_map virt phys flags s = set_ent pt (pidx virt 0) ?e s2"
    using s1(1) s2(1) by (simp add: vmm_map_def vmm_walk_def)
  have i2: "pt_inv s2" using s2(2) by (simp add: grows_def)
  note w = leaf_write(1-3) [OF i2 s2(3), where e = ?e]
  show "grows 4 s (vmm_map virt phys flags s)"
    unfolding m using grows_trans [OF grows_trans [OF s1(2) s2(2)] w(1)] by simp
  show "leaf (vmm_map virt phys flags s) v =
      (if same_page v virt then Some (phys AND NOT 0xFFF, (flags AND 0xFFF) OR PTE_P) else leaf s v)"
    unfolding m w(3) map_entry_bits(2,3) using map_entry_bits(1) s1(3) s2(4) by simp
  have "\<not> suffix (pidx virt 0 # vpath virt 0) (vpath virt 0)" using suffix_length_le by fastforce
  then show "tab (vmm_map virt phys flags s) (vpath virt 0) \<noteq> None"
    unfolding m using tab_set_ent [OF i2 vpath_simps(4) s2(3) idx_bound(2) vpath_simps(4)] s2(3) by simp
qed

section \<open>Unmapping and opening pages\<close>

text \<open>\<open>small s v\<close>: the page of \<open>v\<close> has a last-level table, so it is not part of a large page.\<close>

definition small :: "vm \<Rightarrow> 64 word \<Rightarrow> bool" where
  "small s v \<longleftrightarrow> tab s (vpath v 0) \<noteq> None"

lemma small_page: "same_page v w \<Longrightarrow> small s v = small s w" "same_page v w \<Longrightarrow> leaf s v = leaf s w"
proof -
  assume p: "same_page v w"
  then show "small s v = small s w" by (simp add: small_def same_page_path)
  have i: "pidx v 0 = pidx w 0" "pidx v 1 = pidx w 1" using p by (simp_all add: same_page_def)
  have "vpath v 1 = vpath w 1" using p vpath_simps(2) [of 0] by (simp add: same_page_path)
  then show "leaf s v = leaf s w" unfolding leaf_def i by simp
qed

lemma leaf_from_tab: "l \<le> 3 \<Longrightarrow> tab s (vpath v l) = Some t \<Longrightarrow> leaf_from v l t s = tab s (vpath v 0)"
proof (induction l arbitrary: t)
  case (Suc l)
  have pl: "vpath v l = pidx v (Suc l) # vpath v (Suc l)" "length (vpath v (Suc l)) = 2 \<longleftrightarrow> l = 0"
    using vpath_simps(2) [of l v] vpath_simps(3) [of v "Suc l"] Suc.prems(1) by auto
  show ?case
  proof (cases "ent s t (pidx v (Suc l)) AND PTE_P = 0 \<or> l = 0 \<and> ent s t (pidx v (Suc l)) AND 0x80 \<noteq> 0")
    case True
    then have n: "tab s (vpath v l) = None" unfolding pl(1) tab.simps using Suc.prems(2) pl(2) by auto
    have "vpath v 0 = map (pidx v) [1..<Suc l] @ vpath v l"
      using Suc.prems(1) upt_add_eq_append [of 1 "Suc l" "3 - l"] by (simp add: vpath_def flip: map_append)
    then have "tab s (vpath v 0) = None" using tab_None_ext [OF n] by simp
    then show ?thesis using True by (auto simp: Let_def)
  next
    case False
    then have "tab s (vpath v l) = Some (ent s t (pidx v (Suc l)) AND NOT 0xFFF)"
      unfolding pl(1) tab.simps using Suc.prems(2) pl(2) by auto
    then show ?thesis using Suc.IH Suc.prems(1) False by (auto simp: Let_def)
  qed
qed simp

text \<open>The frame that unmapping a page gives back to the allocator.\<close>

definition freed :: "vm \<Rightarrow> 64 word \<Rightarrow> 64 word set" where
  "freed s v = (if small s v then (case leaf s v of None \<Rightarrow> {} | Some (b, f) \<Rightarrow> {b} \<inter> {..<0x40000000}) else {})"

definition unmap_safe :: "vm \<Rightarrow> 64 word \<Rightarrow> bool" where
  "unmap_safe s v \<longleftrightarrow> (\<forall>b f. small s v \<and> leaf s v = Some (b, f) \<longrightarrow> b \<noteq> 0 \<and> b \<notin> tabs s)"

lemma free_frame_high: "pmm_inv p \<Longrightarrow> \<not> a < 0x40000000 \<Longrightarrow> pmm_free_frame a p = p"
proof -
  assume "pmm_inv p" "\<not> a < 0x40000000"
  then have "\<not> a div FRAME_SIZE < p_total p"
    by (simp add: pmm_inv_def word_less_nat_alt unat_div div_less_iff_less_mult)
  then show ?thesis by (simp add: pmm_free_frame_def)
qed

lemma free_effect:
  assumes "pmm_inv p" "b \<noteq> 0" "aligned b"
  shows "pmm_inv (pmm_free_frame b p)" "free_addrs (pmm_free_frame b p) = free_addrs p \<union> ({b} \<inter> {..<0x40000000})"
proof -
  have m: "b mod 4096 = 0" using assms(3) by (simp add: aligned_def word_unat_eq_iff unat_mod)
  show "pmm_inv (pmm_free_frame b p)" by (rule pmm_alloc.invar_release [OF assms(1,2) m])
  show "free_addrs (pmm_free_frame b p) = free_addrs p \<union> ({b} \<inter> {..<0x40000000})"
    using pmm_alloc.fr_release [OF assms(1,2) m] free_frame_high [OF assms(1), of b] by (cases "b < 0x40000000") auto
qed

definition unmapped :: "64 word set \<Rightarrow> vm \<Rightarrow> vm \<Rightarrow> bool" where
  "unmapped ps s s' \<longleftrightarrow> pt_inv s' \<and> (\<forall>q. path_ok q \<longrightarrow> tab s' q = tab s q) \<and> vm_pml4 s' = vm_pml4 s
     \<and> (\<forall>w. leaf s' w = (if small s w \<and> (\<exists>p \<in> ps. same_page w p) then None else leaf s w))
     \<and> free_addrs (vm_pmm s') = free_addrs (vm_pmm s) \<union> (\<Union>p \<in> ps. freed s p)
     \<and> (\<forall>f a. aligned f \<and> f \<notin> tabs s \<and> a div 4096 = f div 4096 \<longrightarrow> vm_mem s' a = vm_mem s a)"

lemma unmap_page_effect:
  assumes "pt_inv s" "unmap_safe s v"
  shows "unmapped {v} s (unmap_page v s)"
proof (cases "tab s (vpath v 0)")
  case None
  then have "unmap_page v s = s" using leaf_from_tab [of 3 s v "vm_pml4 s"] by (simp add: unmap_page_def vpath_simps)
  moreover have "\<not> small s v" "\<And>w. same_page w v \<Longrightarrow> \<not> small s w" using None small_page(1) by (auto simp: small_def)
  ultimately show ?thesis using assms(1) by (auto simp: unmapped_def freed_def)
next
  case (Some pt)
  let ?e = "ent s pt (pidx v 0)" and ?b = "ent s pt (pidx v 0) AND NOT 0xFFF"
  have lf: "leaf s v = (if ?e AND PTE_P = 0 then None else Some (?b, ?e AND 0xFFF))"
    using leaf_write(4) [OF assms(1) Some] by (simp add: Let_def)
  have sm: "small s v" "\<And>w. same_page w v \<Longrightarrow> small s w \<and> leaf s w = leaf s v" using Some small_page by (auto simp: small_def)
  have up: "unmap_page v s = (if ?e AND PTE_P \<noteq> 0 then set_ent pt (pidx v 0) 0 (s\<lparr>vm_pmm := pmm_free_frame ?b (vm_pmm s)\<rparr>) else s)"
    using leaf_from_tab [of 3 s v "vm_pml4 s"] Some by (simp add: unmap_page_def vpath_simps Let_def)
  show ?thesis
  proof (cases "?e AND PTE_P = 0")
    case True
    then have "leaf s v = None" "unmap_page v s = s" using lf up by simp_all
    moreover have "leaf s w = None" if "same_page w v" for w using sm(2) [OF that] lf True by simp
    ultimately show ?thesis using assms(1) by (auto simp: unmapped_def freed_def)
  next
    case False
    define s1 where "s1 = s\<lparr>vm_pmm := pmm_free_frame ?b (vm_pmm s)\<rparr>"
    have b: "?b \<noteq> 0" "?b \<notin> tabs s" using assms(2) sm(1) lf False unfolding unmap_safe_def by auto
    note fe = free_effect [OF pt_invD(1) [OF assms(1)] b(1) aligned_mask(1)]
    have f1: "vm_pmm s1 = pmm_free_frame ?b (vm_pmm s)" "vm_mem s1 = vm_mem s" "vm_pml4 s1 = vm_pml4 s"
      by (simp_all add: s1_def)
    have d: "free_addrs (vm_pmm s1) \<inter> tabs s = {}" using b(2) tabs_not_free [OF assms(1)] unfolding f1 fe(2) by blast
    have e1: "ent s1 u j = ent s u j" for u j by (simp only: ent_def f1)
    have s1: "pt_inv s1" "tabs s1 = tabs s"
      using tree_cong_inv [OF assms(1) f1(3) e1 _ d] fe(1) unfolding f1(1) by blast+
    have t1: "tab s1 q = tab s q" if "path_ok q" for q by (rule tree_cong [OF f1(3) e1 that])
    have l1: "leaf s1 w = leaf s w" for w by (rule leaf_cong [OF f1(3) e1])
    have p1: "tab s1 (vpath v 0) = Some pt" using t1 [OF vpath_simps(4)] Some by simp
    define s2 where "s2 = set_ent pt (pidx v 0) 0 s1"
    note w = leaf_write(1-3) [OF s1(1) p1, where e = 0, folded s2_def]
    have t2: "tab s2 q = tab s q" if q: "path_ok q" for q
    proof -
      have "\<not> suffix (pidx v 0 # vpath v 0) q"
        using q suffix_length_le [of "pidx v 0 # vpath v 0" q] by (auto simp: path_ok_def vpath_simps)
      then show ?thesis using tab_set_ent [OF s1(1) vpath_simps(4) p1 idx_bound(2) q] t1 [OF q] by (simp add: s2_def)
    qed
    have mm: "vm_mem s2 a = vm_mem s a" if "aligned f" "f \<notin> tabs s" "a div 4096 = f div 4096" for f a
    proof -
      have al: "aligned pt" "f \<noteq> pt" using tabsI [OF vpath_simps(4) Some] tabs_aligned [OF assms(1)] that(2) by auto
      then have "a \<noteq> pt + 8 * pidx v 0" using same_frame [OF al(1) idx_bound(2)] frame_eq [OF that(1) al(1)] that(3) by auto
      then show ?thesis by (simp add: s2_def f1(2) set_ent_def)
    qed
    have "unmap_page v s = s2" using up False unfolding s2_def s1_def by (simp only: simp_thms if_True)
    moreover have "freed s v = {?b} \<inter> {..<0x40000000}" using sm(1) lf False by (simp add: freed_def)
    moreover have "vm_pmm s2 = pmm_free_frame ?b (vm_pmm s)" "vm_pml4 s2 = vm_pml4 s" by (simp_all only: s2_def set_ent_simps f1)
    ultimately show ?thesis
      unfolding unmapped_def using w(1,3) l1 t2 mm fe(2) sm by (auto simp: grows_def)
  qed
qed

lemma unmapped_trans:
  assumes "unmapped ps s s'" "unmapped qs s' s''"
  shows "unmapped (ps \<union> qs) s s''"
proof -
  have sm: "small s' w = small s w" for w using assms(1) vpath_simps(4) unfolding unmapped_def small_def by auto
  have tb: "tabs s' = tabs s" using assms(1) unfolding unmapped_def tabs_def by auto
  have "(\<Union>p \<in> ps. freed s p) \<union> (\<Union>p \<in> qs. freed s' p) = (\<Union>p \<in> ps \<union> qs. freed s p)"
  proof -
    have "freed s' q = (if \<exists>p \<in> ps. same_page q p then {} else freed s q)" for q
      using assms(1) sm [of q] unfolding unmapped_def freed_def by auto
    moreover have "freed s q = freed s p" if "same_page q p" for p q using small_page [OF that] by (simp add: freed_def)
    ultimately show ?thesis by auto
  qed
  then show ?thesis using assms sm tb unfolding unmapped_def by (auto simp: Un_assoc)
qed

lemma unmapped_safe:
  assumes "unmapped ps s s'" "unmap_safe s v"
  shows "unmap_safe s' v"
proof -
  have "small s' v = small s v" using assms(1) vpath_simps(4) unfolding unmapped_def small_def by auto
  moreover have "tabs s' = tabs s" using assms(1) unfolding unmapped_def tabs_def by auto
  ultimately show ?thesis using assms unfolding unmap_safe_def unmapped_def by (auto split: if_splits)
qed

lemma unmap_pages:
  "pt_inv s \<Longrightarrow> (\<forall>p \<in> set ps. unmap_safe s p) \<Longrightarrow> unmapped (set ps) s (fold unmap_page ps s)"
proof (induction ps arbitrary: s)
  case Nil
  then show ?case by (simp add: unmapped_def)
next
  case (Cons p ps)
  have u: "unmapped {p} s (unmap_page p s)" using unmap_page_effect Cons.prems by simp
  then have "unmapped (set ps) (unmap_page p s) (fold unmap_page ps (unmap_page p s))"
    using Cons unmapped_safe [OF u] by (auto simp: unmapped_def)
  from unmapped_trans [OF u this] show ?case by simp
qed

text \<open>The pages of a range.\<close>

lemma page_range_iff:
  assumes "aligned a" "unat e \<le> 0xFFFFFFFFFFFFF000"
  shows "(\<exists>p \<in> set (page_range a e). p div 4096 = w div 4096) \<longleftrightarrow> a \<le> w \<and> w AND NOT 0xFFF < e"
proof -
  have m: "unat a mod 4096 = 0" using assms(1) by (simp add: aligned_def)
  have ad: "unat a = unat a div 4096 * 4096" using m by (metis add.right_neutral div_mult_mod_eq)
  define n where "n = (unat e - unat a + 4095) div 4096"
  have pr: "page_range a e = map (\<lambda>k. a + 0x1000 * word_of_nat k) [0..<n]" by (simp only: page_range_def n_def)
  have p: "unat (a + 0x1000 * word_of_nat k) = unat a + 4096 * k" if "k < n" for k
  proof -
    have "unat a + 4096 * k < 18446744073709551616" using assms(2) that unfolding n_def by linarith
    moreover from this have "4096 * k < 18446744073709551616" "k < 18446744073709551616" by linarith+
    ultimately show ?thesis by (simp add: unat_word_ariths unat_of_nat)
  qed
  have d: "(a + 0x1000 * word_of_nat k) div 4096 = w div 4096 \<longleftrightarrow> unat a div 4096 + k = unat w div 4096"
    if "k < n" for k
  proof -
    have "unat ((a + 0x1000 * word_of_nat k) div 4096) = unat a div 4096 + k" "unat (w div 4096) = unat w div 4096"
      by (simp_all add: unat_div p [OF that])
    then show ?thesis by (metis word_unat_eq_iff)
  qed
  have "(\<exists>p \<in> set (page_range a e). p div 4096 = w div 4096) \<longleftrightarrow>
      (\<exists>k < n. unat a div 4096 + k = unat w div 4096)"
    using d by (auto simp: pr)
  also have "\<dots> \<longleftrightarrow> unat a div 4096 \<le> unat w div 4096 \<and> unat w div 4096 - unat a div 4096 < n"
    by (metis add_diff_cancel_left' le_add1 le_add_diff_inverse)
  also have "\<dots> \<longleftrightarrow> unat a \<le> unat w \<and> unat w div 4096 * 4096 < unat e"
    using ad unfolding n_def by (intro conj_cong) linarith+
  also have "\<dots> \<longleftrightarrow> a \<le> w \<and> w AND NOT 0xFFF < e"
    unfolding word_le_nat_alt word_less_nat_alt masked ..
  finally show ?thesis .
qed

lemma walk_find: "l \<le> 3 \<Longrightarrow> tab s (vpath v l) = Some t \<Longrightarrow> no_large s v \<Longrightarrow> walk_from v False l t s = (tab s (vpath v 0), s)"
proof (induction l arbitrary: t)
  case (Suc l)
  let ?e = "ent s t (pidx v (Suc l))"
  have lf: "leaf_from v (Suc l) t s = tab s (vpath v 0)" by (rule leaf_from_tab [OF Suc.prems(1,2)])
  have nl: "l = 0 \<and> ?e AND PTE_P \<noteq> 0 \<longrightarrow> ?e AND 0x80 = 0" using Suc.prems(2,3) by (auto simp: no_large_def)
  show ?case
  proof (cases "?e AND PTE_P = 0")
    case True
    then show ?thesis using lf by (simp add: Let_def)
  next
    case False
    have pl: "vpath v l = pidx v (Suc l) # vpath v (Suc l)" "length (vpath v (Suc l)) = 2 \<longleftrightarrow> l = 0"
      using vpath_simps(2) [of l v] vpath_simps(3) [of v "Suc l"] Suc.prems(1) by auto
    have "tab s (vpath v l) = Some (?e AND NOT 0xFFF)" unfolding pl(1) tab.simps using Suc.prems(2) pl(2) False nl by auto
    then show ?thesis using Suc.IH Suc.prems(1,3) False by (simp add: Let_def)
  qed
qed simp

lemma user_bits:
  "((e :: 64 word) OR PTE_U) AND NOT 0xFFF = e AND NOT 0xFFF" "(e OR PTE_U) AND 0xFFF = (e AND 0xFFF) OR PTE_U"
  "(e OR PTE_U) AND PTE_P = 0 \<longleftrightarrow> e AND PTE_P = 0"
proof -
  have b: "bit PTE_U n \<longleftrightarrow> n = 2" for n using bit_exp_iff [where ?'a = "64 word", of 2 n] by auto
  show "(e OR PTE_U) AND NOT 0xFFF = e AND NOT 0xFFF" "(e OR PTE_U) AND 0xFFF = (e AND 0xFFF) OR PTE_U"
    unfolding mask_consts by (rule bit_word_eqI, auto simp only: bit_and_iff bit_or_iff bit_not_iff bit_mask_iff b; simp)+
  show "(e OR PTE_U) AND PTE_P = 0 \<longleftrightarrow> e AND PTE_P = 0"
    using and_exp_eq_0_iff_not_bit [of "e OR PTE_U" 0] and_exp_eq_0_iff_not_bit [of e 0] by (simp add: bit_or_iff)
qed

lemma set_user_page_leaf:
  assumes "pt_inv s" "v < 0x8000000000" "free_addrs (vm_pmm s) \<noteq> {}"
  shows "grows 1 s (set_user_page v s)"
    "leaf (set_user_page v s) w = (if same_page w v then map_option (\<lambda>(b, f). (b, f OR PTE_U)) (leaf s w) else leaf s w)"
proof -
  obtain r s1 where s1: "split_large v s = (r, s1)" "grows 1 s s1" "leaf s1 = leaf s" "no_large s1 v"
    using split_ok [OF assms] by blast
  have i1: "pt_inv s1" using s1(2) by (simp add: grows_def)
  have wk: "vmm_walk v False s1 = (tab s1 (vpath v 0), s1)"
    using walk_find [OF order_refl _ s1(4), of "vm_pml4 s1"] by (simp add: vmm_walk_def vpath_simps)
  show "grows 1 s (set_user_page v s)"
    "leaf (set_user_page v s) w = (if same_page w v then map_option (\<lambda>(b, f). (b, f OR PTE_U)) (leaf s w) else leaf s w)"
  proof (atomize (full), cases "tab s1 (vpath v 0)")
    case None
    have "leaf s1 v = None"
      using None s1(4) unfolding leaf_def no_large_def
      by (auto simp: vpath_simps(2) [of 0] vpath_simps(3) Let_def split: option.splits if_splits)
    moreover have "set_user_page v s = s1" using s1(1) wk None by (simp add: set_user_page_def)
    ultimately show "grows 1 s (set_user_page v s) \<and>
        leaf (set_user_page v s) w = (if same_page w v then map_option (\<lambda>(b, f). (b, f OR PTE_U)) (leaf s w) else leaf s w)"
      using s1(2,3) small_page(2) [of w v s] by auto
  next
    case (Some pt)
    let ?e = "ent s1 pt (pidx v 0)"
    note w = leaf_write(1-3) [OF i1 Some, where e = "?e OR PTE_U"]
    have lf: "leaf s1 v = (if ?e AND PTE_P = 0 then None else Some (?e AND NOT 0xFFF, ?e AND 0xFFF))"
      using leaf_write(4) [OF i1 Some] by (simp add: Let_def)
    have su: "set_user_page v s = (if ?e AND PTE_P \<noteq> 0 then set_ent pt (pidx v 0) (?e OR PTE_U) s1 else s1)"
      using s1(1) wk Some by (simp add: set_user_page_def)
    show "grows 1 s (set_user_page v s) \<and>
        leaf (set_user_page v s) w = (if same_page w v then map_option (\<lambda>(b, f). (b, f OR PTE_U)) (leaf s w) else leaf s w)"
    proof (cases "?e AND PTE_P = 0")
      case True
      then show ?thesis using su lf s1(2,3) small_page(2) [of w v s] by auto
    next
      case False
      have "leaf (set_user_page v s) w = (if same_page w v then Some (?e AND NOT 0xFFF, (?e AND 0xFFF) OR PTE_U) else leaf s w)"
        using su False w(3) [of w] s1(3) by (simp only: user_bits simp_thms if_True if_False)
      then show ?thesis
        using su False lf s1(3) small_page(2) [of w v s] grows_trans [OF s1(2) w(1)] by auto
    qed
  qed
qed

lemma set_user_pages:
  "pt_inv s \<Longrightarrow> (\<forall>p \<in> set ps. p < 0x8000000000) \<Longrightarrow> length ps \<le> card (free_addrs (vm_pmm s)) \<Longrightarrow>
     grows (length ps) s (fold set_user_page ps s) \<and>
     (\<forall>w. leaf (fold set_user_page ps s) w =
        (if \<exists>p \<in> set ps. same_page w p then map_option (\<lambda>(b, f). (b, f OR PTE_U)) (leaf s w) else leaf s w))"
proof (induction ps arbitrary: s)
  case (Cons p ps)
  let ?s = "set_user_page p s"
  have ne: "free_addrs (vm_pmm s) \<noteq> {}" using Cons.prems(3) by auto
  note u = set_user_page_leaf [OF Cons.prems(1) _ ne, of p]
  have p: "p < 0x8000000000" using Cons.prems(2) by simp
  have i: "pt_inv ?s" "length ps \<le> card (free_addrs (vm_pmm ?s))" using u(1) [OF p] Cons.prems(3) by (auto simp: grows_def)
  have IH: "grows (length ps) ?s (fold set_user_page ps ?s)"
    "\<And>w. leaf (fold set_user_page ps ?s) w = (if \<exists>p \<in> set ps. same_page w p then map_option (\<lambda>(b, f). (b, f OR PTE_U)) (leaf ?s w) else leaf ?s w)"
    using Cons.IH [OF i(1) _ i(2)] Cons.prems(2) by auto
  show ?case using grows_trans [OF u(1) [OF p] IH(1)] IH(2) u(2) [OF p]
    by (auto simp: option.map_comp comp_def split_def or.assoc)
qed simp

lemma aligned_step: "aligned (a + 0x1000 * x) = aligned a"
proof -
  have "unat (a + 0x1000 * x) = (unat a + 4096 * unat x) mod (4096 * 4503599627370496)"
    by (simp add: unat_word_ariths mod_simps)
  then have "unat (a + 0x1000 * x) mod 4096 = (unat a + 4096 * unat x) mod 4096" by (simp only: mod_mult2_eq mod_mult_self3 mod_mod_trivial) simp
  then show ?thesis by (simp add: aligned_def)
qed

lemma page_range_aligned: "aligned a \<Longrightarrow> p \<in> set (page_range a e) \<Longrightarrow> aligned p"
  by (auto simp: page_range_def aligned_step)

section \<open>The tables of the boot code\<close>

text \<open>
  The tables that \<^verbatim>\<open>boot.S\<close> builds, at example addresses: one entry in the root, four page
  directories, and 2048 large pages that map the first 4 GB to themselves.
\<close>

definition boot_mem :: qmem where
  "boot_mem a =
     (let n = unat a in
      if n = 0x1000 then 0x2007
      else if 0x2000 \<le> n \<and> n < 0x2020 then 0x3007 + 0x1000 * word_of_nat ((n - 0x2000) div 8)
      else if 0x3000 \<le> n \<and> n < 0x7000 then 0x83 + 0x200000 * word_of_nat ((n - 0x3000) div 8)
      else 0)"

definition boot_vm :: vm where
  "boot_vm = \<lparr>vm_pml4 = 0x1000, vm_mem = boot_mem, vm_pmm = pmm_example\<rparr>"

lemma boot_ent:
  assumes "aligned t" "unat j < 512"
  shows "ent boot_vm t j =
    (if t = 0x1000 then (if j = 0 then 0x2007 else 0)
     else if t = 0x2000 then (if unat j < 4 then 0x3007 + 0x1000 * j else 0)
     else if 0x3000 \<le> unat t \<and> unat t < 0x7000 then 0x83 + 0x200000 * word_of_nat ((unat t - 0x3000) div 8 + unat j)
     else 0)"
proof -
  have m: "unat t mod 4096 = 0" using assms(1) by (simp add: aligned_def)
  have d: "t = 0x1000 \<longleftrightarrow> unat t = 0x1000" "t = 0x2000 \<longleftrightarrow> unat t = 0x2000" "j = 0 \<longleftrightarrow> unat j = 0"
    by (simp_all add: word_unat_eq_iff)
  obtain k where k: "unat t = 4096 * k" using m by (metis dvdE mod_0_imp_dvd)
  consider "k = 0" | "k = 1" | "k = 2" | "3 \<le> k" "k < 7" | "7 \<le> k" by linarith
  then show ?thesis
  proof cases
    case 4
    have "(unat t + 8 * unat j - 0x3000) div 8 = (unat t - 0x3000) div 8 + unat j" using 4 k by simp
    then show ?thesis using 4 d k assms(2) by (simp add: ent_def boot_vm_def boot_mem_def slot_addr [OF assms])
  qed (use assms(2) in \<open>simp_all add: ent_def boot_vm_def boot_mem_def slot_addr [OF assms] d k Let_def\<close>)
qed

lemma large_entry: "0x83 + 0x200000 * x = (0x83 :: 64 word) OR push_bit 21 x" "bit (0x83 :: 64 word) n \<Longrightarrow> n < 8"
proof -
  have m: "(0x83 :: 64 word) AND mask 8 = 0x83" by (simp add: mask_eq_exp_minus_1)
  show l: "bit (0x83 :: 64 word) n \<Longrightarrow> n < 8" for n using m by (metis bit_and_iff bit_mask_iff)
  have "0x83 + push_bit 21 x = 0x83 OR push_bit 21 x"
  proof (rule disjunctive_add)
    show "\<not> bit (0x83 :: 64 word) n \<or> \<not> bit (push_bit 21 x) n" for n
      using l [of n] bit_push_bit_iff [of 21 x n] by linarith
  qed
  then show "0x83 + 0x200000 * x = 0x83 OR push_bit 21 x" by (simp add: push_bit_eq_mult mult.commute)
qed

lemma large_bit: "bit (0x83 + 0x200000 * x :: 64 word) 7"
  by (simp add: large_entry(1) bit_or_iff)

lemma boot_tab:
  "tab boot_vm [] = Some 0x1000" "unat i < 512 \<Longrightarrow> tab boot_vm [i] = (if i = 0 then Some 0x2000 else None)"
  "unat i < 512 \<Longrightarrow> unat j < 512 \<Longrightarrow> tab boot_vm [j, i] = (if i = 0 \<and> unat j < 4 then Some (0x3000 + 0x1000 * j) else None)"
  "unat i < 512 \<Longrightarrow> unat j < 512 \<Longrightarrow> unat k < 512 \<Longrightarrow> tab boot_vm [k, j, i] = None"
proof -
  have a: "aligned 0x1000" "aligned 0x2000" by (simp_all add: aligned_def)
  show t0: "tab boot_vm [] = Some 0x1000" by (simp add: boot_vm_def)
  show t1: "tab boot_vm [i] = (if i = 0 then Some 0x2000 else None)" if "unat i < 512" for i
    using boot_ent [OF a(1) that] t0 by (cases "i = 0") simp_all
  have four: "j = 0 \<or> j = 1 \<or> j = 2 \<or> j = 3" if "unat j < 4" for j :: "64 word"
  proof -
    have "unat j = 0 \<or> unat j = 1 \<or> unat j = 2 \<or> unat j = 3" using that by linarith
    then show ?thesis by (simp add: word_unat_eq_iff)
  qed
  show t2: "tab boot_vm [j, i] = (if i = 0 \<and> unat j < 4 then Some (0x3000 + 0x1000 * j) else None)"
    if "unat i < 512" "unat j < 512" for i j
    using boot_ent [OF a(2) that(2)] t1 [OF that(1)] four [of j] by auto
  show "tab boot_vm [k, j, i] = None" if "unat i < 512" "unat j < 512" "unat k < 512" for i j k
  proof (cases "i = 0 \<and> unat j < 4")
    case True
    let ?t = "0x3000 + 0x1000 * j" and ?x = "word_of_nat ((unat (0x3000 + 0x1000 * j) - 0x3000) div 8 + unat k) :: 64 word"
    have u: "unat ?t = 0x3000 + 0x1000 * unat j" using True by (simp add: unat_word_ariths)
    then have al: "aligned ?t" by (simp add: aligned_def)
    have "?t \<noteq> 0x1000" "?t \<noteq> 0x2000" "0x3000 \<le> unat ?t" "unat ?t < 0x7000" using u True by (simp_all add: word_unat_eq_iff)
    then have e: "ent boot_vm ?t k = 0x83 + 0x200000 * ?x" using boot_ent [OF al that(3)] by simp
    have "bit (0x83 + 0x200000 * ?x) 7" by (rule large_bit)
    then have "(0x83 + 0x200000 * ?x) AND 0x80 \<noteq> 0" using and_exp_eq_0_iff_not_bit [of "0x83 + 0x200000 * ?x" 7] by simp
    then show ?thesis using t2 [OF that(1,2)] True e by simp
  qed (use t2 [OF that(1,2)] in auto)
qed

lemma boot_paths:
  assumes "path_ok p" "tab boot_vm p = Some t"
  shows "p = [] \<and> t = 0x1000 \<or> p = [0] \<and> t = 0x2000 \<or> (\<exists>j. p = [j, 0] \<and> unat j < 4 \<and> unat t = 0x3000 + 0x1000 * unat j)"
proof -
  consider "p = []" | i where "p = [i]" | i j where "p = [j, i]" | i j k where "p = [k, j, i]"
  proof -
    have "length p = 0 \<or> length p = 1 \<or> length p = 2 \<or> length p = 3" using assms(1) unfolding path_ok_def by linarith
    then show thesis using that by (auto simp: length_Suc_conv numeral_2_eq_2 numeral_3_eq_3)
  qed
  then show ?thesis
  proof cases
    case (3 i j)
    then have "unat i < 512" "unat j < 512" using assms(1) by simp_all
    then have "i = 0" "unat j < 4" "t = 0x3000 + 0x1000 * j" using assms(2) boot_tab(3) [of i j] 3 by (auto split: if_splits)
    then show ?thesis using 3 by (simp add: unat_word_ariths)
  next
    case (4 i j k)
    then have "unat i < 512" "unat j < 512" "unat k < 512" using assms(1) by simp_all
    then show ?thesis using assms(2) boot_tab(4) [of i j k] 4 by simp
  qed (use assms boot_tab(1) boot_tab(2) in \<open>auto split: if_splits simp del: tab.simps\<close>)
qed

lemma boot_free: "free_addrs pmm_example = (\<lambda>n. word_of_nat n * FRAME_SIZE) ` {258..<512}" "card (free_addrs pmm_example) = 254"
proof -
  show f: "free_addrs pmm_example = (\<lambda>n. word_of_nat n * FRAME_SIZE) ` {258..<512}"
    using pmm_example(2) by (simp add: free_addrs_def)
  have "inj_on (\<lambda>n. word_of_nat n * FRAME_SIZE) {258..<512}" by (rule inj_on_subset [OF frame_addr_inj]) auto
  then show "card (free_addrs pmm_example) = 254" unfolding f by (simp add: card_image)
qed

lemma boot_inv: "pt_inv boot_vm"
proof -
  have "unat t < 0x7000" if "path_ok p" "tab boot_vm p = Some t" for p t using boot_paths [OF that] by auto
  then have "t \<notin> free_addrs pmm_example" if "path_ok p" "tab boot_vm p = Some t" for p t
    using that by (fastforce simp: boot_free(1) unat_word_ariths unat_of_nat)
  moreover have "p = q" if "path_ok p" "path_ok q" "tab boot_vm p = Some t" "tab boot_vm q = Some t" for p q t
    using boot_paths [OF that(1,3)] boot_paths [OF that(2,4)] by (auto simp: word_unat_eq_iff)
  ultimately show ?thesis
    using pmm_example(1) boot_tab(2) [of 0] unfolding pt_inv_def by (simp add: boot_vm_def aligned_def del: tab.simps) blast
qed

lemma unat_pidx: "unat (pidx v l) = unat v div 2 ^ (12 + 9 * l) mod 512"
proof -
  have "pidx v l = take_bit 9 (drop_bit (12 + 9 * l) v)" by (simp only: pidx_def mask_consts take_bit_eq_mask)
  then have "unat (pidx v l) = take_bit 9 (drop_bit (12 + 9 * l) (unat v))" by (simp only: unsigned_take_bit_eq unat_drop_bit_eq)
  then show ?thesis by (simp add: take_bit_eq_mod drop_bit_eq_div)
qed

lemma boot_leaf: "v < 0x100000000 \<Longrightarrow> leaf boot_vm v = Some (v AND NOT 0xFFF, 3)" "\<not> small boot_vm w"
proof -
  show "\<not> small boot_vm w"
    using boot_tab(4) [of "pidx w 3" "pidx w 2" "pidx w 1"]
    by (simp add: small_def vpath_def upt_rec numeral_2_eq_2 numeral_3_eq_3 del: tab.simps)
  assume v: "v < 0x100000000"
  let ?j = "pidx v 2" and ?k = "pidx v 1" and ?t = "0x3000 + 0x1000 * pidx v 2" and ?x = "drop_bit 21 v"
  have vn: "unat v < 0x100000000" using v by (simp add: word_less_nat_alt)
  have p3: "pidx v 3 = 0" using low_path [of v] v by (simp add: word_less_nat_alt)
  have j: "unat ?j = unat v div 0x40000000" "unat ?j < 4" using unat_pidx [of v 2] vn by simp_all
  have k: "unat ?k = unat v div 0x200000 mod 512" using unat_pidx [of v 1] by simp
  have "unat v div 0x40000000 = unat v div 0x200000 div 512" by (simp add: div_mult2_eq [symmetric])
  then have jk: "512 * unat ?j + unat ?k = unat v div 0x200000" using j(1) k by simp
  have u: "unat ?t = 0x3000 + 0x1000 * unat ?j" using j(2) by (simp add: unat_word_ariths)
  then have al: "aligned ?t" by (simp add: aligned_def)
  have "?t \<noteq> 0x1000" "?t \<noteq> 0x2000" "0x3000 \<le> unat ?t" "unat ?t < 0x7000" using u j(2) by (simp_all add: word_unat_eq_iff)
  moreover have "word_of_nat ((unat ?t - 0x3000) div 8 + unat ?k) = ?x"
  proof -
    have "unat ?x = unat v div 0x200000" by (simp only: unat_drop_bit_eq) (simp add: drop_bit_eq_div)
    then have "word_of_nat (unat v div 0x200000) = (word_of_nat (unat ?x) :: 64 word)" by (simp only:)
    also have "\<dots> = ?x" by (simp only: word_of_nat_eq_iff of_nat_unat ucast_id)
    finally have "word_of_nat (512 * unat ?j + unat ?k) = ?x" by (simp only: jk)
    moreover have "(unat ?t - 0x3000) div 8 + unat ?k = 512 * unat ?j + unat ?k" using u by simp
    ultimately show ?thesis by (simp only:)
  qed
  ultimately have e: "ent boot_vm ?t ?k = 0x83 OR push_bit 21 ?x"
    using boot_ent [OF al idx_bound(2) [of v 1]] large_entry(1) [of ?x] by simp
  have t: "tab boot_vm (vpath v 1) = Some ?t"
    using boot_tab(3) [of 0 ?j] j(2) p3 by (simp add: vpath_def upt_rec numeral_2_eq_2 numeral_3_eq_3 del: tab.simps)
  have fl: "(0x83 OR push_bit 21 ?x) AND 0xFFF AND NOT 0x80 = 3"
  proof -
    have "(0x83 OR push_bit 21 ?x) AND 0xFFF = 0x83 AND 0xFFF"
      unfolding mask_consts by (rule bit_word_eqI) (auto simp: bit_and_iff bit_or_iff bit_mask_iff bit_push_bit_iff)
    then have "((0x83 OR push_bit 21 ?x) AND 0xFFF) AND NOT 0x80 = 3" by simp
    then show ?thesis by (simp only: and.assoc)
  qed
  have "(0x83 OR push_bit 21 ?x) AND NOT 0x1FFFFF = push_bit 21 ?x"
    unfolding mask_consts
  proof (rule bit_word_eqI)
    show "bit ((0x83 OR push_bit 21 ?x) AND NOT (mask 21)) n = bit (push_bit 21 ?x) n" if "n < LENGTH(64)" for n
      using large_entry(2) [of n] by (auto simp: bit_and_iff bit_or_iff bit_not_iff bit_mask_iff bit_push_bit_iff)
  qed
  moreover have "push_bit 21 ?x + push_bit 12 (pidx v 0) = push_bit 21 ?x OR push_bit 12 (pidx v 0)"
    unfolding pidx_def mask_consts by (rule disjunctive_add) (auto simp: bit_simps)
  moreover have "push_bit 21 ?x OR push_bit 12 (pidx v 0) = v AND NOT 0xFFF"
    unfolding pidx_def mask_consts
  proof (rule bit_word_eqI)
    show "bit (push_bit 21 ?x OR push_bit 12 (drop_bit (12 + 9 * 0) v AND mask 9)) n = bit (v AND NOT (mask 12)) n"
      if "n < LENGTH(64)" for n by (cases "21 \<le> n") (use that in \<open>auto simp: bit_simps\<close>)
  qed
  ultimately have b: "((0x83 OR push_bit 21 ?x) AND NOT 0x1FFFFF) + push_bit 12 (pidx v 0) = v AND NOT 0xFFF" by simp
  have "bit (0x83 OR push_bit 21 ?x) 0" "bit (0x83 OR push_bit 21 ?x) 7" by (simp_all add: bit_or_iff)
  then have "(0x83 OR push_bit 21 ?x) AND PTE_P \<noteq> 0" "(0x83 OR push_bit 21 ?x) AND 0x80 \<noteq> 0"
    using and_exp_eq_0_iff_not_bit [of "0x83 OR push_bit 21 ?x" 0] and_exp_eq_0_iff_not_bit [of "0x83 OR push_bit 21 ?x" 7] by simp_all
  then show "leaf boot_vm v = Some (v AND NOT 0xFFF, 3)"
    unfolding leaf_def t option.case Let_def e by (simp only: fl b if_True if_False simp_thms)
qed

section \<open>Properties\<close>





lemma leaf_aligned: "leaf s v = Some (b, f) \<Longrightarrow> aligned b"
proof -
  have "aligned ((e AND NOT 0x1FFFFF) + push_bit 12 (pidx v 0))" for e
  proof -
    have "(e AND NOT 0x1FFFFF) + push_bit 12 (pidx v 0) = (e AND NOT (mask 21)) + 0x1000 * pidx v 0"
      by (simp add: mask_consts push_bit_eq_mult mult.commute)
    moreover have "aligned (e AND NOT (mask 21))" by (simp add: aligned_bits bit_simps)
    ultimately show ?thesis by (simp only: aligned_step)
  qed
  then show "leaf s v = Some (b, f) \<Longrightarrow> aligned b"
    unfolding leaf_def Let_def by (auto split: option.splits if_splits simp del: bit.conj_cancel_left)
qed

lemma low_and: "aligned a \<Longrightarrow> a AND 0xFFF = 0" "aligned a \<Longrightarrow> a AND NOT 0xFFF = a"
proof -
  assume a: "aligned a"
  then show "a AND 0xFFF = 0" by (simp add: aligned_iff)
  show "a AND NOT 0xFFF = a" using a masked [of a] by (metis aligned_def add.right_neutral div_mult_mod_eq word_unat_eq_iff)
qed

text \<open>The addresses of one large page have the same last-level table.\<close>

lemma same_large: "unat v div 0x200000 = unat w div 0x200000 \<Longrightarrow> vpath v 0 = vpath w 0"
proof -
  assume e: "unat v div 0x200000 = unat w div 0x200000"
  have p: "unat (pidx x (Suc l)) = unat x div 0x200000 div 2 ^ (9 * l) mod 512" for x l
    using unat_pidx [of x "Suc l"] by (simp add: power_add div_mult2_eq)
  have "pidx v (Suc l) = pidx w (Suc l)" for l using p [of v l] p [of w l] e by (metis word_unat_eq_iff)
  then have "pidx v l = pidx w l" if "0 < l" for l using that by (cases l) simp_all
  then show ?thesis by (simp add: vpath_def)
qed

text \<open>
  Unmapping releases memory that was never allocated (C10): once one page is mapped inside an identity-mapped
  large page, as the first page of a program at 4 MB is, \<open>vmm_unmap_range\<close> over that large page gives
  all its other frames to the allocator, although none of them was taken from it; a module or another
  reserved area there can then be handed out and overwritten.
\<close>

theorem unmap_releases_reserved_frames:
  assumes "pt_inv s" "4 \<le> card (free_addrs (vm_pmm s))"
    and "\<forall>a. aligned a \<and> 0x400000 \<le> a \<and> a < 0x600000 \<longrightarrow> vmm_phys s a = a \<and> a \<notin> tabs s \<and> a \<notin> free_addrs (vm_pmm s)"
    and "aligned frame" "frame \<noteq> 0" "frame \<notin> tabs s" "frame \<notin> free_addrs (vm_pmm s)"
  shows "\<exists>s'. vmm_unmap_range 0x400000 0x600000 (vmm_map 0x400000 frame flags s) = Some s' \<and>
    (\<forall>a. aligned a \<and> 0x401000 \<le> a \<and> a < 0x600000 \<longrightarrow> a \<notin> free_addrs (vm_pmm s) \<and> a \<in> free_addrs (vm_pmm s'))"
proof -
  define s1 where "s1 = vmm_map 0x400000 frame flags s"
  let ?ps = "page_range 0x400000 0x600000"
  have al4: "aligned 0x400000" by (simp add: aligned_def)
  have g: "grows 4 s s1" and lf: "\<And>v. leaf s1 v = (if same_page v 0x400000 then Some (frame AND NOT 0xFFF, (flags AND 0xFFF) OR PTE_P) else leaf s v)"
    and tb: "tab s1 (vpath 0x400000 0) \<noteq> None"
    using vmm_map_leaf [OF assms(1) _ assms(2), of "0x400000" frame flags] unfolding s1_def by simp_all
  have ps: "p \<in> set ?ps \<longleftrightarrow> aligned p \<and> 0x400000 \<le> p \<and> p < 0x600000" for p
  proof
    assume p: "p \<in> set ?ps"
    then have "\<exists>q \<in> set ?ps. q div 4096 = p div 4096" by blast
    then show "aligned p \<and> 0x400000 \<le> p \<and> p < 0x600000"
      using page_range_iff [OF al4, of "0x600000" p] page_range_aligned [OF al4 p] low_and(2) by simp
  next
    assume p: "aligned p \<and> 0x400000 \<le> p \<and> p < 0x600000"
    then obtain q where "q \<in> set ?ps" "q div 4096 = p div 4096"
      using page_range_iff [OF al4, of "0x600000" p] low_and(2) [of p] by auto
    then show "p \<in> set ?ps" using page_range_aligned [OF al4, of q] frame_eq [of q p] p by simp
  qed
  have sm: "small s1 p" if "p \<in> set ?ps" for p
  proof -
    have "0x400000 \<le> unat p" "unat p < 0x600000" using that ps [of p] by (simp_all add: word_le_nat_alt word_less_nat_alt)
    then have "unat p div 0x200000 = 2" by (intro div_nat_eqI) simp_all
    then have "vpath p 0 = vpath 0x400000 0" by (intro same_large) simp
    then show ?thesis using tb by (simp add: small_def)
  qed
  have tabs1: "tabs s1 \<subseteq> tabs s \<union> free_addrs (vm_pmm s)" using g by (simp add: grows_def)
  have lp: "\<exists>f. leaf s p = Some (p, f)" if "p \<in> set ?ps" for p
  proof -
    have p: "aligned p" "p \<noteq> 0" "vmm_phys s p = p" using that ps [of p] assms(3) by (auto simp: word_le_nat_alt)
    then obtain b f where b: "leaf s p = Some (b, f)" "b + (p AND 0xFFF) = p" unfolding vmm_phys_leaf by (auto split: option.splits)
    then show ?thesis using low_and(1) [OF p(1)] by simp
  qed
  have us: "\<forall>p \<in> set ?ps. unmap_safe s1 p"
  proof
    fix p assume p: "p \<in> set ?ps"
    then have "p \<noteq> 0" "p \<notin> tabs s1" using ps [of p] assms(3) tabs1 by (auto simp: word_le_nat_alt)
    then show "unmap_safe s1 p"
      using lf [of p] lp [OF p] assms(4-7) low_and(2) tabs1 unfolding unmap_safe_def by (auto split: if_splits)
  qed
  have "pt_inv s1" using g by (simp add: grows_def)
  from unmap_pages [OF this us] have fr: "free_addrs (vm_pmm (fold unmap_page ?ps s1)) = free_addrs (vm_pmm s1) \<union> (\<Union>p \<in> set ?ps. freed s1 p)"
    by (simp add: unmapped_def)
  have "a \<in> freed s1 a" if a: "aligned a" "0x401000 \<le> a" "a < 0x600000" for a
  proof -
    have n: "0x401000 \<le> unat a" "unat a < 0x600000" using a by (simp_all add: word_le_nat_alt word_less_nat_alt)
    then have pa: "a \<in> set ?ps" using ps [of a] a by (simp add: word_le_nat_alt)
    have "\<not> same_page a 0x400000"
    proof
      assume "same_page a 0x400000"
      then have "a div 4096 = 0x400000 div 4096" using same_page_iff [of a "0x400000"] n by (simp add: word_less_nat_alt)
      then have "a = 0x400000" using frame_eq [OF a(1) al4] by blast
      then show False using n by simp
    qed
    then show ?thesis using lf [of a] lp [OF pa] sm [OF pa] n by (auto simp: freed_def word_less_nat_alt)
  qed
  then have "a \<in> free_addrs (vm_pmm (fold unmap_page ?ps s1))" if "aligned a" "0x401000 \<le> a" "a < 0x600000" for a
    unfolding fr using that ps [of a] by (auto simp: word_le_nat_alt)
  moreover have "a \<notin> free_addrs (vm_pmm s)" if "aligned a" "0x401000 \<le> a" "a < 0x600000" for a
    using assms(3) that by (auto simp: word_le_nat_alt)
  ultimately show ?thesis unfolding s1_def vmm_unmap_range_def by simp
qed

theorem unmap_releases_reserved_frames_witness:
  "0x401000 \<notin> free_addrs (vm_pmm boot_vm) \<and>
   (\<exists>s'. vmm_unmap_range 0x400000 0x600000 (vmm_map 0x400000 0x200000 7 boot_vm) = Some s' \<and> 0x401000 \<in> free_addrs (vm_pmm s'))"
proof -
  have c: "4 \<le> card (free_addrs (vm_pmm boot_vm))" using boot_free(2) by (simp add: boot_vm_def)
  have h: "vmm_phys boot_vm a = a \<and> a \<notin> tabs boot_vm \<and> a \<notin> free_addrs (vm_pmm boot_vm)"
    if "aligned a" "0x200000 \<le> a" "a < 0x600000" for a
  proof -
    have n: "0x200000 \<le> unat a" "unat a < 0x600000" using that by (simp_all add: word_le_nat_alt word_less_nat_alt)
    have "a \<notin> tabs boot_vm" using n boot_paths unfolding tabs_def by fastforce
    moreover have "a \<notin> free_addrs (vm_pmm boot_vm)" using n by (auto simp: boot_vm_def boot_free(1) unat_word_ariths unat_of_nat)
    moreover have "vmm_phys boot_vm a = a"
      using boot_leaf(1) [of a] n low_and [OF that(1)] by (simp add: vmm_phys_leaf word_less_nat_alt)
    ultimately show ?thesis by simp
  qed
  have "\<forall>a. aligned a \<and> 0x400000 \<le> a \<and> a < 0x600000 \<longrightarrow> vmm_phys boot_vm a = a \<and> a \<notin> tabs boot_vm \<and> a \<notin> free_addrs (vm_pmm boot_vm)"
    using h by (simp add: word_le_nat_alt)
  moreover have a: "aligned 0x200000" "aligned 0x401000" by (simp_all add: aligned_def)
  ultimately have "\<exists>s'. vmm_unmap_range 0x400000 0x600000 (vmm_map 0x400000 0x200000 7 boot_vm) = Some s' \<and>
      (\<forall>a. aligned a \<and> 0x401000 \<le> a \<and> a < 0x600000 \<longrightarrow> a \<notin> free_addrs (vm_pmm boot_vm) \<and> a \<in> free_addrs (vm_pmm s'))"
    using h [of "0x200000"] by (intro unmap_releases_reserved_frames [OF boot_inv c]) auto
  then show ?thesis using a(2) by auto
qed

end
