(* ===== verification/Elf.thy ===== *)
theory Elf
  imports Vmm
begin

text \<open>
  The program loader's ELF reader, \<^verbatim>\<open>kernel/elf.c\<close>: it checks the headers of an image in memory, maps
  fresh frames for every loadable segment, copies the file part and clears the rest. Bytes live
  in the 64-bit words of the paging theory, low byte first. The header structures are read once where the
  code goes through a pointer to them; the image is not written while it is loaded in any state the lemmas speak of.
\<close>

section \<open>Bytes in memory\<close>

definition ld8 :: "vm \<Rightarrow> 64 word \<Rightarrow> byte" where
  "ld8 s a = ucast (drop_bit (8 * unat (a AND 7)) (vm_mem s (a AND NOT 7)))"

definition st8 :: "64 word \<Rightarrow> byte \<Rightarrow> vm \<Rightarrow> vm" where
  "st8 a b s = s\<lparr>vm_mem := (vm_mem s)(a AND NOT 7 :=
     (vm_mem s (a AND NOT 7) AND NOT (push_bit (8 * unat (a AND 7)) 0xFF)) OR push_bit (8 * unat (a AND 7)) (ucast b))\<rparr>"

definition ld_le :: "vm \<Rightarrow> 64 word \<Rightarrow> nat \<Rightarrow> 'a::len word" where
  "ld_le s a n = le_word (map (\<lambda>k. ld8 s (a + word_of_nat k)) [0..<n])"

section \<open>Headers\<close>

abbreviation USER_MIN :: "64 word" where "USER_MIN \<equiv> 0x400000"
abbreviation USER_MAX :: "64 word" where "USER_MAX \<equiv> 0x40000000"
abbreviation PT_LOAD :: "32 word" where "PT_LOAD \<equiv> 1"
abbreviation PF_W :: "32 word" where "PF_W \<equiv> 2"

record elf64_ehdr =
  eh_ident :: "byte list"
  eh_machine :: "16 word"
  eh_entry :: "64 word"
  eh_phoff :: "64 word"
  eh_phentsize :: "16 word"
  eh_phnum :: "16 word"

record elf64_phdr =
  ph_type :: "32 word"
  ph_flags :: "32 word"
  ph_off :: "64 word"
  ph_vaddr :: "64 word"
  ph_filesz :: "64 word"
  ph_memsz :: "64 word"

definition ehdr_at :: "vm \<Rightarrow> 64 word \<Rightarrow> elf64_ehdr" where
  "ehdr_at s a = \<lparr>eh_ident = map (\<lambda>k. ld8 s (a + word_of_nat k)) [0..<16], eh_machine = ld_le s (a + 18) 2,
     eh_entry = ld_le s (a + 24) 8, eh_phoff = ld_le s (a + 32) 8, eh_phentsize = ld_le s (a + 54) 2, eh_phnum = ld_le s (a + 56) 2\<rparr>"

definition phdr_at :: "vm \<Rightarrow> 64 word \<Rightarrow> elf64_phdr" where
  "phdr_at s a = \<lparr>ph_type = ld_le s a 4, ph_flags = ld_le s (a + 4) 4, ph_off = ld_le s (a + 8) 8, ph_vaddr = ld_le s (a + 16) 8,
     ph_filesz = ld_le s (a + 32) 8, ph_memsz = ld_le s (a + 40) 8\<rparr>"

section \<open>Loading\<close>

fun map_pages :: "64 word \<Rightarrow> 64 word list \<Rightarrow> vm \<Rightarrow> bool \<times> vm" where
  "map_pages w [] s = (True, s)"
| "map_pages w (va # vas) s =
     (let (f, q) = pmm_alloc_frame (vm_pmm s); s1 = s\<lparr>vm_pmm := q\<rparr> in
      if f = 0 then (False, s1) else map_pages w vas (vmm_map va f (PTE_P OR PTE_U OR w) s1))"

fun copy_loop :: "64 word \<Rightarrow> 64 word \<Rightarrow> nat \<Rightarrow> vm \<Rightarrow> bool \<times> vm" where
  "copy_loop src dst 0 s = (True, s)"
| "copy_loop src dst (Suc n) s =
     (let phys = vmm_phys s dst in
      if phys = 0 then (False, s) else copy_loop (src + 1) (dst + 1) n (st8 phys (ld8 s src) s))"

fun zero_loop :: "64 word \<Rightarrow> nat \<Rightarrow> vm \<Rightarrow> bool \<times> vm" where
  "zero_loop dst 0 s = (True, s)"
| "zero_loop dst (Suc n) s =
     (let phys = vmm_phys s dst in
      if phys = 0 then (False, s) else zero_loop (dst + 1) n (st8 phys 0 s))"

definition load_segment :: "64 word \<Rightarrow> 64 word \<Rightarrow> elf64_phdr \<Rightarrow> vm \<Rightarrow> bool \<times> vm" where
  "load_segment img len p s =
     (let w = (if ph_flags p AND PF_W \<noteq> 0 then PTE_W else 0) in
      if ph_type p \<noteq> PT_LOAD \<or> ph_memsz p = 0 then (True, s)
      else if ph_off p + ph_filesz p > len \<or> ph_memsz p < ph_filesz p then (False, s)
      else if ph_vaddr p < USER_MIN \<or> ph_vaddr p + ph_memsz p > USER_MAX then (False, s)
      else
        let (ok1, s1) = map_pages w (page_range (ph_vaddr p AND NOT 0xFFF) (ph_vaddr p + ph_memsz p)) s in
        if \<not> ok1 then (False, s1)
        else
          let (ok2, s2) = copy_loop (img + ph_off p) (ph_vaddr p) (unat (ph_filesz p)) s1 in
          if \<not> ok2 then (False, s2)
          else zero_loop (ph_vaddr p + ph_filesz p) (unat (ph_memsz p) - unat (ph_filesz p)) s2)"

fun load_segments :: "64 word \<Rightarrow> 64 word \<Rightarrow> elf64_ehdr \<Rightarrow> nat list \<Rightarrow> vm \<Rightarrow> bool \<times> vm" where
  "load_segments img len e [] s = (True, s)"
| "load_segments img len e (i # is) s =
     (let p = phdr_at s (img + eh_phoff e + word_of_nat i * ucast (eh_phentsize e));
          (ok, s1) = load_segment img len p s in
      if \<not> ok then (False, s1) else load_segments img len e is s1)"

text \<open>The result -1 is None; otherwise the entry point stored through the pointer.\<close>

definition elf_load :: "64 word \<Rightarrow> 64 word \<Rightarrow> vm \<Rightarrow> 64 word option \<times> vm" where
  "elf_load img len s =
     (if len < 64 then (None, s)
      else
        let e = ehdr_at s img; d = eh_ident e in
        if d ! 0 \<noteq> 0x7F \<or> d ! 1 \<noteq> ch (CHR ''E'') \<or> d ! 2 \<noteq> ch (CHR ''L'') \<or> d ! 3 \<noteq> ch (CHR ''F'') then (None, s)
        else if d ! 4 \<noteq> 2 \<or> d ! 5 \<noteq> 1 \<or> eh_machine e \<noteq> 0x3E then (None, s)
        else if eh_phnum e \<noteq> 0 \<and> eh_phentsize e < 56 then (None, s)
        else if eh_phoff e + ucast (eh_phnum e) * ucast (eh_phentsize e) > len then (None, s)
        else
          let (ok, s1) = load_segments img len e [0..<unat (eh_phnum e)] s in
          if \<not> ok then (None, s1)
          else if eh_entry e < USER_MIN \<or> eh_entry e \<ge> USER_MAX then (None, s1)
          else (Some (eh_entry e), s1))"

section \<open>Byte stores\<close>

lemma ld8_st8: "ld8 (st8 a b s) c = (if c = a then b else ld8 s c)"
proof -
  let ?k = "8 * unat (a AND 7)" and ?m = "8 * unat (c AND 7)"
  have b7: "unat (x AND 7) < 8" for x :: "64 word"
    using word_and_le1 [of x 7] by (simp add: word_le_nat_alt)
  have m8: "(0xFF :: 64 word) = mask 8" by (simp add: mask_eq_exp_minus_1)
  show ?thesis
  proof (cases "c AND NOT 7 = a AND NOT 7")
    case False
    then show ?thesis by (auto simp: ld8_def st8_def)
  next
    case True
    have ca: "c = a \<longleftrightarrow> unat (c AND 7) = unat (a AND 7)"
      using True word_unat_eq_iff [of "c AND 7" "a AND 7"] by (metis bit.conj_disj_distrib bit.disj_cancel_right word_and_max)
    show ?thesis
    proof (cases "c = a")
      case eq: True
      have "ucast (drop_bit ?k ((vm_mem s (a AND NOT 7) AND NOT (push_bit ?k (mask 8))) OR push_bit ?k (ucast b))) = b"
        by (rule bit_word_eqI) (use b7 [of a] in \<open>auto simp: bit_simps\<close>)
      then show ?thesis using eq by (simp add: ld8_def st8_def m8)
    next
      case ne: False
      then have "unat (c AND 7) \<noteq> unat (a AND 7)" using ca by simp
      then have d: "?m + 8 \<le> ?k \<or> ?k + 8 \<le> ?m" by linarith
      have "(ucast (drop_bit ?m ((vm_mem s (a AND NOT 7) AND NOT (push_bit ?k (mask 8))) OR push_bit ?k (ucast b))) :: byte)
          = ucast (drop_bit ?m (vm_mem s (a AND NOT 7)))"
        by (rule bit_word_eqI) (use d in \<open>auto simp: bit_simps dest: bit_imp_le_length\<close>)
      then show ?thesis using ne True by (simp add: ld8_def st8_def m8)
    qed
  qed
qed

lemma qword_frame: "(a AND NOT 7) div 4096 = (a :: 64 word) div 4096"
proof -
  have "drop_bit 12 (a AND NOT 7) = drop_bit 12 a"
  proof (rule bit_word_eqI)
    have m: "(7 :: 64 word) = mask 3" by (simp add: mask_eq_exp_minus_1)
    show "bit (drop_bit 12 (a AND NOT 7)) n = bit (drop_bit 12 a) n" if "n < LENGTH(64)" for n
      unfolding m by (auto simp: bit_simps dest: bit_imp_le_length)
  qed
  then show ?thesis by (simp add: drop_bit_eq_div)
qed

lemma st8_simps [simp]: "vm_pml4 (st8 a b s) = vm_pml4 s" "vm_pmm (st8 a b s) = vm_pmm s"
  by (simp_all add: st8_def)

lemma st8_ent: "aligned t \<Longrightarrow> unat j < 512 \<Longrightarrow> t div 4096 \<noteq> a div 4096 \<Longrightarrow> ent (st8 a b s) t j = ent s t j"
  using same_frame [of t j] qword_frame [of a] by (auto simp: ent_def st8_def)

lemma ld8_same: "(\<And>x. x div 4096 = a div 4096 \<Longrightarrow> vm_mem s' x = vm_mem s x) \<Longrightarrow> ld8 s' a = ld8 s a"
  using qword_frame [of a] by (simp add: ld8_def)

section \<open>Pages a program owns\<close>

abbreviation pg :: "64 word \<Rightarrow> 64 word" where
  "pg v \<equiv> v AND NOT 0xFFF"

text \<open>The byte a program sees at an address.\<close>

definition ub :: "vm \<Rightarrow> 64 word \<Rightarrow> byte" where
  "ub s v = ld8 s (vmm_phys s v)"

text \<open>
  The pages \<open>P\<close> are mapped to different frames, which are neither page tables, nor free, nor frames
  of the set \<open>I\<close> that holds the image; the frames of \<open>I\<close> are neither tables nor free.
\<close>

definition owned :: "64 word set \<Rightarrow> 64 word set \<Rightarrow> vm \<Rightarrow> bool" where
  "owned I P s \<longleftrightarrow> pt_inv s \<and> (\<forall>i \<in> I. aligned i \<and> i \<notin> tabs s \<and> i \<notin> free_addrs (vm_pmm s))
     \<and> (\<forall>p \<in> P. aligned p \<and> p < 0x8000000000 \<and> vmm_phys s p \<noteq> 0 \<and> vmm_phys s p \<notin> tabs s
          \<and> vmm_phys s p \<notin> free_addrs (vm_pmm s) \<and> vmm_phys s p \<notin> I)
     \<and> inj_on (vmm_phys s) P"

lemma page_split:
  assumes "aligned f"
  shows "pg (f + (v AND 0xFFF)) = f" "(f + (v AND 0xFFF)) AND 0xFFF = v AND 0xFFF" "(f + (v AND 0xFFF)) div 4096 = f div 4096"
proof -
  have z: "\<not> bit f n" if "n < 12" for n using assms that by (simp add: aligned_bits)
  have o: "f + (v AND 0xFFF) = f OR (v AND 0xFFF)"
    unfolding mask_consts by (rule disjunctive_add) (auto simp: bit_simps dest: z)
  show p: "pg (f + (v AND 0xFFF)) = f"
    unfolding o unfolding mask_consts by (rule bit_word_eqI) (auto simp: bit_and_iff bit_or_iff bit_not_iff bit_mask_iff intro: ccontr dest: z)
  show "(f + (v AND 0xFFF)) AND 0xFFF = v AND 0xFFF"
    unfolding o unfolding mask_consts by (rule bit_word_eqI) (auto simp: bit_and_iff bit_or_iff bit_mask_iff dest: z)
  have "drop_bit 12 (f OR (v AND 0xFFF)) = drop_bit 12 f"
    unfolding mask_consts by (rule bit_word_eqI) (auto simp: bit_simps)
  then show "(f + (v AND 0xFFF)) div 4096 = f div 4096" unfolding o by (simp add: drop_bit_eq_div)
qed

lemma pg_join: "pg v + (v AND 0xFFF) = v"
proof -
  have "pg v + (v AND 0xFFF) = pg v OR (v AND 0xFFF)"
    unfolding mask_consts by (rule disjunctive_add) (auto simp: bit_simps)
  also have "\<dots> = v" unfolding mask_consts by (rule bit_word_eqI) (auto simp: bit_simps)
  finally show ?thesis .
qed

lemma pg_frame: "pg v div 4096 = v div 4096"
  using page_split(3) [OF aligned_mask(1), of v v] pg_join [of v] by simp

lemma same_page_pg: "same_page v (pg v)"
proof -
  have "pidx (pg v) l = pidx v l" for l
    unfolding pidx_def mask_consts by (rule bit_word_eqI) (auto simp: bit_simps dest: bit_imp_le_length)
  then show ?thesis by (simp add: same_page_def)
qed

lemma same_page_aligned:
  assumes "aligned p" "aligned q" "p < 0x8000000000" "q < 0x8000000000"
  shows "same_page p q \<longleftrightarrow> p = q"
proof -
  have "p < 0x1000000000000" "q < 0x1000000000000" using assms(3,4) by (simp_all add: word_less_nat_alt)
  then show ?thesis using same_page_iff frame_eq [OF assms(1,2)] by simp
qed

lemma phys_pg:
  assumes "vmm_phys s (pg v) \<noteq> 0"
  shows "aligned (vmm_phys s (pg v))" "vmm_phys s v = vmm_phys s (pg v) + (v AND 0xFFF)" "vmm_phys s v \<noteq> 0"
proof -
  obtain b f where l: "leaf s (pg v) = Some (b, f)" using assms by (auto simp: vmm_phys_leaf split: option.splits)
  then have v: "leaf s v = Some (b, f)" using small_page(2) [OF same_page_pg] by simp
  have p: "vmm_phys s (pg v) = b" using l low_and(1) [OF aligned_mask(1)] by (simp add: vmm_phys_leaf)
  show a: "aligned (vmm_phys s (pg v))" using leaf_aligned [OF l] p by simp
  show e: "vmm_phys s v = vmm_phys s (pg v) + (v AND 0xFFF)" using v p by (simp add: vmm_phys_leaf)
  show "vmm_phys s v \<noteq> 0"
  proof
    assume "vmm_phys s v = 0"
    then have "pg (vmm_phys s (pg v) + (v AND 0xFFF)) = 0" using e by simp
    then show False using page_split(1) [OF a] assms by simp
  qed
qed

lemma owned_phys:
  assumes "owned I P s" "pg v \<in> P" "pg w \<in> P"
  shows "vmm_phys s v = vmm_phys s w \<longleftrightarrow> v = w" "vmm_phys s v \<noteq> 0" "pg (vmm_phys s v) = vmm_phys s (pg v)"
proof -
  have nz: "vmm_phys s (pg v) \<noteq> 0" "vmm_phys s (pg w) \<noteq> 0" using assms by (auto simp: owned_def)
  note pv = phys_pg [OF nz(1)] and pw = phys_pg [OF nz(2)]
  show "vmm_phys s v \<noteq> 0" "pg (vmm_phys s v) = vmm_phys s (pg v)" using pv page_split(1) by simp_all
  show "vmm_phys s v = vmm_phys s w \<longleftrightarrow> v = w"
  proof
    assume e: "vmm_phys s v = vmm_phys s w"
    then have "vmm_phys s (pg v) = vmm_phys s (pg w)" using page_split(1) pv(1,2) pw(1,2) by metis
    then have "pg v = pg w" using assms by (auto simp: owned_def dest: inj_onD)
    moreover have "v AND 0xFFF = w AND 0xFFF" using e page_split(2) pv(1,2) pw(1,2) by metis
    ultimately show "v = w" using pg_join by metis
  qed simp
qed

lemma owned_store:
  fixes b :: byte
  assumes "owned I P s" "pg v \<in> P"
  defines "s' \<equiv> st8 (vmm_phys s v) b s"
  shows "owned I P s'" "leaf s' = leaf s" "pg w \<in> P \<Longrightarrow> ub s' w = (if w = v then b else ub s w)"
    "pg a \<in> I \<Longrightarrow> ld8 s' a = ld8 s a"
proof -
  have nz: "vmm_phys s (pg v) \<noteq> 0" and inv: "pt_inv s" using assms by (auto simp: owned_def)
  note pv = phys_pg [OF nz]
  have fr: "vmm_phys s v div 4096 = vmm_phys s (pg v) div 4096" using pv(2) page_split(3) [OF pv(1)] by simp
  have nt: "vmm_phys s (pg v) \<notin> tabs s" using assms by (auto simp: owned_def)
  have e: "ent s' u j = ent s u j" if "u \<in> tabs s" "unat j < 512" for u j
    unfolding s'_def using st8_ent [of u j "vmm_phys s v"] tabs_aligned [OF inv that(1)] that frame_eq [OF _ pv(1), of u] nt fr by auto
  have m: "vm_pml4 s' = vm_pml4 s" "vm_pmm s' = vm_pmm s" by (simp_all add: s'_def)
  show lf: "leaf s' = leaf s" using leaf_cong [OF m(1) e] by blast
  then have ph: "vmm_phys s' = vmm_phys s" by (auto simp: vmm_phys_leaf)
  have "pt_inv s'" "tabs s' = tabs s"
    using tree_cong_inv [OF inv m(1) e] m(2) pt_invD(1) [OF inv] tabs_not_free [OF inv] by auto
  then show "owned I P s'" using assms(1) ph m(2) by (simp add: owned_def)
  show "ub s' w = (if w = v then b else ub s w)" if "pg w \<in> P"
    using owned_phys(1) [OF assms(1) that assms(2)] unfolding ub_def ph unfolding s'_def ld8_st8 by auto
  show "ld8 s' a = ld8 s a" if "pg a \<in> I"
  proof -
    have "pg (vmm_phys s v) \<notin> I" using owned_phys(3) [OF assms(1,2,2)] assms(1,2) by (simp add: owned_def)
    then have "a \<noteq> vmm_phys s v" using that by auto
    then show ?thesis by (simp add: s'_def ld8_st8)
  qed
qed

text \<open>What later steps keep of earlier ones: the mapping and the bytes of owned pages, and the image.\<close>

definition keeps :: "64 word set \<Rightarrow> 64 word set \<Rightarrow> vm \<Rightarrow> vm \<Rightarrow> bool" where
  "keeps I P s s' \<longleftrightarrow> (\<forall>w. pg w \<in> P \<longrightarrow> leaf s' w = leaf s w \<and> ub s' w = ub s w) \<and> (\<forall>a. pg a \<in> I \<longrightarrow> ld8 s' a = ld8 s a)"

lemma keeps_refl [simp]: "keeps I P s s"
  by (simp add: keeps_def)

lemma keeps_trans: "keeps I P s s' \<Longrightarrow> keeps I P s' s'' \<Longrightarrow> keeps I P s s''"
  by (auto simp: keeps_def)

lemma keeps_mono: "keeps I P s s' \<Longrightarrow> Q \<subseteq> P \<Longrightarrow> keeps I Q s s'"
  by (auto simp: keeps_def)

lemma owned_alloc:
  assumes "owned I P s" "free_addrs (vm_pmm s) \<noteq> {}"
  obtains f q where "pmm_alloc_frame (vm_pmm s) = (f, q)" "f \<noteq> 0" "f \<notin> I" "owned (insert f I) P (s\<lparr>vm_pmm := q\<rparr>)"
    "keeps I P s (s\<lparr>vm_pmm := q\<rparr>)" "card (free_addrs (vm_pmm s)) = Suc (card (free_addrs q))"
proof -
  have inv: "pt_inv s" using assms(1) by (simp add: owned_def)
  have pm: "pmm_inv (vm_pmm s)" by (rule pt_invD(1) [OF inv])
  obtain f q where a: "pmm_alloc_frame (vm_pmm s) = (f, q)" by fastforce
  have f: "f \<in> free_addrs (vm_pmm s)" "pmm_inv q" "free_addrs q = free_addrs (vm_pmm s) - {f}"
    using pmm_alloc.alloc_in [OF pm assms(2)] pmm_alloc.invar_alloc [OF pm] pmm_alloc.fr_alloc [OF pm assms(2)] a by simp_all
  have v: "f \<noteq> 0" "aligned f" using free_addrs_valid [OF pm f(1)] by (auto simp: aligned_def word_unat_eq_iff unat_mod)
  define s1 where "s1 = s\<lparr>vm_pmm := q\<rparr>"
  have m1: "vm_pml4 s1 = vm_pml4 s" "vm_pmm s1 = q" "vm_mem s1 = vm_mem s" by (simp_all add: s1_def)
  have e1: "ent s1 u j = ent s u j" for u j by (simp add: ent_def m1)
  have dj: "free_addrs (vm_pmm s1) \<inter> tabs s = {}" using tabs_not_free [OF inv] f(3) m1 by auto
  have i1: "pt_inv s1" "tabs s1 = tabs s" using tree_cong_inv [OF inv m1(1) e1 _ dj] m1 f(2) by auto
  have l1: "leaf s1 = leaf s" using leaf_cong [OF m1(1) e1] by blast
  then have p1: "vmm_phys s1 = vmm_phys s" by (auto simp: vmm_phys_leaf)
  have nt: "f \<notin> tabs s" "f \<notin> I" using tabs_not_free [OF inv] f(1) assms(1) unfolding owned_def by blast+
  have "owned (insert f I) P s1"
    using assms(1) i1 v(2) nt f(1,3) unfolding owned_def p1 m1 by auto
  moreover have "keeps I P s s1" using l1 p1 m1(3) by (simp add: keeps_def ub_def ld8_def)
  moreover have "card (free_addrs (vm_pmm s)) = Suc (card (free_addrs q))" using card_take [OF inv f(1)] f(3) by simp
  ultimately show thesis using that [OF a v(1) nt(2)] unfolding s1_def by blast
qed

lemma owned_keep_bytes:
  assumes "owned I P s" "grows k s s'" "\<And>w. pg w \<in> P \<Longrightarrow> leaf s' w = leaf s w"
  shows "keeps I P s s'"
proof -
  have ld: "ld8 s' b = ld8 s b" if "aligned u" "u \<notin> tabs s" "u \<notin> free_addrs (vm_pmm s)" "b div 4096 = u div 4096" for u b
    by (rule ld8_same) (use assms(2) that in \<open>auto simp: grows_def\<close>)
  have "ld8 s' b = ld8 s b" if "pg b \<in> I" for b
    by (rule ld [of "pg b"]) (use that assms(1) pg_frame in \<open>auto simp: owned_def\<close>)
  moreover have "ub s' w = ub s w" if "pg w \<in> P" for w
  proof -
    have z: "vmm_phys s (pg w) \<noteq> 0" "vmm_phys s (pg w) \<notin> tabs s" "vmm_phys s (pg w) \<notin> free_addrs (vm_pmm s)"
      using that assms(1) by (auto simp: owned_def)
    note pv = phys_pg [OF z(1)]
    have "ld8 s' (vmm_phys s w) = ld8 s (vmm_phys s w)"
      by (rule ld [OF pv(1) z(2,3)]) (use pv(2) page_split(3) [OF pv(1)] in simp)
    then show ?thesis using assms(3) [OF that] by (simp add: ub_def vmm_phys_leaf)
  qed
  ultimately show ?thesis using assms(3) by (simp add: keeps_def)
qed

lemma owned_vmm_map:
  assumes "owned (insert f I) P s" "f \<notin> I" "f \<noteq> 0" "aligned va" "va \<notin> P" "va < 0x8000000000" "4 \<le> card (free_addrs (vm_pmm s))"
  shows "owned I (insert va P) (vmm_map va f fl s)" "keeps I P s (vmm_map va f fl s)"
    "card (free_addrs (vm_pmm s)) \<le> card (free_addrs (vm_pmm (vmm_map va f fl s))) + 4"
    "leaf (vmm_map va f fl s) va = Some (f, (fl AND 0xFFF) OR PTE_P)"
proof -
  define s2 where "s2 = vmm_map va f fl s"
  have inv: "pt_inv s" and af: "aligned f" "f \<notin> tabs s" "f \<notin> free_addrs (vm_pmm s)" using assms(1) by (simp_all add: owned_def)
  note mp = vmm_map_leaf [OF inv assms(6,7), of f fl, folded s2_def]
  have l2: "leaf s2 w = (if same_page w va then Some (f, (fl AND 0xFFF) OR PTE_P) else leaf s w)" for w
    using mp(2) [of w] low_and(2) [OF af(1)] by simp
  have g: "pt_inv s2" "free_addrs (vm_pmm s2) \<subseteq> free_addrs (vm_pmm s)" "tabs s2 \<subseteq> tabs s \<union> free_addrs (vm_pmm s)"
    "card (free_addrs (vm_pmm s)) \<le> card (free_addrs (vm_pmm s2)) + 4"
    using mp(1) unfolding grows_def by auto
  have pp: "\<not> same_page p va" if "p \<in> P" for p
    using same_page_aligned [OF _ assms(4) _ assms(6), of p] that assms(1,5) by (auto simp: owned_def)
  have lw: "leaf s2 w = leaf s w" if "pg w \<in> P" for w
    using l2 pp [OF that] same_page_pg [of w] by (auto simp: same_page_def)
  have "owned I P s" using assms(1) by (simp add: owned_def)
  from owned_keep_bytes [OF this mp(1) lw] show "keeps I P s (vmm_map va f fl s)" by (simp add: s2_def)
  have pgP: "pg p = p" if "p \<in> P" for p using that assms(1) low_and(2) by (auto simp: owned_def)
  have ph: "vmm_phys s2 p = vmm_phys s p" if "p \<in> P" for p using lw [of p] pgP [OF that] that by (simp add: vmm_phys_leaf)
  have lva: "leaf s2 va = Some (f, (fl AND 0xFFF) OR PTE_P)" using l2 [of va] by (simp add: same_page_def)
  then show "leaf (vmm_map va f fl s) va = Some (f, (fl AND 0xFFF) OR PTE_P)" by (simp add: s2_def)
  have pva: "vmm_phys s2 va = f" using lva low_and(1) [OF assms(4)] by (simp add: vmm_phys_leaf)
  have nP: "vmm_phys s p \<noteq> f" if "p \<in> P" for p using that assms(1) by (auto simp: owned_def)
  have "inj_on (vmm_phys s2) P \<longleftrightarrow> inj_on (vmm_phys s) P" by (rule inj_on_cong [OF ph])
  then have "inj_on (vmm_phys s2) (insert va P)"
    using assms(1) ph pva nP unfolding inj_on_insert owned_def by fastforce
  moreover have "\<forall>i \<in> I. aligned i \<and> i \<notin> tabs s2 \<and> i \<notin> free_addrs (vm_pmm s2)"
    using assms(1) g(2,3) unfolding owned_def by blast
  moreover have "vmm_phys s2 p \<noteq> 0 \<and> vmm_phys s2 p \<notin> tabs s2 \<and> vmm_phys s2 p \<notin> free_addrs (vm_pmm s2) \<and> vmm_phys s2 p \<notin> I" if "p \<in> P" for p
    using assms(1) that g(2,3) unfolding ph [OF that] owned_def by blast
  moreover have "f \<notin> tabs s2" "f \<notin> free_addrs (vm_pmm s2)" using g(2,3) af(2,3) by blast+
  ultimately have "owned I (insert va P) s2"
    using g(1) assms(1-4,6) pva unfolding owned_def by auto
  then show "owned I (insert va P) (vmm_map va f fl s)" by (simp add: s2_def)
  show "card (free_addrs (vm_pmm s)) \<le> card (free_addrs (vm_pmm (vmm_map va f fl s))) + 4" using g(4) by (simp add: s2_def)
qed

lemma owned_map:
  assumes "owned I P s" "aligned va" "va \<notin> P" "va < 0x8000000000" "5 \<le> card (free_addrs (vm_pmm s))"
  obtains f q where "pmm_alloc_frame (vm_pmm s) = (f, q)" "f \<noteq> 0"
    "owned I (insert va P) (vmm_map va f fl (s\<lparr>vm_pmm := q\<rparr>))" "keeps I P s (vmm_map va f fl (s\<lparr>vm_pmm := q\<rparr>))"
    "card (free_addrs (vm_pmm s)) \<le> card (free_addrs (vm_pmm (vmm_map va f fl (s\<lparr>vm_pmm := q\<rparr>)))) + 5"
    "leaf (vmm_map va f fl (s\<lparr>vm_pmm := q\<rparr>)) va = Some (f, (fl AND 0xFFF) OR PTE_P)"
proof -
  have "free_addrs (vm_pmm s) \<noteq> {}" using assms(5) by auto
  from owned_alloc [OF assms(1) this] obtain f q where a: "pmm_alloc_frame (vm_pmm s) = (f, q)" "f \<noteq> 0" "f \<notin> I"
    "owned (insert f I) P (s\<lparr>vm_pmm := q\<rparr>)" "keeps I P s (s\<lparr>vm_pmm := q\<rparr>)"
    "card (free_addrs (vm_pmm s)) = Suc (card (free_addrs q))" by metis
  then have "4 \<le> card (free_addrs (vm_pmm (s\<lparr>vm_pmm := q\<rparr>)))" using assms(5) by simp
  note m = owned_vmm_map [OF a(4,3,2) assms(2-4) this, where fl = fl]
  show thesis using that [OF a(1,2) m(1) keeps_trans [OF a(5) m(2)] _ m(4)] m(3) a(6) by simp
qed

lemma map_pages_ok:
  "owned I P s \<Longrightarrow> distinct vas \<Longrightarrow> set vas \<inter> P = {} \<Longrightarrow> (\<forall>v \<in> set vas. aligned v \<and> v < 0x8000000000) \<Longrightarrow>
     5 * length vas \<le> card (free_addrs (vm_pmm s)) \<Longrightarrow>
     \<exists>s'. map_pages w vas s = (True, s') \<and> owned I (P \<union> set vas) s' \<and> keeps I P s s'
       \<and> card (free_addrs (vm_pmm s)) \<le> card (free_addrs (vm_pmm s')) + 5 * length vas
       \<and> (\<forall>v \<in> set vas. \<exists>f. leaf s' v = Some (f, ((PTE_P OR PTE_U OR w) AND 0xFFF) OR PTE_P))"
proof (induction vas arbitrary: s P)
  case (Cons va vas)
  let ?fl = "PTE_P OR PTE_U OR w"
  have c: "5 \<le> card (free_addrs (vm_pmm s))" using Cons.prems(5) by simp
  show ?case
  proof (rule owned_map [OF Cons.prems(1) _ _ _ c, where va = va and fl = ?fl])
    fix f q
    let ?s = "vmm_map va f ?fl (s\<lparr>vm_pmm := q\<rparr>)"
    assume a: "pmm_alloc_frame (vm_pmm s) = (f, q)" "f \<noteq> 0" "owned I (insert va P) ?s" "keeps I P s ?s"
      "card (free_addrs (vm_pmm s)) \<le> card (free_addrs (vm_pmm ?s)) + 5" "leaf ?s va = Some (f, (?fl AND 0xFFF) OR PTE_P)"
    have "set vas \<inter> insert va P = {}" "distinct vas" "\<forall>v \<in> set vas. aligned v \<and> v < 0x8000000000"
      "5 * length vas \<le> card (free_addrs (vm_pmm ?s))" using Cons.prems a(5) by auto
    from Cons.IH [OF a(3) this(2,1,3,4)] obtain s' where s': "map_pages w vas ?s = (True, s')" "owned I (insert va P \<union> set vas) s'"
      "keeps I (insert va P) ?s s'" "card (free_addrs (vm_pmm ?s)) \<le> card (free_addrs (vm_pmm s')) + 5 * length vas"
      "\<forall>v \<in> set vas. \<exists>f. leaf s' v = Some (f, (?fl AND 0xFFF) OR PTE_P)" by blast
    have "pg va = va" using Cons.prems(4) low_and(2) by simp
    then have "leaf s' va = leaf ?s va" using s'(3) by (simp add: keeps_def)
    moreover have "keeps I P s s'" using keeps_trans [OF a(4) keeps_mono [OF s'(3)]] by blast
    ultimately show ?thesis using a(1,2,5,6) s'(1,2,4,5) by (auto simp: Un_insert_left)
  qed (use Cons.prems in auto)
qed simp

section \<open>Filling pages\<close>

text \<open>Bytes stored one after the other through the translation: both loops of the loader are this.\<close>

fun put_user :: "64 word \<Rightarrow> byte list \<Rightarrow> vm \<Rightarrow> vm" where
  "put_user dst [] s = s"
| "put_user dst (b # bs) s = put_user (dst + 1) bs (st8 (vmm_phys s dst) b s)"

lemma add_of_nat_inj: "m < n \<Longrightarrow> n \<le> 18446744073709551616 \<Longrightarrow> k < n \<Longrightarrow>
    (a :: 64 word) + word_of_nat m = a + word_of_nat k \<longleftrightarrow> m = k"
proof -
  assume "m < n" "n \<le> 18446744073709551616" "k < n"
  then have "unat (word_of_nat m :: 64 word) = m" "unat (word_of_nat k :: 64 word) = k" by (simp_all add: unat_of_nat)
  then show ?thesis by (metis add_left_cancel)
qed

lemma put_user_ok:
  "owned I P s \<Longrightarrow> length bs < 18446744073709551616 \<Longrightarrow> (\<forall>k < length bs. pg (dst + word_of_nat k) \<in> P) \<Longrightarrow>
     owned I P (put_user dst bs s) \<and> leaf (put_user dst bs s) = leaf s \<and> vm_pmm (put_user dst bs s) = vm_pmm s
     \<and> (\<forall>a. pg a \<in> I \<longrightarrow> ld8 (put_user dst bs s) a = ld8 s a)
     \<and> (\<forall>k < length bs. ub (put_user dst bs s) (dst + word_of_nat k) = bs ! k)
     \<and> (\<forall>w. pg w \<in> P \<and> (\<forall>k < length bs. w \<noteq> dst + word_of_nat k) \<longrightarrow> ub (put_user dst bs s) w = ub s w)"
proof (induction bs arbitrary: dst s)
  case (Cons b bs)
  let ?s = "st8 (vmm_phys s dst) b s"
  have d: "pg dst \<in> P" using Cons.prems(3) [rule_format, of 0] by simp
  note st = owned_store [OF Cons.prems(1) d, where b = b]
  have sh: "dst + 1 + word_of_nat k = dst + word_of_nat (Suc k)" for k by simp
  have p: "\<forall>k < length bs. pg (dst + 1 + word_of_nat k) \<in> P" unfolding sh using Cons.prems(3) by (simp del: of_nat_Suc)
  have len: "length bs < 18446744073709551616" using Cons.prems(2) by simp
  note IH = Cons.IH [OF st(1) len p]
  have nd: "dst \<noteq> dst + 1 + word_of_nat k" if "k < length bs" for k
    unfolding sh using add_of_nat_inj [of 0 "Suc (length bs)" "Suc k" dst] that Cons.prems(2) by simp
  have "ub (put_user dst (b # bs) s) (dst + word_of_nat k) = (b # bs) ! k" if "k < length (b # bs)" for k
  proof (cases k)
    case 0
    have "ub (put_user (dst + 1) bs ?s) dst = ub ?s dst" using IH nd d by blast
    then show ?thesis using 0 st(3) [OF d] by simp
  next
    case (Suc m)
    then show ?thesis using IH that unfolding sh by simp
  qed
  moreover have "ub (put_user dst (b # bs) s) w = ub s w" if "pg w \<in> P" "\<forall>k < length (b # bs). w \<noteq> dst + word_of_nat k" for w
  proof -
    have "w \<noteq> dst" using that(2) [rule_format, of 0] by simp
    moreover have "\<forall>k < length bs. w \<noteq> dst + 1 + word_of_nat k" unfolding sh using that(2) by (simp del: of_nat_Suc)
    ultimately show ?thesis using IH st(3) [OF that(1)] that(1) by simp
  qed
  ultimately show ?case using IH st(2,4) by simp
qed simp

lemma copy_loop_put:
  "owned I P s \<Longrightarrow> (\<forall>k < n. pg (dst + word_of_nat k) \<in> P) \<Longrightarrow> (\<forall>k < n. pg (src + word_of_nat k) \<in> I) \<Longrightarrow>
     copy_loop src dst n s = (True, put_user dst (map (\<lambda>k. ld8 s (src + word_of_nat k)) [0..<n]) s)"
proof (induction n arbitrary: src dst s)
  case (Suc n)
  let ?s = "st8 (vmm_phys s dst) (ld8 s src) s"
  have sh: "x + 1 + word_of_nat k = x + word_of_nat (Suc k)" for x :: "64 word" and k by simp
  have d: "pg dst \<in> P" using Suc.prems(2) [rule_format, of 0] by simp
  note st = owned_store [OF Suc.prems(1) d, where b = "ld8 s src"]
  have "vmm_phys s dst \<noteq> 0" using owned_phys(2) [OF Suc.prems(1) d d] .
  moreover have "copy_loop (src + 1) (dst + 1) n ?s = (True, put_user (dst + 1) (map (\<lambda>k. ld8 ?s (src + 1 + word_of_nat k)) [0..<n]) ?s)"
    by (rule Suc.IH [OF st(1)]) (unfold sh, use Suc.prems in auto)
  moreover have "map (\<lambda>k. ld8 ?s (src + 1 + word_of_nat k)) [0..<n] = map (\<lambda>k. ld8 s (src + word_of_nat (Suc k))) [0..<n]"
    unfolding sh using st(4) Suc.prems(3) by (simp del: of_nat_Suc)
  moreover have "map (\<lambda>k. ld8 s (src + word_of_nat k)) [0..<Suc n] = ld8 s src # map (\<lambda>k. ld8 s (src + word_of_nat (Suc k))) [0..<n]"
    by (simp add: upt_conv_Cons map_Suc_upt [symmetric] del: upt_Suc)
  ultimately show ?case by (simp add: Let_def del: upt_Suc)
qed simp

lemma zero_loop_put:
  "owned I P s \<Longrightarrow> (\<forall>k < n. pg (dst + word_of_nat k) \<in> P) \<Longrightarrow> zero_loop dst n s = (True, put_user dst (replicate n 0) s)"
proof (induction n arbitrary: dst s)
  case (Suc n)
  have sh: "dst + 1 + word_of_nat k = dst + word_of_nat (Suc k)" for k by simp
  have d: "pg dst \<in> P" using Suc.prems(2) [rule_format, of 0] by simp
  note st = owned_store [OF Suc.prems(1) d, where b = 0]
  have "vmm_phys s dst \<noteq> 0" using owned_phys(2) [OF Suc.prems(1) d d] .
  moreover have "zero_loop (dst + 1) n (st8 (vmm_phys s dst) 0 s) = (True, put_user (dst + 1) (replicate n 0) (st8 (vmm_phys s dst) 0 s))"
    by (rule Suc.IH [OF st(1)]) (unfold sh, use Suc.prems in auto)
  ultimately show ?case by (simp add: Let_def)
qed simp

section \<open>Loading a segment\<close>

definition loadable :: "elf64_phdr \<Rightarrow> bool" where
  "loadable p \<longleftrightarrow> ph_type p = PT_LOAD \<and> ph_memsz p \<noteq> 0"

definition seg_pages :: "elf64_phdr \<Rightarrow> 64 word list" where
  "seg_pages p = (if loadable p then page_range (ph_vaddr p AND NOT 0xFFF) (ph_vaddr p + ph_memsz p) else [])"

text \<open>A segment that lies in the file and in the user area, counted without wrap-around.\<close>

definition seg_ok :: "64 word \<Rightarrow> elf64_phdr \<Rightarrow> bool" where
  "seg_ok len p \<longleftrightarrow> (loadable p \<longrightarrow> unat (ph_off p) + unat (ph_filesz p) \<le> unat len \<and> ph_filesz p \<le> ph_memsz p
     \<and> USER_MIN \<le> ph_vaddr p \<and> unat (ph_vaddr p) + unat (ph_memsz p) \<le> unat USER_MAX)"

text \<open>What a loaded segment is: its bytes, cleared behind the file part, in user pages, writable as its flags say.\<close>

definition seg_loaded :: "64 word \<Rightarrow> vm \<Rightarrow> elf64_phdr \<Rightarrow> vm \<Rightarrow> bool" where
  "seg_loaded img s0 p s \<longleftrightarrow> (loadable p \<longrightarrow> (\<forall>k < unat (ph_memsz p).
     ub s (ph_vaddr p + word_of_nat k) = (if k < unat (ph_filesz p) then ld8 s0 (img + ph_off p + word_of_nat k) else 0)
     \<and> (\<exists>f. leaf s (ph_vaddr p + word_of_nat k) =
          Some (f, PTE_P OR PTE_U OR (if ph_flags p AND PF_W \<noteq> 0 then PTE_W else 0)))))"

lemma page_range_distinct:
  assumes "aligned a" "unat e \<le> 0xFFFFFFFFFFFFF000"
  shows "distinct (page_range a e)"
proof -
  have "inj_on (\<lambda>k. a + 0x1000 * word_of_nat k) {0..<(unat e - unat a + 4095) div 4096}"
  proof (rule inj_onI)
    fix j k assume jk: "j \<in> {0..<(unat e - unat a + 4095) div 4096}" "k \<in> {0..<(unat e - unat a + 4095) div 4096}"
      and eq: "a + 0x1000 * word_of_nat j = a + 0x1000 * word_of_nat k"
    have "4096 * j < 18446744073709551616" "4096 * k < 18446744073709551616" using jk assms(2) unfolding atLeastLessThan_iff by linarith+
    then have "unat (0x1000 * word_of_nat j :: 64 word) = 4096 * j" "unat (0x1000 * word_of_nat k :: 64 word) = 4096 * k"
      by (simp_all add: unat_word_ariths unat_of_nat)
    moreover have "0x1000 * word_of_nat j = (0x1000 * word_of_nat k :: 64 word)" using eq by (rule add_left_imp_eq)
    ultimately have "4096 * j = 4096 * k" by metis
    then show "j = k" by simp
  qed
  then show ?thesis by (simp add: page_range_def distinct_map)
qed

lemma seg_addr:
  assumes "seg_ok len p" "loadable p" "k < unat (ph_memsz p)"
  shows "pg (ph_vaddr p + word_of_nat k) \<in> set (seg_pages p)" "unat (ph_vaddr p + word_of_nat k) = unat (ph_vaddr p) + k"
proof -
  have b: "unat (ph_vaddr p) + unat (ph_memsz p) \<le> 0x40000000" using assms by (simp add: seg_ok_def)
  then have u: "unat (ph_vaddr p + word_of_nat k) = unat (ph_vaddr p) + k" "unat (ph_vaddr p + ph_memsz p) = unat (ph_vaddr p) + unat (ph_memsz p)"
    using assms(3) by (simp_all add: unat_word_ariths unat_of_nat)
  show "unat (ph_vaddr p + word_of_nat k) = unat (ph_vaddr p) + k" by fact
  let ?v = "ph_vaddr p + word_of_nat k" and ?a = "pg (ph_vaddr p)" and ?e = "ph_vaddr p + ph_memsz p"
  have e: "unat ?e \<le> 0xFFFFFFFFFFFFF000" using b u(2) by simp
  have "?a \<le> ?v" "pg ?v < ?e" unfolding word_le_nat_alt word_less_nat_alt masked u using assms(3) by linarith+
  then obtain q where q: "q \<in> set (page_range ?a ?e)" "q div 4096 = ?v div 4096" using page_range_iff [OF aligned_mask(1) e] by blast
  then have "q = pg ?v" using frame_eq [OF page_range_aligned [OF aligned_mask(1) q(1)] aligned_mask(1), of ?v] pg_frame [of ?v] by simp
  then show "pg ?v \<in> set (seg_pages p)" using q(1) assms(2) by (simp add: seg_pages_def)
qed

lemma seg_loaded_image:
  assumes "seg_loaded img s1 p s'" "seg_ok len p" "\<forall>k < unat len. ld8 s (img + word_of_nat k) = ld8 s1 (img + word_of_nat k)"
  shows "seg_loaded img s p s'"
proof -
  have "ld8 s1 (img + ph_off p + word_of_nat k) = ld8 s (img + ph_off p + word_of_nat k)"
    if "loadable p" "k < unat (ph_filesz p)" for k
  proof -
    have "unat (ph_off p) + k < unat len" using assms(2) that by (simp add: seg_ok_def)
    moreover have "img + ph_off p + word_of_nat k = img + word_of_nat (unat (ph_off p) + k)" by simp
    ultimately show ?thesis using assms(3) by metis
  qed
  then show ?thesis using assms(1) unfolding seg_loaded_def by simp
qed

lemma seg_pages_facts:
  assumes "seg_ok len p"
  shows "distinct (seg_pages p)" "v \<in> set (seg_pages p) \<Longrightarrow> aligned v \<and> v < 0x8000000000" "v \<in> set (seg_pages p) \<Longrightarrow> v < 0x40000000"
proof -
  show "distinct (seg_pages p)"
  proof (cases "loadable p")
    case True
    then have "unat (ph_vaddr p + ph_memsz p) \<le> 0x40000000" using assms by (simp add: seg_ok_def unat_word_ariths)
    then show ?thesis using page_range_distinct [OF aligned_mask(1), of "ph_vaddr p + ph_memsz p"] True by (simp add: seg_pages_def)
  qed (simp add: seg_pages_def)
  assume v: "v \<in> set (seg_pages p)"
  then have l: "loadable p" and vr: "v \<in> set (page_range (pg (ph_vaddr p)) (ph_vaddr p + ph_memsz p))"
    by (auto simp: seg_pages_def split: if_splits)
  have e: "unat (ph_vaddr p + ph_memsz p) \<le> 0x40000000" using assms l by (simp add: seg_ok_def unat_word_ariths)
  have al: "aligned v" by (rule page_range_aligned [OF aligned_mask(1) vr])
  have "pg v < ph_vaddr p + ph_memsz p"
    using page_range_iff [OF aligned_mask(1), of "ph_vaddr p + ph_memsz p" "ph_vaddr p" v] e vr by auto
  then show "v < 0x40000000" "aligned v \<and> v < 0x8000000000" using al low_and(2) [OF al] e by (simp_all add: word_less_nat_alt)
qed

lemma load_segment_ok:
  assumes "owned I P s" "seg_ok len p" "set (seg_pages p) \<inter> P = {}" "5 * length (seg_pages p) \<le> card (free_addrs (vm_pmm s))"
    and "\<forall>k < unat len. pg (img + word_of_nat k) \<in> I"
  obtains s' where "load_segment img len p s = (True, s')" "owned I (P \<union> set (seg_pages p)) s'" "keeps I P s s'"
    "card (free_addrs (vm_pmm s)) \<le> card (free_addrs (vm_pmm s')) + 5 * length (seg_pages p)" "seg_loaded img s p s'"
proof (cases "loadable p")
  case False
  then have "seg_pages p = []" "load_segment img len p s = (True, s)"
    by (auto simp: seg_pages_def load_segment_def loadable_def Let_def)
  then show thesis using that [of s] assms(1) False by (simp add: seg_loaded_def)
next
  case True
  let ?w = "if ph_flags p AND PF_W \<noteq> 0 then PTE_W else 0" and ?Q = "P \<union> set (seg_pages p)"
  let ?fs = "unat (ph_filesz p)" and ?ms = "unat (ph_memsz p)"
  have so: "unat (ph_off p) + ?fs \<le> unat len" "?fs \<le> ?ms" "USER_MIN \<le> ph_vaddr p" "unat (ph_vaddr p) + ?ms \<le> 0x40000000"
    using assms(2) True by (simp_all add: seg_ok_def word_le_nat_alt)
  have nw: "unat (ph_off p + ph_filesz p) = unat (ph_off p) + ?fs" "unat (ph_vaddr p + ph_memsz p) = unat (ph_vaddr p) + ?ms"
    using so word64_bound [of len] by (simp_all add: unat_word_ariths)
  note sf = seg_pages_facts [OF assms(2)]
  have va: "\<forall>v \<in> set (seg_pages p). aligned v \<and> v < 0x8000000000" using sf(2) by blast
  obtain s1 where s1: "map_pages ?w (seg_pages p) s = (True, s1)" "owned I ?Q s1" "keeps I P s s1"
    "card (free_addrs (vm_pmm s)) \<le> card (free_addrs (vm_pmm s1)) + 5 * length (seg_pages p)"
    "\<forall>v \<in> set (seg_pages p). \<exists>f. leaf s1 v = Some (f, ((PTE_P OR PTE_U OR ?w) AND 0xFFF) OR PTE_P)"
    using map_pages_ok [OF assms(1) sf(1) assms(3) va assms(4), of ?w] by blast
  have pa: "pg (ph_vaddr p + word_of_nat k) \<in> ?Q" if "k < ?ms" for k using seg_addr(1) [OF assms(2) True that] by simp
  have io: "img + ph_off p + word_of_nat k = img + word_of_nat (unat (ph_off p) + k)" for k by simp
  have pi: "\<forall>k < ?fs. pg (img + ph_off p + word_of_nat k) \<in> I" unfolding io using assms(5) so(1) by (simp del: of_nat_add)
  let ?bs = "map (\<lambda>k. ld8 s1 (img + ph_off p + word_of_nat k)) [0..<?fs]"
  define s2 where "s2 = put_user (ph_vaddr p) ?bs s1"
  have cl: "copy_loop (img + ph_off p) (ph_vaddr p) ?fs s1 = (True, s2)"
    unfolding s2_def by (rule copy_loop_put [OF s1(2) _ pi]) (use pa so(2) in auto)
  have l1: "length ?bs < 18446744073709551616" "\<forall>k < length ?bs. pg (ph_vaddr p + word_of_nat k) \<in> ?Q"
    using word64_bound [of "ph_filesz p"] pa so(2) by auto
  note p2 = put_user_ok [OF s1(2) l1, folded s2_def]
  let ?d = "ph_vaddr p + ph_filesz p" and ?n = "?ms - ?fs"
  have dd: "?d + word_of_nat k = ph_vaddr p + word_of_nat (?fs + k)" for k by simp
  define s3 where "s3 = put_user ?d (replicate ?n 0) s2"
  have pd: "\<forall>k < ?n. pg (?d + word_of_nat k) \<in> ?Q" unfolding dd using pa so(2) by (simp del: of_nat_add Un_iff)
  have zl: "zero_loop ?d ?n s2 = (True, s3)" unfolding s3_def by (rule zero_loop_put [of I ?Q]) (use p2 pd in auto)
  have l2: "length (replicate ?n (0 :: byte)) < 18446744073709551616" "\<forall>k < length (replicate ?n (0 :: byte)). pg (?d + word_of_nat k) \<in> ?Q"
    using word64_bound [of "ph_memsz p"] pd by auto
  have o2: "owned I ?Q s2" using p2 by blast
  note p3 = put_user_ok [OF o2 l2, folded s3_def]
  have inj: "ph_vaddr p + word_of_nat j \<noteq> ph_vaddr p + word_of_nat k" if "j < ?ms" "k < ?ms" "j \<noteq> k" for j k
    using add_of_nat_inj [of j ?ms k "ph_vaddr p"] that word64_bound [of "ph_memsz p"] by auto
  have bytes: "ub s3 (ph_vaddr p + word_of_nat k) = (if k < ?fs then ld8 s (img + ph_off p + word_of_nat k) else 0)" if k: "k < ?ms" for k
  proof (cases "k < ?fs")
    case True
    have "\<forall>j < ?n. ph_vaddr p + word_of_nat k \<noteq> ?d + word_of_nat j" unfolding dd by (intro allI impI, rule inj) (use k True in auto)
    then have "ub s3 (ph_vaddr p + word_of_nat k) = ub s2 (ph_vaddr p + word_of_nat k)" using p3 pa [OF k] by simp
    also have "\<dots> = ld8 s1 (img + ph_off p + word_of_nat k)" using p2 True by simp
    also have "\<dots> = ld8 s (img + ph_off p + word_of_nat k)" using s1(3) pi True by (simp add: keeps_def)
    finally show ?thesis using True by simp
  next
    case False
    then have "ph_vaddr p + word_of_nat k = ?d + word_of_nat (k - ?fs)" unfolding dd by simp
    moreover have "k - ?fs < ?n" using k False by linarith
    then have "ub s3 (?d + word_of_nat (k - ?fs)) = 0" using p3 by (metis length_replicate nth_replicate)
    ultimately show ?thesis using False by metis
  qed
  have fl: "((PTE_P OR PTE_U OR ?w) AND 0xFFF) OR PTE_P = PTE_P OR PTE_U OR ?w" by simp
  have lf: "\<exists>f. leaf s3 (ph_vaddr p + word_of_nat k) = Some (f, PTE_P OR PTE_U OR ?w)" if "k < ?ms" for k
    using s1(5) seg_addr(1) [OF assms(2) True that] small_page(2) [OF same_page_pg] p2 p3 unfolding fl by metis
  have ne: "w \<noteq> ph_vaddr p + word_of_nat k" if "pg w \<in> P" "k < ?ms" for w k
    using seg_addr(1) [OF assms(2) True that(2)] assms(3) that(1) by auto
  have "keeps I P s s3"
    unfolding keeps_def
  proof (intro conjI allI impI)
    fix w assume w: "pg w \<in> P"
    have "\<forall>k < ?fs. w \<noteq> ph_vaddr p + word_of_nat k" by (intro allI impI ne [OF w]) (use so(2) in simp)
    moreover have "\<forall>k < ?n. w \<noteq> ?d + word_of_nat k" unfolding dd by (intro allI impI ne [OF w]) simp
    ultimately have "ub s3 w = ub s1 w" using p2 p3 w by simp
    then show "ub s3 w = ub s w" using s1(3) w by (simp add: keeps_def)
    show "leaf s3 w = leaf s w" using s1(3) w p2 p3 by (simp add: keeps_def)
  next
    fix a assume "pg a \<in> I"
    then show "ld8 s3 a = ld8 s a" using s1(3) p2 p3 by (simp add: keeps_def)
  qed
  moreover have "load_segment img len p s = (True, s3)"
  proof -
    have "\<not> ph_off p + ph_filesz p > len" "\<not> ph_memsz p < ph_filesz p" "\<not> ph_vaddr p < USER_MIN" "\<not> ph_vaddr p + ph_memsz p > USER_MAX"
      using so nw by (simp_all add: word_less_nat_alt word_le_nat_alt)
    then show ?thesis using True s1(1) cl zl unfolding load_segment_def Let_def loadable_def seg_pages_def by simp
  qed
  moreover have "seg_loaded img s p s3" using bytes lf by (simp add: seg_loaded_def)
  ultimately show thesis using that [of s3] p2 p3 s1(4) by simp
qed

section \<open>Loading an image\<close>

definition phdr_addr :: "64 word \<Rightarrow> elf64_ehdr \<Rightarrow> nat \<Rightarrow> 64 word" where
  "phdr_addr img e i = img + eh_phoff e + word_of_nat i * ucast (eh_phentsize e)"

definition phdrs :: "64 word \<Rightarrow> vm \<Rightarrow> elf64_phdr list" where
  "phdrs img s = map (\<lambda>i. phdr_at s (phdr_addr img (ehdr_at s img) i)) [0..<unat (eh_phnum (ehdr_at s img))]"

definition elf_pages :: "elf64_phdr list \<Rightarrow> 64 word list" where
  "elf_pages ps = concat (map seg_pages ps)"

text \<open>
  An image the loader is made for: an ELF header for this machine, a program header table inside
  the file, segments inside the file and the user area that share no page, and an entry point in the user area.
\<close>

definition elf_ok :: "64 word \<Rightarrow> 64 word \<Rightarrow> vm \<Rightarrow> bool" where
  "elf_ok img len s \<longleftrightarrow>
     (let e = ehdr_at s img in
      64 \<le> len \<and> take 6 (eh_ident e) = [0x7F, ch (CHR ''E''), ch (CHR ''L''), ch (CHR ''F''), 2, 1] \<and> eh_machine e = 0x3E
      \<and> 56 \<le> eh_phentsize e \<and> unat (eh_phoff e) + unat (eh_phnum e) * unat (eh_phentsize e) \<le> unat len
      \<and> (\<forall>p \<in> set (phdrs img s). seg_ok len p) \<and> distinct (elf_pages (phdrs img s))
      \<and> USER_MIN \<le> eh_entry e \<and> eh_entry e < USER_MAX)"

lemma phdr_cong:
  assumes "\<And>k. k < 56 \<Longrightarrow> ld8 s' (a + word_of_nat k) = ld8 s (a + word_of_nat k)"
  shows "phdr_at s' a = phdr_at s a"
proof -
  have l: "map (\<lambda>k. ld8 s' (a + c + word_of_nat k)) [0..<n] = map (\<lambda>k. ld8 s (a + c + word_of_nat k)) [0..<n]"
    if "c = word_of_nat m" "m + n \<le> 56" for c m n
  proof (rule map_cong)
    fix k assume "k \<in> set [0..<n]"
    then show "ld8 s' (a + c + word_of_nat k) = ld8 s (a + c + word_of_nat k)"
      using assms [of "m + k"] that by (simp add: add.assoc)
  qed simp
  have e: "ld_le s' (a + c) n = (ld_le s (a + c) n :: 32 word)" "ld_le s' (a + c) n = (ld_le s (a + c) n :: 64 word)"
    if "c = word_of_nat m" "m + n \<le> 56" for c m n
    unfolding ld_le_def l [OF that] by (rule refl)+
  have "ld_le s' a 4 = (ld_le s a 4 :: 32 word)" using e(1) [of 0 0 4] by simp
  moreover have "ld_le s' (a + 4) 4 = (ld_le s (a + 4) 4 :: 32 word)" by (rule e [of _ 4]) simp_all
  moreover have "ld_le s' (a + 8) 8 = (ld_le s (a + 8) 8 :: 64 word)" by (rule e [of _ 8]) simp_all
  moreover have "ld_le s' (a + 16) 8 = (ld_le s (a + 16) 8 :: 64 word)" by (rule e [of _ 16]) simp_all
  moreover have "ld_le s' (a + 32) 8 = (ld_le s (a + 32) 8 :: 64 word)" by (rule e [of _ 32]) simp_all
  moreover have "ld_le s' (a + 40) 8 = (ld_le s (a + 40) 8 :: 64 word)" by (rule e [of _ 40]) simp_all
  ultimately show ?thesis unfolding phdr_at_def by simp
qed

lemma unat_ucast16: "unat (ucast (x :: 16 word) :: 64 word) = unat x"
  using unat_lt_power [of x] by (simp add: unsigned_ucast_eq take_bit_nat_eq_self)

lemma load_segments_ok:
  assumes "\<forall>k < unat len. pg (img + word_of_nat k) \<in> I"
    and "\<forall>i \<in> set is. \<forall>k < 56. pg (phdr_addr img e i + word_of_nat k) \<in> I"
    and "owned I P s" "\<forall>i \<in> set is. seg_ok len (phdr_at s (phdr_addr img e i))"
    and "distinct (elf_pages (map (\<lambda>i. phdr_at s (phdr_addr img e i)) is))"
    and "set (elf_pages (map (\<lambda>i. phdr_at s (phdr_addr img e i)) is)) \<inter> P = {}"
    and "5 * length (elf_pages (map (\<lambda>i. phdr_at s (phdr_addr img e i)) is)) \<le> card (free_addrs (vm_pmm s))"
  shows "\<exists>s'. load_segments img len e is s = (True, s') \<and> owned I (P \<union> set (elf_pages (map (\<lambda>i. phdr_at s (phdr_addr img e i)) is))) s' \<and> keeps I P s s'
    \<and> card (free_addrs (vm_pmm s)) \<le> card (free_addrs (vm_pmm s')) + 5 * length (elf_pages (map (\<lambda>i. phdr_at s (phdr_addr img e i)) is))
    \<and> (\<forall>i \<in> set is. seg_loaded img s (phdr_at s (phdr_addr img e i)) s')"
  using assms(2-)
proof (induction "is" arbitrary: s P)
  case Nil
  then show ?case by (simp add: elf_pages_def)
next
  case (Cons i "is")
  let ?p = "\<lambda>s i. phdr_at s (phdr_addr img e i)"
  have ep: "elf_pages (map (?p s) (i # is)) = seg_pages (?p s i) @ elf_pages (map (?p s) is)" by (simp add: elf_pages_def)
  have dj: "set (seg_pages (?p s i)) \<inter> P = {}" "5 * length (seg_pages (?p s i)) \<le> card (free_addrs (vm_pmm s))"
    using Cons.prems(5,6) unfolding ep by auto
  have so: "seg_ok len (?p s i)" using Cons.prems(3) by simp
  show ?case
  proof (rule load_segment_ok [OF Cons.prems(2) so dj assms(1)])
    fix s1
    assume s1: "load_segment img len (?p s i) s = (True, s1)" "owned I (P \<union> set (seg_pages (?p s i))) s1" "keeps I P s s1"
      "card (free_addrs (vm_pmm s)) \<le> card (free_addrs (vm_pmm s1)) + 5 * length (seg_pages (?p s i))" "seg_loaded img s (?p s i) s1"
    have pc: "?p s1 j = ?p s j" if "j \<in> set is" for j
      by (rule phdr_cong) (use s1(3) Cons.prems(1) that in \<open>auto simp: keeps_def\<close>)
    then have pm: "map (?p s1) is = map (?p s) is" by simp
    have "\<exists>s'. load_segments img len e is s1 = (True, s')
        \<and> owned I (P \<union> set (seg_pages (?p s i)) \<union> set (elf_pages (map (?p s1) is))) s' \<and> keeps I (P \<union> set (seg_pages (?p s i))) s1 s'
        \<and> card (free_addrs (vm_pmm s1)) \<le> card (free_addrs (vm_pmm s')) + 5 * length (elf_pages (map (?p s1) is))
        \<and> (\<forall>j \<in> set is. seg_loaded img s1 (?p s1 j) s')"
    proof (rule Cons.IH [OF _ s1(2)])
      show "\<forall>i \<in> set is. \<forall>k < 56. pg (phdr_addr img e i + word_of_nat k) \<in> I" using Cons.prems(1) by simp
      show "\<forall>j \<in> set is. seg_ok len (?p s1 j)" using Cons.prems(3) pc by simp
      show "distinct (elf_pages (map (?p s1) is))" "set (elf_pages (map (?p s1) is)) \<inter> (P \<union> set (seg_pages (?p s i))) = {}"
        using Cons.prems(4,5) unfolding ep pm by auto
      show "5 * length (elf_pages (map (?p s1) is)) \<le> card (free_addrs (vm_pmm s1))"
        using Cons.prems(6) s1(4) unfolding ep pm by simp
    qed
    then obtain s' where s': "load_segments img len e is s1 = (True, s')" "keeps I (P \<union> set (seg_pages (?p s i))) s1 s'"
      "\<forall>j \<in> set is. seg_loaded img s1 (?p s1 j) s'" "owned I (P \<union> set (seg_pages (?p s i)) \<union> set (elf_pages (map (?p s1) is))) s'"
      "card (free_addrs (vm_pmm s1)) \<le> card (free_addrs (vm_pmm s')) + 5 * length (elf_pages (map (?p s1) is))" by blast
    have own: "owned I (P \<union> set (elf_pages (map (?p s) (i # is)))) s'" using s'(4) unfolding ep pm by (simp add: Un_assoc)
    have cnt: "card (free_addrs (vm_pmm s)) \<le> card (free_addrs (vm_pmm s')) + 5 * length (elf_pages (map (?p s) (i # is)))"
      using s1(4) s'(5) unfolding ep pm by simp
    have "keeps I P s s'" using keeps_trans [OF s1(3) keeps_mono [OF s'(2)]] by blast
    moreover have "seg_loaded img s (?p s i) s'"
      using s1(5) s'(2) seg_addr(1) [OF so] unfolding seg_loaded_def keeps_def by auto
    moreover have "seg_loaded img s (?p s j) s'" if "j \<in> set is" for j
    proof -
      have l: "seg_loaded img s1 (?p s j) s'" "seg_ok len (?p s j)" using s'(3) that pc Cons.prems(3) by auto
      show ?thesis by (rule seg_loaded_image [OF l]) (use s1(3) assms(1) in \<open>auto simp: keeps_def\<close>)
    qed
    moreover have "load_segments img len e (i # is) s = (True, s')" using s1(1) s'(1) by (simp add: phdr_addr_def)
    ultimately show ?thesis using own cnt by auto
  qed
qed

lemma elf_load_segments:
  assumes "elf_ok img len s"
  shows "elf_load img len s =
    (let e = ehdr_at s img; (ok, s1) = load_segments img len e [0..<unat (eh_phnum e)] s in
     if ok then (Some (eh_entry e), s1) else (None, s1))"
proof -
  let ?e = "ehdr_at s img"
  have o: "64 \<le> len" "take 6 (eh_ident ?e) = [0x7F, ch (CHR ''E''), ch (CHR ''L''), ch (CHR ''F''), 2, 1]" "eh_machine ?e = 0x3E"
    "56 \<le> eh_phentsize ?e" "unat (eh_phoff ?e) + unat (eh_phnum ?e) * unat (eh_phentsize ?e) \<le> unat len"
    "USER_MIN \<le> eh_entry ?e" "eh_entry ?e < USER_MAX"
    using assms by (simp_all add: elf_ok_def Let_def)
  have id: "eh_ident ?e ! k = [0x7F, ch (CHR ''E''), ch (CHR ''L''), ch (CHR ''F''), 2, 1] ! k" if "k < 6" for k
    using arg_cong [OF o(2), of "\<lambda>xs. xs ! k"] that by simp
  have "unat (eh_phoff ?e + ucast (eh_phnum ?e) * ucast (eh_phentsize ?e)) \<le> unat len"
    using o(5) word64_bound [of len] by (simp add: unat_word_ariths unat_ucast16)
  then have "\<not> eh_phoff ?e + ucast (eh_phnum ?e) * ucast (eh_phentsize ?e) > len" by (simp add: word_less_nat_alt)
  moreover have "\<not> len < 64" "\<not> eh_phentsize ?e < 56" "\<not> eh_entry ?e < USER_MIN" "\<not> eh_entry ?e \<ge> USER_MAX"
    using o(1,4,6,7) by (simp_all add: not_less)
  ultimately show ?thesis
    using id [of 0] id [of 1] id [of 2] id [of 3] id [of 4] id [of 5] o(3)
    unfolding elf_load_def Let_def by (auto simp del: not_less not_le split: prod.splits)
qed

text \<open>Loading with what it keeps: the frames of \<open>I\<close> hold the image, and the program owns the pages of its segments.\<close>

lemma elf_load_owned:
  assumes "owned I {} s" "elf_ok img len s" "5 * length (elf_pages (phdrs img s)) \<le> card (free_addrs (vm_pmm s))"
    and I: "\<forall>k < unat len. pg (img + word_of_nat k) \<in> I"
  obtains s' where "elf_load img len s = (Some (eh_entry (ehdr_at s img)), s')" "owned I (set (elf_pages (phdrs img s))) s'"
    "keeps I {} s s'" "card (free_addrs (vm_pmm s)) \<le> card (free_addrs (vm_pmm s')) + 5 * length (elf_pages (phdrs img s))"
    "\<forall>p \<in> set (phdrs img s). seg_loaded img s p s'"
proof -
  let ?e = "ehdr_at s img" and ?is = "[0..<unat (eh_phnum (ehdr_at s img))]"
  have o: "56 \<le> unat (eh_phentsize ?e)" "unat (eh_phoff ?e) + unat (eh_phnum ?e) * unat (eh_phentsize ?e) \<le> unat len"
    "\<forall>p \<in> set (phdrs img s). seg_ok len p" "distinct (elf_pages (phdrs img s))"
    using assms(2) by (simp_all add: elf_ok_def Let_def word_le_nat_alt)
  have hd: "\<forall>i \<in> set ?is. \<forall>k < 56. pg (phdr_addr img ?e i + word_of_nat k) \<in> I"
  proof (intro ballI allI impI)
    fix i k :: nat assume i: "i \<in> set ?is" and k: "k < 56"
    have "Suc i * unat (eh_phentsize ?e) \<le> unat (eh_phnum ?e) * unat (eh_phentsize ?e)" using i by (intro mult_le_mono1) simp
    then have lt: "unat (eh_phoff ?e) + i * unat (eh_phentsize ?e) + k < unat len" using o(1,2) k by simp
    have "phdr_addr img ?e i + word_of_nat k = img + word_of_nat (unat (eh_phoff ?e) + i * unat (eh_phentsize ?e) + k)"
      by (simp add: phdr_addr_def)
    then show "pg (phdr_addr img ?e i + word_of_nat k) \<in> I" using I lt by metis
  qed
  have mp: "map (\<lambda>i. phdr_at s (phdr_addr img ?e i)) ?is = phdrs img s" by (simp add: phdrs_def)
  have dj: "set (elf_pages (map (\<lambda>i. phdr_at s (phdr_addr img ?e i)) ?is)) \<inter> {} = {}" by simp
  have so: "\<forall>i \<in> set ?is. seg_ok len (phdr_at s (phdr_addr img ?e i))" using o(3) by (simp add: phdrs_def)
  obtain s' where s': "load_segments img len ?e ?is s = (True, s')" "owned I (set (elf_pages (phdrs img s))) s'" "keeps I {} s s'"
    "card (free_addrs (vm_pmm s)) \<le> card (free_addrs (vm_pmm s')) + 5 * length (elf_pages (phdrs img s))"
    "\<forall>i \<in> set ?is. seg_loaded img s (phdr_at s (phdr_addr img ?e i)) s'"
    using load_segments_ok [OF I hd assms(1) so _ dj] o(4) assms(3) unfolding mp by auto
  from s'(5) have "\<forall>p \<in> set (phdrs img s). seg_loaded img s p s'" unfolding mp [symmetric] by simp
  then show thesis using that [OF _ s'(2-4)] s'(1) elf_load_segments [OF assms(2)] by (simp add: Let_def)
qed

text \<open>The headers and their requirements depend on the bytes of the image only.\<close>

lemma elf_ok_cong:
  assumes "elf_ok img len s" "\<forall>k < unat len. ld8 s' (img + word_of_nat k) = ld8 s (img + word_of_nat k)"
  shows "elf_ok img len s'" "ehdr_at s' img = ehdr_at s img" "phdrs img s' = phdrs img s"
proof -
  let ?e = "ehdr_at s img"
  have o: "64 \<le> unat len" "56 \<le> unat (eh_phentsize ?e)" "unat (eh_phoff ?e) + unat (eh_phnum ?e) * unat (eh_phentsize ?e) \<le> unat len"
    using assms(1) by (simp_all add: elf_ok_def Let_def word_le_nat_alt)
  have l: "map (\<lambda>k. ld8 s' (img + c + word_of_nat k)) [0..<n] = map (\<lambda>k. ld8 s (img + c + word_of_nat k)) [0..<n]"
    if "unat c + n \<le> 64" for c n
  proof -
    have "ld8 s' (img + c + word_of_nat k) = ld8 s (img + c + word_of_nat k)" if "k < n" for k
    proof -
      have "img + c + word_of_nat k = img + word_of_nat (unat c + k)" by simp
      moreover have "unat c + k < unat len" using that \<open>unat c + n \<le> 64\<close> o(1) by linarith
      ultimately show ?thesis using assms(2) by metis
    qed
    then show ?thesis by simp
  qed
  have ld: "ld_le s' (img + c) n = ld_le s (img + c) n" if "unat c + n \<le> 64" for c n unfolding ld_le_def l [OF that] ..
  show e: "ehdr_at s' img = ehdr_at s img" using l [of 0 16] by (simp add: ehdr_at_def ld)
  have "phdr_at s' (phdr_addr img ?e i) = phdr_at s (phdr_addr img ?e i)" if i: "i < unat (eh_phnum ?e)" for i
  proof (rule phdr_cong)
    fix k :: nat assume k: "k < 56"
    have "Suc i * unat (eh_phentsize ?e) \<le> unat (eh_phnum ?e) * unat (eh_phentsize ?e)" using i by (intro mult_le_mono1) simp
    then have "unat (eh_phoff ?e) + i * unat (eh_phentsize ?e) + k < unat len" using o(2,3) k by simp
    moreover have "phdr_addr img ?e i + word_of_nat k = img + word_of_nat (unat (eh_phoff ?e) + i * unat (eh_phentsize ?e) + k)"
      by (simp add: phdr_addr_def)
    ultimately show "ld8 s' (phdr_addr img ?e i + word_of_nat k) = ld8 s (phdr_addr img ?e i + word_of_nat k)" using assms(2) by metis
  qed
  then show p: "phdrs img s' = phdrs img s" unfolding phdrs_def e by simp
  show "elf_ok img len s'" using assms(1) unfolding elf_ok_def e p .
qed

lemma seg_loaded_keep:
  assumes "seg_loaded img s0 p s" "seg_ok len p" "\<And>w. pg w \<in> set (seg_pages p) \<Longrightarrow> leaf s' w = leaf s w \<and> ub s' w = ub s w"
  shows "seg_loaded img s0 p s'"
  using assms(1) assms(3) [OF seg_addr(1) [OF assms(2)]] unfolding seg_loaded_def by simp

section \<open>An example image\<close>

text \<open>A program of two bytes at 4 MB with two more bytes of cleared memory, stored at 2 MB over the boot tables' memory.\<close>

definition demo_elf :: "byte list" where
  "demo_elf =
     [0x7F, 0x45, 0x4C, 0x46, 2, 1, 0, 0, 0, 0, 0, 0, 0, 0, 0, 0,
      2, 0, 0x3E, 0, 1, 0, 0, 0, 0, 0, 0x40, 0, 0, 0, 0, 0,
      64, 0, 0, 0, 0, 0, 0, 0, 0, 0, 0, 0, 0, 0, 0, 0,
      0, 0, 0, 0, 64, 0, 56, 0, 1, 0, 0, 0, 0, 0, 0, 0,
      1, 0, 0, 0, 5, 0, 0, 0, 120, 0, 0, 0, 0, 0, 0, 0,
      0, 0, 0x40, 0, 0, 0, 0, 0, 0, 0, 0, 0, 0, 0, 0, 0,
      2, 0, 0, 0, 0, 0, 0, 0, 4, 0, 0, 0, 0, 0, 0, 0,
      0, 0, 0, 0, 0, 0, 0, 0, 0xEB, 0xFE]"

definition demo_vm :: vm where
  "demo_vm = fold (\<lambda>k. st8 (0x200000 + word_of_nat k) (demo_elf ! k)) [0..<122] boot_vm"

lemma poke_bytes:
  fixes a :: "64 word"
  assumes "aligned a" "a \<notin> tabs s" "pt_inv s"
  shows "n \<le> 4096 \<Longrightarrow>
    (\<forall>k < n. ld8 (fold (\<lambda>k. st8 (a + word_of_nat k) (xs ! k)) [0..<n] s) (a + word_of_nat k) = xs ! k)
    \<and> (\<forall>u j. u \<in> tabs s \<and> unat j < 512 \<longrightarrow> ent (fold (\<lambda>k. st8 (a + word_of_nat k) (xs ! k)) [0..<n] s) u j = ent s u j)
    \<and> vm_pml4 (fold (\<lambda>k. st8 (a + word_of_nat k) (xs ! k)) [0..<n] s) = vm_pml4 s
    \<and> vm_pmm (fold (\<lambda>k. st8 (a + word_of_nat k) (xs ! k)) [0..<n] s) = vm_pmm s"
proof (induction n)
  case (Suc n)
  let ?s = "fold (\<lambda>k. st8 (a + word_of_nat k) (xs ! k)) [0..<n] s"
  have n: "n < 4096" using Suc.prems by simp
  have w: "word_of_nat n = (word_of_nat n :: 64 word) AND 0xFFF"
    using n by (simp add: mask_consts take_bit_eq_mod word_unat_eq_iff unat_mod unat_of_nat flip: take_bit_eq_mask)
  then have fr: "(a + word_of_nat n) div 4096 = a div 4096" using page_split(3) [OF assms(1), of "word_of_nat n"] by simp
  have ne: "a + word_of_nat k \<noteq> a + word_of_nat n" if "k < n" for k
    using add_of_nat_inj [of k "Suc n" n a] that n by auto
  have "ent (st8 (a + word_of_nat n) b t) u j = ent t u j" if "u \<in> tabs s" "unat j < 512" for u j b t
    using st8_ent [OF tabs_aligned [OF assms(3) that(1)] that(2), of "a + word_of_nat n"] fr
      frame_eq [OF tabs_aligned [OF assms(3) that(1)] assms(1)] assms(2) that(1) by auto
  then show ?case using Suc ne n by (auto simp: ld8_st8 less_Suc_eq)
qed simp

lemma demo_base: "aligned 0x200000" "0x200000 \<notin> tabs boot_vm" "(0x200000 :: 64 word) \<notin> free_addrs pmm_example"
proof -
  show "aligned 0x200000" by (simp add: aligned_def)
  show "0x200000 \<notin> tabs boot_vm" using boot_paths unfolding tabs_def by fastforce
  show "(0x200000 :: 64 word) \<notin> free_addrs pmm_example"
  proof
    assume "(0x200000 :: 64 word) \<in> free_addrs pmm_example"
    then obtain n where "n < 512" "(0x200000 :: 64 word) = word_of_nat n * FRAME_SIZE" by (auto simp: boot_free(1))
    then show False using frame_addr [of n] by simp
  qed
qed

lemma demo_facts:
  "pt_inv demo_vm" "tabs demo_vm = tabs boot_vm" "vm_pmm demo_vm = pmm_example" "k < 122 \<Longrightarrow> ld8 demo_vm (0x200000 + word_of_nat k) = demo_elf ! k"
proof -
  note d = poke_bytes [OF demo_base(1,2) boot_inv, of 122 demo_elf, folded demo_vm_def]
  show pm: "vm_pmm demo_vm = pmm_example" using d by (simp add: boot_vm_def)
  have "pmm_inv (vm_pmm demo_vm)" "free_addrs (vm_pmm demo_vm) \<inter> tabs boot_vm = {}"
    using pt_invD(1) [OF boot_inv] tabs_not_free [OF boot_inv] unfolding pm by (auto simp: boot_vm_def)
  then show "pt_inv demo_vm" "tabs demo_vm = tabs boot_vm"
    using tree_cong_inv [OF boot_inv, of demo_vm] d by auto
  show "k < 122 \<Longrightarrow> ld8 demo_vm (0x200000 + word_of_nat k) = demo_elf ! k" using d by simp
qed

lemma demo_ld:
  assumes "a = 0x200000 + word_of_nat m" "m + n \<le> 122"
  shows "map (\<lambda>k. ld8 demo_vm (a + word_of_nat k)) [0..<n] = take n (drop m demo_elf)"
proof (rule nth_equalityI)
  have l: "length demo_elf = 122" by (simp add: demo_elf_def)
  then show "length (map (\<lambda>k. ld8 demo_vm (a + word_of_nat k)) [0..<n]) = length (take n (drop m demo_elf))" using assms(2) by simp
  fix i assume "i < length (map (\<lambda>k. ld8 demo_vm (a + word_of_nat k)) [0..<n])"
  then have i: "i < n" by simp
  then have "ld8 demo_vm (a + word_of_nat i) = demo_elf ! (m + i)"
    using demo_facts(4) [of "m + i"] assms by (simp add: add.assoc)
  then show "map (\<lambda>k. ld8 demo_vm (a + word_of_nat k)) [0..<n] ! i = take n (drop m demo_elf) ! i"
    using i assms(2) l by simp
qed

lemma demo_headers:
  "ehdr_at demo_vm 0x200000 = \<lparr>eh_ident = take 16 demo_elf, eh_machine = 0x3E, eh_entry = 0x400000, eh_phoff = 64, eh_phentsize = 56, eh_phnum = 1\<rparr>"
  "phdr_at demo_vm 0x200040 = \<lparr>ph_type = 1, ph_flags = 5, ph_off = 120, ph_vaddr = 0x400000, ph_filesz = 2, ph_memsz = 4\<rparr>"
proof -
  have "map (\<lambda>k. ld8 demo_vm (0x200000 + word_of_nat k)) [0..<16] = take 16 demo_elf" using demo_ld [of "0x200000" 0 16] by simp
  moreover have "ld_le demo_vm (0x200000 + 18) 2 = (0x3E :: 16 word)"
    unfolding ld_le_def by (subst demo_ld [of _ 18]) (simp, simp, code_simp)
  moreover have "ld_le demo_vm (0x200000 + 24) 8 = (0x400000 :: 64 word)"
    unfolding ld_le_def by (subst demo_ld [of _ 24]) (simp, simp, code_simp)
  moreover have "ld_le demo_vm (0x200000 + 32) 8 = (64 :: 64 word)"
    unfolding ld_le_def by (subst demo_ld [of _ 32]) (simp, simp, code_simp)
  moreover have "ld_le demo_vm (0x200000 + 54) 2 = (56 :: 16 word)"
    unfolding ld_le_def by (subst demo_ld [of _ 54]) (simp, simp, code_simp)
  moreover have "ld_le demo_vm (0x200000 + 56) 2 = (1 :: 16 word)"
    unfolding ld_le_def by (subst demo_ld [of _ 56]) (simp, simp, code_simp)
  ultimately show "ehdr_at demo_vm 0x200000 =
      \<lparr>eh_ident = take 16 demo_elf, eh_machine = 0x3E, eh_entry = 0x400000, eh_phoff = 64, eh_phentsize = 56, eh_phnum = 1\<rparr>"
    unfolding ehdr_at_def by (simp only:)
  have "ld_le demo_vm 0x200040 4 = (1 :: 32 word)"
    unfolding ld_le_def by (subst demo_ld [of _ 64]) (simp, simp, code_simp)
  moreover have "ld_le demo_vm (0x200040 + 4) 4 = (5 :: 32 word)"
    unfolding ld_le_def by (subst demo_ld [of _ 68]) (simp, simp, code_simp)
  moreover have "ld_le demo_vm (0x200040 + 8) 8 = (120 :: 64 word)"
    unfolding ld_le_def by (subst demo_ld [of _ 72]) (simp, simp, code_simp)
  moreover have "ld_le demo_vm (0x200040 + 16) 8 = (0x400000 :: 64 word)"
    unfolding ld_le_def by (subst demo_ld [of _ 80]) (simp, simp, code_simp)
  moreover have "ld_le demo_vm (0x200040 + 32) 8 = (2 :: 64 word)"
    unfolding ld_le_def by (subst demo_ld [of _ 96]) (simp, simp, code_simp)
  moreover have "ld_le demo_vm (0x200040 + 40) 8 = (4 :: 64 word)"
    unfolding ld_le_def by (subst demo_ld [of _ 104]) (simp, simp, code_simp)
  ultimately show "phdr_at demo_vm 0x200040 = \<lparr>ph_type = 1, ph_flags = 5, ph_off = 120, ph_vaddr = 0x400000, ph_filesz = 2, ph_memsz = 4\<rparr>"
    unfolding phdr_at_def by (simp only:)
qed

lemma demo_phdrs: "phdrs 0x200000 demo_vm = [\<lparr>ph_type = 1, ph_flags = 5, ph_off = 120, ph_vaddr = 0x400000, ph_filesz = 2, ph_memsz = 4\<rparr>]"
  using demo_headers by (simp add: phdrs_def phdr_addr_def)

lemma demo_pages: "elf_pages (phdrs 0x200000 demo_vm) = [0x400000]"
  by (simp add: demo_phdrs elf_pages_def seg_pages_def loadable_def page_range_def)

lemma demo_ok: "elf_ok 0x200000 122 demo_vm"
proof -
  have "take 6 (take 16 demo_elf) = [0x7F, ch (CHR ''E''), ch (CHR ''L''), ch (CHR ''F''), 2, 1]" by code_simp
  then show ?thesis
    by (simp add: elf_ok_def demo_headers(1) demo_pages Let_def) (simp add: demo_phdrs seg_ok_def)
qed



end
