(* ===== verification/Exec.thy ===== *)
theory Exec
  imports Elf "HOL-Library.Monad_Syntax"
begin

text \<open>
  The program loader of \<^verbatim>\<open>kernel/exec.c\<close>: the registry of boot modules, and \<open>enter_program\<close>, which clears the user
  area, loads a module's ELF image, builds the first stack with \<open>argc\<close> and \<open>argv\<close> and leaves for user mode. The entry of
  user mode itself is assembly; the model ends with the instruction and stack pointer it is given. Kernel variables (the
  registry, string buffers on the kernel stack) are values outside the modelled memory; a C string is the list of its bytes
  before the NUL.
\<close>

section \<open>Access through the page tables\<close>

text \<open>
  What the processor does with an address the kernel dereferences: the kernel runs in ring 0 with write protection off, so only a
  missing translation faults.
\<close>

definition mmu :: "vm \<Rightarrow> 64 word \<Rightarrow> 64 word option" where
  "mmu s v = (case leaf s v of None \<Rightarrow> None | Some (b, f) \<Rightarrow> Some (b + (v AND 0xFFF)))"

fun store_user :: "64 word \<Rightarrow> byte list \<Rightarrow> vm \<Rightarrow> vm option" where
  "store_user a [] s = Some s"
| "store_user a (b # bs) s = (case mmu s a of None \<Rightarrow> None | Some p \<Rightarrow> store_user (a + 1) bs (st8 p b s))"

definition qword :: "64 word \<Rightarrow> byte list" where
  "qword w = map (\<lambda>k. ucast (drop_bit (8 * k) w)) [0..<8]"

section \<open>The module registry\<close>

abbreviation MAX_MODS :: nat where "MAX_MODS \<equiv> 8"
abbreviation MOD_NAME_LEN :: nat where "MOD_NAME_LEN \<equiv> 32"
abbreviation USTACK_BASE :: "64 word" where "USTACK_BASE \<equiv> 0x40000000"
abbreviation USTACK_TOP :: "64 word" where "USTACK_TOP \<equiv> 0x40002000"

record mb_mod =
  mm_start :: "32 word"
  mm_end :: "32 word"
  mm_cmdline :: "32 word"
  mm_reserved :: "32 word"

record kmod =
  md_start :: "32 word"
  md_end :: "32 word"
  md_name :: cstr

text \<open>The static array \<open>mods\<close> up to \<open>nmods\<close>, and the memory the loader works on.\<close>

record exec =
  ex_mods :: "kmod list"
  ex_vm :: vm

definition mb_mod_at :: "vm \<Rightarrow> 64 word \<Rightarrow> mb_mod" where
  "mb_mod_at s a = \<lparr>mm_start = ld_le s a 4, mm_end = ld_le s (a + 4) 4, mm_cmdline = ld_le s (a + 8) 4, mm_reserved = ld_le s (a + 12) 4\<rparr>"

fun mod_name_same :: "cstr \<Rightarrow> cstr \<Rightarrow> bool" where
  "mod_name_same (a # as) (b # bs) = (if a = b then mod_name_same as bs else False)"
| "mod_name_same [] [] = True"
| "mod_name_same _ _ = False"

text \<open>The copy loop for a name, with the room that is left.\<close>

fun copy_name :: "vm \<Rightarrow> 64 word \<Rightarrow> nat \<Rightarrow> cstr" where
  "copy_name s cmd 0 = []"
| "copy_name s cmd (Suc n) = (if ld8 s cmd = 0 then [] else ld8 s cmd # copy_name s (cmd + 1) n)"

fun init_mods_loop :: "64 word \<Rightarrow> nat list \<Rightarrow> exec \<Rightarrow> exec" where
  "init_mods_loop m [] x = x"
| "init_mods_loop m (i # is) x =
     (if MAX_MODS \<le> length (ex_mods x) then x
      else
        let e = mb_mod_at (ex_vm x) (m + 16 * word_of_nat i); cmd = ucast (mm_cmdline e) in
        if mm_end e \<le> mm_start e \<or> 0x40000000 < mm_end e then init_mods_loop m is x
        else if cmd = 0 \<or> ld8 (ex_vm x) cmd = 0 then init_mods_loop m is x
        else init_mods_loop m is (x\<lparr>ex_mods := ex_mods x @ [\<lparr>md_start = mm_start e, md_end = mm_end e,
              md_name = copy_name (ex_vm x) cmd (MOD_NAME_LEN - 1)\<rparr>],
            ex_vm := (ex_vm x)\<lparr>vm_pmm := pmm_reserve (ucast (mm_start e)) (ucast (mm_end e)) (vm_pmm (ex_vm x))\<rparr>\<rparr>))"

definition exec_init_mods :: "32 word \<Rightarrow> 32 word \<Rightarrow> exec \<Rightarrow> exec" where
  "exec_init_mods mods_addr count x = init_mods_loop (ucast mods_addr) [0..<unat count] (x\<lparr>ex_mods := []\<rparr>)"

fun find_loop :: "kmod list \<Rightarrow> cstr \<Rightarrow> int \<Rightarrow> int" where
  "find_loop [] name i = -1"
| "find_loop (m # ms) name i = (if mod_name_same (md_name m) name then i else find_loop ms name (i + 1))"

definition exec_find :: "exec \<Rightarrow> cstr \<Rightarrow> int" where
  "exec_find x name = find_loop (ex_mods x) name 0"

text \<open>The bytes put into the buffer, from its start; the result is their number.\<close>

fun lsmod_loop :: "kmod list \<Rightarrow> nat \<Rightarrow> byte list \<Rightarrow> byte list" where
  "lsmod_loop [] cap out = out"
| "lsmod_loop (m # ms) cap out =
     (if length out + length (md_name m) + 1 > cap then out else lsmod_loop ms cap (out @ md_name m @ [ch (CHR 0x0A)]))"

definition exec_lsmod :: "exec \<Rightarrow> nat \<Rightarrow> byte list" where
  "exec_lsmod x cap = lsmod_loop (ex_mods x) cap []"

section \<open>Starting a program\<close>

text \<open>\<open>(n + 8) & ~7\<close>: room for a string and its NUL, a multiple of 8.\<close>

definition str_room :: "cstr \<Rightarrow> 64 word" where
  "str_room s = (word_of_nat (length s) + 8) AND NOT 7"

text \<open>The arguments on the fresh stack: the stack pointer for the program, or None for a page fault.\<close>

definition put_args :: "cstr \<Rightarrow> cstr option \<Rightarrow> vm \<Rightarrow> (64 word \<times> vm) option" where
  "put_args name arg s =
     (let a = (case arg of None \<Rightarrow> [] | Some a \<Rightarrow> a);
          argc = (if a = [] then 1 else 2);
          name_ptr = USTACK_TOP - str_room name;
          sp = (if a = [] then name_ptr else name_ptr - str_room a);
          arg_ptr = (if a = [] then 0 else sp);
          slots = (sp - (argc + 2) * 8) AND NOT 15 in
      do {
        s1 \<leftarrow> store_user name_ptr (name @ [0]) s;
        s2 \<leftarrow> (if a = [] then Some s1 else store_user sp (a @ [0]) s1);
        s3 \<leftarrow> store_user slots (qword argc) s2;
        s4 \<leftarrow> store_user (slots + 8) (qword name_ptr) s3;
        s5 \<leftarrow> store_user (slots + 16) (qword arg_ptr) s4;
        s6 \<leftarrow> (if argc < 2 then store_user (slots + 16) (qword 0) s5 else Some s5);
        s7 \<leftarrow> store_user (slots + 8 * (1 + argc)) (qword 0) s6;
        Some (slots, s7)
      })"

text \<open>
  What a call of \<open>enter_program\<close> comes to: the result -1, the jump to user mode, a fault while the kernel writes
  the stack, or a loop that never ends (which \<open>vmm_unmap_range\<close> has for other bounds than the ones used here).
\<close>

datatype run = Refused | Entered "64 word" "64 word" | PageFault | Hangs

definition enter_program :: "int \<Rightarrow> cstr option \<Rightarrow> exec \<Rightarrow> run \<times> exec" where
  "enter_program idx arg x =
     (if idx < 0 \<or> int (length (ex_mods x)) \<le> idx then (Refused, x)
      else
        let m = ex_mods x ! nat idx in
        case vmm_unmap_range USER_MIN USTACK_TOP (ex_vm x) of
          None \<Rightarrow> (Hangs, x)
        | Some s0 \<Rightarrow>
          (case elf_load (ucast (md_start m)) (ucast (md_end m - md_start m)) s0 of
             (None, s1) \<Rightarrow> (Refused, x\<lparr>ex_vm := s1\<rparr>)
           | (Some entry, s1) \<Rightarrow>
             let (f1, q1) = pmm_alloc_frame (vm_pmm s1); (f2, q2) = pmm_alloc_frame q1; s2 = s1\<lparr>vm_pmm := q2\<rparr> in
             if f1 = 0 \<or> f2 = 0 then (Refused, x\<lparr>ex_vm := s2\<rparr>)
             else
               let s3 = vmm_map (USTACK_BASE + 0x1000) f2 (PTE_P OR PTE_W OR PTE_U)
                          (vmm_map USTACK_BASE f1 (PTE_P OR PTE_W OR PTE_U) s2) in
               (case put_args (md_name m) arg s3 of
                  None \<Rightarrow> (PageFault, x\<lparr>ex_vm := s3\<rparr>)
                | Some (sp, s4) \<Rightarrow> (Entered entry sp, x\<lparr>ex_vm := s4\<rparr>))))"

section \<open>The registry\<close>

lemma mod_name_same_eq [simp]: "mod_name_same a b \<longleftrightarrow> a = b"
  by (induction a b rule: mod_name_same.induct) auto

lemma find_loop_spec:
  "(find_loop ms name i = -1 \<and> name \<notin> md_name ` set ms) \<or>
   (\<exists>k < length ms. find_loop ms name i = i + int k \<and> md_name (ms ! k) = name \<and> (\<forall>j < k. md_name (ms ! j) \<noteq> name))"
proof (induction ms arbitrary: i)
  case (Cons m ms)
  show ?case
  proof (cases "md_name m = name")
    case True
    then show ?thesis by (intro disjI2 exI [of _ 0]) simp
  next
    case False
    from Cons [of "i + 1"] show ?thesis
    proof
      assume "\<exists>k < length ms. find_loop ms name (i + 1) = i + 1 + int k \<and> md_name (ms ! k) = name \<and> (\<forall>j < k. md_name (ms ! j) \<noteq> name)"
      then obtain k where k: "k < length ms" "find_loop ms name (i + 1) = i + 1 + int k" "md_name (ms ! k) = name"
        "\<forall>j < k. md_name (ms ! j) \<noteq> name" by blast
      have "\<forall>j < Suc k. md_name ((m # ms) ! j) \<noteq> name" using k(4) False by (simp add: nth_Cons split: nat.split)
      then show ?thesis using k False by (intro disjI2 exI [of _ "Suc k"]) simp
    qed (use False in auto)
  qed
qed simp

lemma copy_name_facts: "length (copy_name s a n) \<le> n" "0 \<notin> set (copy_name s a n)"
  by (induction s a n rule: copy_name.induct) auto

text \<open>The modules the registry is meant to hold: the first eight usable entries of the boot loader's list.\<close>

definition usable :: "vm \<Rightarrow> mb_mod \<Rightarrow> bool" where
  "usable s e \<longleftrightarrow> mm_start e < mm_end e \<and> mm_end e \<le> 0x40000000 \<and> mm_cmdline e \<noteq> 0 \<and> ld8 s (ucast (mm_cmdline e)) \<noteq> 0"

definition to_mod :: "vm \<Rightarrow> mb_mod \<Rightarrow> kmod" where
  "to_mod s e = \<lparr>md_start = mm_start e, md_end = mm_end e, md_name = copy_name s (ucast (mm_cmdline e)) 31\<rparr>"

definition boot_mods :: "vm \<Rightarrow> 64 word \<Rightarrow> nat list \<Rightarrow> kmod list" where
  "boot_mods s a is = map (to_mod s) (filter (usable s) (map (\<lambda>i. mb_mod_at s (a + 16 * word_of_nat i)) is))"

definition mod_frames :: "kmod \<Rightarrow> 64 word set" where
  "mod_frames m = {f. \<exists>v. ucast (md_start m) \<le> v \<and> v < ucast (md_end m) \<and> f = pg v}"

lemma ld8_pmm [simp]: "ld8 (s\<lparr>vm_pmm := q\<rparr>) = ld8 s"
  by (simp add: ld8_def fun_eq_iff)

lemma mods_pmm [simp]: "mb_mod_at (s\<lparr>vm_pmm := q\<rparr>) = mb_mod_at s" "copy_name (s\<lparr>vm_pmm := q\<rparr>) a n = copy_name s a n"
  "usable (s\<lparr>vm_pmm := q\<rparr>) = usable s" "to_mod (s\<lparr>vm_pmm := q\<rparr>) = to_mod s"
proof -
  have l: "ld_le (s\<lparr>vm_pmm := q\<rparr>) = ld_le s" for q by (simp add: ld_le_def fun_eq_iff)
  show "mb_mod_at (s\<lparr>vm_pmm := q\<rparr>) = mb_mod_at s" by (simp add: mb_mod_at_def fun_eq_iff l)
  show c: "copy_name (s\<lparr>vm_pmm := q\<rparr>) a n = copy_name s a n" for a n by (induction n arbitrary: a) simp_all
  show "usable (s\<lparr>vm_pmm := q\<rparr>) = usable s" by (simp add: usable_def fun_eq_iff)
  show "to_mod (s\<lparr>vm_pmm := q\<rparr>) = to_mod s" by (simp add: to_mod_def fun_eq_iff c)
qed

lemma boot_mods_pmm [simp]: "boot_mods (s\<lparr>vm_pmm := q\<rparr>) = boot_mods s"
  by (simp add: boot_mods_def fun_eq_iff)

lemma frame_of_pg: "n < NFRAMES \<Longrightarrow> word_of_nat n * FRAME_SIZE = pg v \<longleftrightarrow> n = unat v div 4096"
  using frame_addr [of n] masked [of v] by (auto simp: word_unat_eq_iff)

lemma image_minus_cong: "(\<And>n. n \<in> A \<Longrightarrow> (g n \<in> X) = (n \<in> B)) \<Longrightarrow> g ` (A - B) = g ` A - X"
  by auto

lemma reserve_frames:
  assumes "pmm_inv p" "a < b" "b \<le> 0x40000000"
  shows "pmm_inv (pmm_reserve a b p)" "free_addrs (pmm_reserve a b p) = free_addrs p - {f. \<exists>v. a \<le> v \<and> v < b \<and> f = pg v}"
proof -
  let ?f0 = "a div FRAME_SIZE" and ?f1 = "(b + FRAME_SIZE - 1) div FRAME_SIZE"
  have u: "unat a < unat b" "unat b \<le> 0x40000000" using assms(2,3) by (simp_all add: word_less_nat_alt word_le_nat_alt)
  have "unat (b + FRAME_SIZE - 1) = unat b + 4095" using u by (simp add: unat_word_ariths)
  then have f1: "unat ?f1 = (unat b + 4095) div 4096" "unat ?f0 = unat a div 4096" by (simp_all add: unat_div)
  have t: "p_total p = 0x40000" using assms(1) by (simp add: pmm_inv_def)
  have le: "unat ?f1 \<le> 0x40000" "unat ?f0 < 0x40000" using f1 u by simp_all
  then have r: "pmm_reserve a b p = fold set_used (frames ?f0 ?f1) p"
    using t by (simp add: pmm_reserve_def Let_def word_le_nat_alt word_less_nat_alt)
  have un: "unat (word_of_nat n :: 64 word) = n" if "n < unat ?f1" for n using that le by (simp add: unat_of_nat)
  have fr: "\<forall>f \<in> set (frames ?f0 ?f1). unat f < NFRAMES" using un le(1) by (auto simp: frames_def)
  have im: "unat ` set (frames ?f0 ?f1) = {unat ?f0..<unat ?f1}"
    using un by (force simp: frames_def image_image)
  have fs: "pmm_inv (pmm_reserve a b p)" "free_set (pmm_reserve a b p) = free_set p - {unat ?f0..<unat ?f1}"
    using fold_set_used [OF assms(1) fr] unfolding r im by simp_all
  then show "pmm_inv (pmm_reserve a b p)" by blast
  have sp: "n \<in> {unat ?f0..<unat ?f1} \<longleftrightarrow> (\<exists>v. a \<le> v \<and> v < b \<and> n = unat v div 4096)" for n
  proof
    assume n: "n \<in> {unat ?f0..<unat ?f1}"
    let ?v = "word_of_nat (max (unat a) (4096 * n)) :: 64 word"
    have "max (unat a) (4096 * n) < unat b" "max (unat a) (4096 * n) div 4096 = n" using n u f1 by auto
    moreover from this have "unat ?v = max (unat a) (4096 * n)" using u by (simp add: unat_of_nat)
    ultimately show "\<exists>v. a \<le> v \<and> v < b \<and> n = unat v div 4096" by (intro exI [of _ ?v]) (simp add: word_le_nat_alt word_less_nat_alt)
  next
    assume "\<exists>v. a \<le> v \<and> v < b \<and> n = unat v div 4096"
    then obtain v :: "64 word" where "unat a \<le> unat v" "unat v < unat b" "n = unat v div 4096" unfolding word_le_nat_alt word_less_nat_alt by blast
    then show "n \<in> {unat ?f0..<unat ?f1}" using f1 by (simp add: div_le_mono)
  qed
  have "(word_of_nat n * FRAME_SIZE \<in> {f. \<exists>v. a \<le> v \<and> v < b \<and> f = pg v}) = (n \<in> {unat ?f0..<unat ?f1})" if "n \<in> free_set p" for n
    unfolding sp mem_Collect_eq using frame_of_pg [of n] that by (simp add: free_set_def)
  from image_minus_cong [OF this] show "free_addrs (pmm_reserve a b p) = free_addrs p - {f. \<exists>v. a \<le> v \<and> v < b \<and> f = pg v}"
    unfolding free_addrs_def fs(2) .
qed

lemma unat_ucast32: "unat (ucast (c :: 32 word) :: 64 word) = unat c"
  using word32_bound [of c] by (simp add: unsigned_ucast_eq take_bit_nat_eq_self)

lemma ucast32_zero: "(ucast (c :: 32 word) :: 64 word) = 0 \<longleftrightarrow> c = 0"
  by (simp add: word_unat_eq_iff unat_ucast32)

lemma init_mods_loop_eq:
  "pmm_inv (vm_pmm (ex_vm x)) \<Longrightarrow> length (ex_mods x) \<le> 8 \<Longrightarrow>
   (let x' = init_mods_loop a is x; new = take (8 - length (ex_mods x)) (boot_mods (ex_vm x) a is) in
    ex_mods x' = ex_mods x @ new \<and> (\<exists>q. ex_vm x' = (ex_vm x)\<lparr>vm_pmm := q\<rparr> \<and> pmm_inv q
      \<and> free_addrs q = free_addrs (vm_pmm (ex_vm x)) - (\<Union>m \<in> set new. mod_frames m)))"
proof (induction "is" arbitrary: x)
  case Nil
  then show ?case by (simp add: boot_mods_def) (intro exI [of _ "vm_pmm (ex_vm x)"], simp)
next
  case (Cons i "is")
  let ?e = "mb_mod_at (ex_vm x) (a + 16 * word_of_nat i)"
  let ?s = "ex_vm x"
  show ?case
  proof (cases "length (ex_mods x) = 8")
    case True
    then show ?thesis by (simp add: Let_def) (intro exI [of _ "vm_pmm (ex_vm x)"], use Cons.prems in simp)
  next
    case lt: False
    show ?thesis
    proof (cases "usable ?s ?e")
      case False
      have "init_mods_loop a (i # is) x = init_mods_loop a is x"
        using lt Cons.prems(2) False by (simp add: usable_def Let_def) (auto simp: not_le not_less ucast32_zero)
      moreover have "boot_mods ?s a (i # is) = boot_mods ?s a is" using False by (simp add: boot_mods_def)
      ultimately show ?thesis using Cons.IH [OF Cons.prems] by metis
    next
      case True
      define x1 where "x1 = x\<lparr>ex_mods := ex_mods x @ [to_mod ?s ?e],
        ex_vm := ?s\<lparr>vm_pmm := pmm_reserve (ucast (mm_start ?e)) (ucast (mm_end ?e)) (vm_pmm ?s)\<rparr>\<rparr>"
      have st: "init_mods_loop a (i # is) x = init_mods_loop a is x1"
        using lt Cons.prems(2) True by (simp add: usable_def Let_def x1_def to_mod_def) (auto simp: not_le not_less ucast32_zero)
      have bm: "boot_mods ?s a (i # is) = to_mod ?s ?e # boot_mods ?s a is" using True by (simp add: boot_mods_def)
      have "ucast (mm_start ?e) < (ucast (mm_end ?e) :: 64 word)" "ucast (mm_end ?e) \<le> (0x40000000 :: 64 word)"
        using True by (simp_all add: usable_def word_less_nat_alt word_le_nat_alt unat_ucast32)
      note r = reserve_frames [OF Cons.prems(1) this]
      have f1: "free_addrs (vm_pmm (ex_vm x1)) = free_addrs (vm_pmm ?s) - mod_frames (to_mod ?s ?e)"
        using r(2) by (simp add: x1_def mod_frames_def to_mod_def)
      have b1: "boot_mods (ex_vm x1) = boot_mods ?s" by (simp add: x1_def)
      have l1: "8 - length (ex_mods x) = Suc (8 - length (ex_mods x1))" "length (ex_mods x1) \<le> 8" using lt Cons.prems(2) by (auto simp: x1_def)
      have p1: "pmm_inv (vm_pmm (ex_vm x1))" using r(1) by (simp add: x1_def)
      obtain q where q: "ex_vm (init_mods_loop a is x1) = (ex_vm x1)\<lparr>vm_pmm := q\<rparr>" "pmm_inv q"
        "free_addrs q = free_addrs (vm_pmm (ex_vm x1)) - (\<Union>m \<in> set (take (8 - length (ex_mods x1)) (boot_mods ?s a is)). mod_frames m)"
        and m: "ex_mods (init_mods_loop a is x1) = ex_mods x1 @ take (8 - length (ex_mods x1)) (boot_mods ?s a is)"
        using Cons.IH [OF p1 l1(2)] unfolding b1 Let_def by blast
      have "ex_vm (init_mods_loop a is x1) = ?s\<lparr>vm_pmm := q\<rparr>" using q(1) by (simp add: x1_def)
      then show ?thesis using q(2,3) m unfolding st bm l1(1) Let_def f1 by (auto simp: x1_def)
    qed
  qed
qed

lemma exec_find_spec:
  "(exec_find x name = -1 \<and> name \<notin> md_name ` set (ex_mods x)) \<or>
   (\<exists>k < length (ex_mods x). exec_find x name = int k \<and> md_name (ex_mods x ! k) = name \<and> (\<forall>j < k. md_name (ex_mods x ! j) \<noteq> name))"
  using find_loop_spec [of "ex_mods x" name 0] by (simp add: exec_find_def)

text \<open>The listing is the lines of the first modules, as many whole lines as the buffer takes.\<close>

definition mod_lines :: "kmod list \<Rightarrow> byte list" where
  "mod_lines ms = concat (map (\<lambda>m. md_name m @ [ch (CHR 0x0A)]) ms)"

lemma lsmod_loop_lines:
  "length out \<le> cap \<Longrightarrow> \<exists>k \<le> length ms. lsmod_loop ms cap out = out @ mod_lines (take k ms) \<and> length (out @ mod_lines (take k ms)) \<le> cap
     \<and> (k < length ms \<longrightarrow> cap < length (out @ mod_lines (take (Suc k) ms)))"
proof (induction ms arbitrary: out)
  case (Cons m ms)
  show ?case
  proof (cases "cap < length out + length (md_name m) + 1")
    case True
    then show ?thesis using Cons.prems by (intro exI [of _ 0]) (simp add: mod_lines_def)
  next
    case False
    then have "length (out @ md_name m @ [ch (CHR 0x0A)]) \<le> cap" by simp
    from Cons.IH [OF this] obtain k where "k \<le> length ms"
      "lsmod_loop ms cap (out @ md_name m @ [ch (CHR 0x0A)]) = (out @ md_name m @ [ch (CHR 0x0A)]) @ mod_lines (take k ms)"
      "length ((out @ md_name m @ [ch (CHR 0x0A)]) @ mod_lines (take k ms)) \<le> cap"
      "k < length ms \<longrightarrow> cap < length ((out @ md_name m @ [ch (CHR 0x0A)]) @ mod_lines (take (Suc k) ms))" by blast
    then show ?thesis using False by (intro exI [of _ "Suc k"]) (simp add: mod_lines_def)
  qed
qed (simp add: mod_lines_def)

lemma exec_lsmod_lines:
  "\<exists>k \<le> length (ex_mods x). exec_lsmod x cap = mod_lines (take k (ex_mods x)) \<and> length (exec_lsmod x cap) \<le> cap
     \<and> (k < length (ex_mods x) \<longrightarrow> cap < length (mod_lines (take (Suc k) (ex_mods x))))"
  using lsmod_loop_lines [of "[]" cap "ex_mods x"] by (auto simp: exec_lsmod_def)

section \<open>Writing user memory\<close>

lemma mmu_phys: "pg v \<in> P \<Longrightarrow> owned I P s \<Longrightarrow> mmu s v = Some (vmm_phys s v)"
proof -
  assume a: "pg v \<in> P" "owned I P s"
  then have "vmm_phys s v \<noteq> 0" using owned_phys(2) by blast
  then show ?thesis by (auto simp: mmu_def vmm_phys_leaf split: option.splits)
qed

lemma store_user_put:
  "owned I P s \<Longrightarrow> (\<forall>k < length bs. pg (a + word_of_nat k) \<in> P) \<Longrightarrow> store_user a bs s = Some (put_user a bs s)"
proof (induction bs arbitrary: a s)
  case (Cons b bs)
  have sh: "a + 1 + word_of_nat k = a + word_of_nat (Suc k)" for k by simp
  have d: "pg a \<in> P" using Cons.prems(2) [rule_format, of 0] by simp
  have "\<forall>k < length bs. pg (a + 1 + word_of_nat k) \<in> P" unfolding sh using Cons.prems(2) by (simp del: of_nat_Suc)
  from Cons.IH [OF owned_store(1) [OF Cons.prems(1) d, where b = b] this] show ?case using mmu_phys [OF d Cons.prems(1)] by simp
qed simp

text \<open>The two stack pages, seen as 8192 bytes.\<close>

abbreviation stk_addr :: "nat \<Rightarrow> 64 word" where
  "stk_addr n \<equiv> USTACK_BASE + word_of_nat n"

definition stk :: "vm \<Rightarrow> nat \<Rightarrow> byte" where
  "stk s n = ub s (stk_addr n)"

lemma unat_stk: "n \<le> 8192 \<Longrightarrow> unat (stk_addr n) = 0x40000000 + n"
  by (simp add: unat_word_ariths unat_of_nat)

lemma stk_pg: "n < 8192 \<Longrightarrow> pg (stk_addr n) = (if n < 4096 then USTACK_BASE else USTACK_BASE + 0x1000)"
proof -
  assume n: "n < 8192"
  have "unat (pg (stk_addr n)) = (0x40000000 + n) div 4096 * 4096" using masked [of "stk_addr n"] unat_stk [of n] n by simp
  also have "\<dots> = (if n < 4096 then 0x40000000 else 0x40001000)"
  proof -
    have "(0x40000000 + n) div 4096 = 0x40000 + n div 4096" by simp
    moreover have "n div 4096 = (if n < 4096 then 0 else 1)" using n by (auto simp: div_eq_0_iff intro: div_nat_eqI)
    ultimately show ?thesis by simp
  qed
  finally show ?thesis by (auto simp: word_unat_eq_iff)
qed

lemma store_stk:
  assumes "owned I P s" "{USTACK_BASE, USTACK_BASE + 0x1000} \<subseteq> P" "n + length bs \<le> 8192"
  obtains s' where "store_user (stk_addr n) bs s = Some s'" "owned I P s'" "leaf s' = leaf s" "vm_pmm s' = vm_pmm s"
    "\<And>a. pg a \<in> I \<Longrightarrow> ld8 s' a = ld8 s a"
    "\<And>k. k < 8192 \<Longrightarrow> stk s' k = (if n \<le> k \<and> k < n + length bs then bs ! (k - n) else stk s k)"
    "\<And>w. pg w \<in> P - {USTACK_BASE, USTACK_BASE + 0x1000} \<Longrightarrow> ub s' w = ub s w"
proof -
  have sh: "stk_addr n + word_of_nat k = stk_addr (n + k)" for k by simp
  have pin: "pg (stk_addr k) \<in> P" if "k < 8192" for k using stk_pg [OF that] assms(2) by auto
  have p: "\<forall>k < length bs. pg (stk_addr n + word_of_nat k) \<in> P" unfolding sh using pin assms(3) by (simp del: of_nat_add)
  have l: "length bs < 18446744073709551616" using assms(3) by simp
  let ?s = "put_user (stk_addr n) bs s"
  note pu = put_user_ok [OF assms(1) l p]
  have pb: "\<forall>k < length bs. ub ?s (stk_addr n + word_of_nat k) = bs ! k"
    and po: "\<forall>w. pg w \<in> P \<and> (\<forall>k < length bs. w \<noteq> stk_addr n + word_of_nat k) \<longrightarrow> ub ?s w = ub s w" using pu by blast+
  have inj: "stk_addr j = stk_addr k \<longleftrightarrow> j = k" if "j < 8192" "k < 8192" for j k
    using unat_stk [of j] unat_stk [of k] that by (metis add_left_cancel less_imp_le)
  have k1: "stk ?s k = (if n \<le> k \<and> k < n + length bs then bs ! (k - n) else stk s k)" if "k < 8192" for k
  proof (cases "n \<le> k \<and> k < n + length bs")
    case True
    have "k - n < length bs" "n + (k - n) = k" using True by linarith+
    then have "ub ?s (stk_addr k) = bs ! (k - n)" using pb sh [of "k - n"] by metis
    then show ?thesis using True by (simp add: stk_def)
  next
    case False
    have "\<forall>j < length bs. stk_addr k \<noteq> stk_addr n + word_of_nat j" unfolding sh using inj that assms(3) False by (simp del: of_nat_add) auto
    then have "ub ?s (stk_addr k) = ub s (stk_addr k)" using po pin [OF that] by blast
    then show ?thesis using False unfolding stk_def by (simp only: if_False)
  qed
  have k2: "ub ?s w = ub s w" if w: "pg w \<in> P - {USTACK_BASE, USTACK_BASE + 0x1000}" for w
  proof -
    have "w \<noteq> stk_addr n + word_of_nat j" if "j < length bs" for j
      unfolding sh using w stk_pg [of "n + j"] that assms(3) by (auto split: if_splits simp del: of_nat_add)
    then show ?thesis using po w by blast
  qed
  show thesis by (rule that [OF store_user_put [OF assms(1) p] _ _ _ _ k1 k2]) (use pu in blast)+
qed

section \<open>The first stack of a program\<close>

definition user_bytes :: "vm \<Rightarrow> 64 word \<Rightarrow> nat \<Rightarrow> byte list" where
  "user_bytes s a n = map (\<lambda>k. ub s (a + word_of_nat k)) [0..<n]"

definition user_qword :: "vm \<Rightarrow> 64 word \<Rightarrow> 64 word" where
  "user_qword s a = le_word (user_bytes s a 8)"

definition splice :: "nat \<Rightarrow> byte list \<Rightarrow> (nat \<Rightarrow> byte) \<Rightarrow> nat \<Rightarrow> byte" where
  "splice n bs f k = (if n \<le> k \<and> k < n + length bs then bs ! (k - n) else f k)"

definition field :: "(nat \<Rightarrow> byte) \<Rightarrow> nat \<Rightarrow> nat \<Rightarrow> byte list" where
  "field f n j = map f [n..<n + j]"

lemma field_splice: "j = length bs \<Longrightarrow> field (splice n bs f) n j = bs"
  "m + j \<le> n \<or> n + length bs \<le> m \<Longrightarrow> field (splice n bs f) m j = field f m j"
  by (auto simp: splice_def field_def intro!: nth_equalityI)

lemma user_bytes_stk: "user_bytes s (stk_addr n) j = field (stk s) n j"
  by (auto simp: user_bytes_def stk_def field_def add.assoc intro!: nth_equalityI)

lemma bit_le_word:
  "bit (le_word bs :: 'a::len word) n \<longleftrightarrow> n < LENGTH('a) \<and> n div 8 < length bs \<and> bit (bs ! (n div 8)) (n mod 8)"
proof (induction bs arbitrary: n)
  case (Cons b bs)
  have st: "le_word (b # bs) = (ucast b OR push_bit 8 (le_word bs) :: 'a word)" by (simp add: le_word_def)
  show ?case
  proof (cases "n < 8")
    case True
    then show ?thesis unfolding st by (simp add: bit_simps) 
  next
    case False
    then have d: "n div 8 = Suc ((n - 8) div 8)" "(n - 8) mod 8 = n mod 8" by (simp_all add: le_div_geq le_mod_geq)
    have "\<not> bit b n" using bit_imp_le_length [of b n] False by auto
    then show ?thesis unfolding st d(1) using Cons [of "n - 8"] False d(2) by (auto simp: bit_simps)
  qed
qed (simp add: le_word_def)

lemma le_word_qword [simp]: "le_word (qword w) = (w :: 64 word)" "length (qword w) = 8"
proof -
  show "length (qword w) = 8" by (simp add: qword_def)
  show "le_word (qword w) = (w :: 64 word)"
  proof (rule bit_word_eqI)
    fix n assume n: "n < LENGTH(64)"
    then have "n div 8 < 8" "8 * (n div 8) + n mod 8 = n" by auto
    then show "bit (le_word (qword w) :: 64 word) n = bit w n"
      using n unfolding bit_le_word by (simp add: qword_def bit_simps)
  qed
qed

lemma small_masks: "unat (e AND NOT 7) = unat (e :: 64 word) div 8 * 8" "unat (e AND NOT 15) = unat (e :: 64 word) div 16 * 16"
proof -
  have m: "(7 :: 64 word) = mask 3" "(15 :: 64 word) = mask 4" by (simp_all add: mask_eq_exp_minus_1)
  have "e AND NOT 7 = push_bit 3 (drop_bit 3 e)" "e AND NOT 15 = push_bit 4 (drop_bit 4 e)"
    unfolding m by (auto simp: bit_eq_iff bit_simps)
  moreover have "unat e div 8 * 8 < 18446744073709551616" "unat e div 16 * 16 < 18446744073709551616"
    using word64_bound [of e] by linarith+
  ultimately show "unat (e AND NOT 7) = unat e div 8 * 8" "unat (e AND NOT 15) = unat e div 16 * 16"
    by (simp_all add: push_bit_eq_mult drop_bit_eq_div unat_word_ariths unat_div)
qed

definition room :: "nat \<Rightarrow> nat" where
  "room n = (n + 8) div 8 * 8"

lemma room_bounds: "n < room n" "room n \<le> n + 8"
  unfolding room_def by linarith+

lemma str_room_eq: "length s < 8192 \<Longrightarrow> str_room s = word_of_nat (room (length s))"
proof -
  assume l: "length s < 8192"
  have "unat (word_of_nat (length s) + 8 :: 64 word) = length s + 8" using l by (simp add: unat_word_ariths unat_of_nat)
  moreover have "unat (word_of_nat (room (length s)) :: 64 word) = room (length s)" using l room_bounds(2) [of "length s"] by (simp add: unat_of_nat)
  ultimately show ?thesis unfolding str_room_def word_unat_eq_iff small_masks by (simp add: room_def)
qed

lemma stk_sub: "m \<le> n \<Longrightarrow> stk_addr n - word_of_nat m = stk_addr (n - m)"
  by (simp add: of_nat_diff)

lemma stk_align: "n \<le> 8192 \<Longrightarrow> stk_addr n AND NOT 15 = stk_addr (n div 16 * 16)"
proof -
  assume n: "n \<le> 8192"
  have "(0x40000000 + n) div 16 = 0x4000000 + n div 16" by simp
  then show ?thesis using unat_stk [OF n] unat_stk [of "n div 16 * 16"] n unfolding word_unat_eq_iff small_masks by simp
qed

text \<open>A state that differs from \<open>s0\<close> only in its stack bytes, which are \<open>f\<close>.\<close>

definition stack_view :: "64 word set \<Rightarrow> 64 word set \<Rightarrow> vm \<Rightarrow> (nat \<Rightarrow> byte) \<Rightarrow> vm \<Rightarrow> bool" where
  "stack_view I P s0 f s \<longleftrightarrow> owned I P s \<and> leaf s = leaf s0 \<and> vm_pmm s = vm_pmm s0 \<and> (\<forall>a. pg a \<in> I \<longrightarrow> ld8 s a = ld8 s0 a)
     \<and> (\<forall>k < 8192. stk s k = f k) \<and> (\<forall>w. pg w \<in> P - {USTACK_BASE, USTACK_BASE + 0x1000} \<longrightarrow> ub s w = ub s0 w)"

lemma view_store:
  assumes "{USTACK_BASE, USTACK_BASE + 0x1000} \<subseteq> P" "stack_view I P s0 f s" "n + length bs \<le> 8192"
  obtains s' where "store_user (stk_addr n) bs s = Some s'" "stack_view I P s0 (splice n bs f) s'"
proof -
  have ow: "owned I P s" using assms(2) by (simp add: stack_view_def)
  show thesis
  proof (rule store_stk [OF ow assms(1,3)])
    fix s' assume s': "store_user (stk_addr n) bs s = Some s'" "owned I P s'" "leaf s' = leaf s" "vm_pmm s' = vm_pmm s"
      "\<And>a. pg a \<in> I \<Longrightarrow> ld8 s' a = ld8 s a"
      "\<And>k. k < 8192 \<Longrightarrow> stk s' k = (if n \<le> k \<and> k < n + length bs then bs ! (k - n) else stk s k)"
      "\<And>w. pg w \<in> P - {USTACK_BASE, USTACK_BASE + 0x1000} \<Longrightarrow> ub s' w = ub s w"
    then have "stack_view I P s0 (splice n bs f) s'"
      using assms(2) unfolding stack_view_def splice_def by (metis (no_types, lifting))
    then show thesis using that s'(1) by blast
  qed
qed

text \<open>What the program finds at its stack pointer: the count, the pointers to the strings, and the null pointer behind them.\<close>

definition args_at :: "vm \<Rightarrow> 64 word \<Rightarrow> cstr list \<Rightarrow> bool" where
  "args_at s sp argv \<longleftrightarrow> user_qword s sp = word_of_nat (length argv) \<and>
     (\<forall>i < length argv. user_bytes s (user_qword s (sp + 8 * word_of_nat (Suc i))) (length (argv ! i) + 1) = argv ! i @ [0]) \<and>
     user_qword s (sp + 8 * word_of_nat (Suc (length argv))) = 0"

lemma view_bytes: "stack_view I P s0 f s \<Longrightarrow> n + j \<le> 8192 \<Longrightarrow> user_bytes s (stk_addr n) j = field f n j"
  by (simp add: user_bytes_stk stack_view_def field_def)

lemma stk_bounds:
  assumes "n < 8192" "n mod 16 = 0"
  shows "unat (stk_addr n) mod 16 = 0" "USTACK_BASE \<le> stk_addr n" "stk_addr n < USTACK_TOP"
proof -
  have u: "unat (stk_addr n) = 0x40000000 + n" using unat_stk [of n] assms(1) by simp
  have "(0x40000000 + n) mod 16 = n mod 16" using mod_mult_self1 [of n "0x4000000" 16] by (simp add: add.commute)
  then show "unat (stk_addr n) mod 16 = 0" using u assms(2) by simp
  show "USTACK_BASE \<le> stk_addr n" "stk_addr n < USTACK_TOP" using u assms(1) by (simp_all add: word_le_nat_alt word_less_nat_alt)
qed

lemma put_args_one:
  assumes "{USTACK_BASE, USTACK_BASE + 0x1000} \<subseteq> P" "stack_view I P s0 f s" "length name \<le> 4000"
  obtains sp s' g where "put_args name None s = Some (sp, s')" "put_args name (Some []) s = Some (sp, s')" "stack_view I P s0 g s'"
    "args_at s' sp [name]" "unat sp mod 16 = 0" "USTACK_BASE \<le> sp" "sp < USTACK_TOP"
proof -
  define o1 where "o1 = 8192 - room (length name)"
  define o3 where "o3 = (o1 - 24) div 16 * 16"
  note rb = room_bounds [of "length name"]
  have b: "o1 + length name + 1 \<le> 8192" "4000 \<le> o1" "o3 + 24 \<le> o1" using rb assms(3) unfolding o1_def o3_def by linarith+
  have p1: "USTACK_TOP - str_room name = stk_addr o1"
    using str_room_eq [of name] stk_sub [of "room (length name)" 8192] rb assms(3) by (simp add: o1_def)
  have p3: "(stk_addr o1 - 24) AND NOT 15 = stk_addr o3"
    using stk_sub [of 24 o1] stk_align [of "o1 - 24"] b(1,2) unfolding o3_def by simp
  have q: "stk_addr o3 + 8 = stk_addr (o3 + 8)" "stk_addr o3 + 16 = stk_addr (o3 + 16)" by simp_all
  obtain s1 where s1: "store_user (stk_addr o1) (name @ [0]) s = Some s1" "stack_view I P s0 (splice o1 (name @ [0]) f) s1"
    using view_store [OF assms(1,2), of o1 "name @ [0]"] b(1) by auto
  obtain s2 where s2: "store_user (stk_addr o3) (qword 1) s1 = Some s2" "stack_view I P s0 (splice o3 (qword 1) (splice o1 (name @ [0]) f)) s2"
    using view_store [OF assms(1) s1(2), of o3 "qword 1"] b by auto
  let ?f3 = "splice (o3 + 8) (qword (stk_addr o1)) (splice o3 (qword 1) (splice o1 (name @ [0]) f))"
  obtain s3 where s3: "store_user (stk_addr (o3 + 8)) (qword (stk_addr o1)) s2 = Some s3" "stack_view I P s0 ?f3 s3"
    using view_store [OF assms(1) s2(2), of "o3 + 8" "qword (stk_addr o1)"] b by auto
  let ?z = "splice (o3 + 16) (qword 0)"
  obtain s4 where s4: "store_user (stk_addr (o3 + 16)) (qword 0) s3 = Some s4" "stack_view I P s0 (?z ?f3) s4"
    using view_store [OF assms(1) s3(2), of "o3 + 16" "qword 0"] b by auto
  obtain s5 where s5: "store_user (stk_addr (o3 + 16)) (qword 0) s4 = Some s5" "stack_view I P s0 (?z (?z ?f3)) s5"
    using view_store [OF assms(1) s4(2), of "o3 + 16" "qword 0"] b by auto
  obtain s6 where s6: "store_user (stk_addr (o3 + 16)) (qword 0) s5 = Some s6" "stack_view I P s0 (?z (?z (?z ?f3))) s6"
    using view_store [OF assms(1) s5(2), of "o3 + 16" "qword 0"] b by auto
  have r: "put_args name None s = Some (stk_addr o3, s6)" "put_args name (Some []) s = Some (stk_addr o3, s6)"
    unfolding put_args_def Let_def option.case p1 using p3 q s1(1) s2(1) s3(1) s4(1) s5(1) s6(1) by simp_all
  let ?g = "?z (?z (?z ?f3))"
  have q3: "field ?g o3 8 = qword 1" "field ?g (o3 + 8) 8 = qword (stk_addr o1)" "field ?g (o3 + 16) 8 = qword 0"
    "field ?g o1 (length name + 1) = name @ [0]"
    using b by (simp_all add: field_splice)
  have uq: "user_qword s6 (stk_addr o3) = 1" "user_qword s6 (stk_addr (o3 + 8)) = stk_addr o1" "user_qword s6 (stk_addr (o3 + 16)) = 0"
    "user_bytes s6 (stk_addr o1) (length name + 1) = name @ [0]"
    using view_bytes [OF s6(2), of o3 8] view_bytes [OF s6(2), of "o3 + 8" 8] view_bytes [OF s6(2), of "o3 + 16" 8]
      view_bytes [OF s6(2), of o1 "length name + 1"] q3 b unfolding user_qword_def by auto
  have ar: "args_at s6 (stk_addr o3) [name]" using uq q unfolding args_at_def by simp
  show thesis by (rule that [OF r s6(2) ar stk_bounds]) (use b in \<open>simp_all add: o3_def\<close>)
qed

lemma put_args_two:
  assumes "{USTACK_BASE, USTACK_BASE + 0x1000} \<subseteq> P" "stack_view I P s0 f s" "length name \<le> 2000" "length a \<le> 2000" "a \<noteq> []"
  obtains sp s' g where "put_args name (Some a) s = Some (sp, s')" "stack_view I P s0 g s'"
    "args_at s' sp [name, a]" "unat sp mod 16 = 0" "USTACK_BASE \<le> sp" "sp < USTACK_TOP"
proof -
  define o1 where "o1 = 8192 - room (length name)"
  define o2 where "o2 = o1 - room (length a)"
  define o3 where "o3 = (o2 - 32) div 16 * 16"
  note rb = room_bounds [of "length name"] room_bounds [of "length a"]
  have b: "o1 + length name + 1 \<le> 8192" "o2 + length a + 1 \<le> o1" "4000 \<le> o2" "o3 + 32 \<le> o2" "room (length a) \<le> o1"
    using rb assms(3,4) unfolding o1_def o2_def o3_def by linarith+
  have p1: "USTACK_TOP - str_room name = stk_addr o1"
    using str_room_eq [of name] stk_sub [of "room (length name)" 8192] rb assms(3) by (simp add: o1_def)
  have p2: "stk_addr o1 - str_room a = stk_addr o2"
    using str_room_eq [of a] stk_sub [OF b(5)] assms(4) by (simp add: o2_def)
  have p3: "(stk_addr o2 - 32) AND NOT 15 = stk_addr o3"
    using stk_sub [of 32 o2] stk_align [of "o2 - 32"] b(1-3) unfolding o3_def by simp
  have q: "stk_addr o3 + 8 = stk_addr (o3 + 8)" "stk_addr o3 + 16 = stk_addr (o3 + 16)" "stk_addr o3 + 24 = stk_addr (o3 + 24)" by simp_all
  let ?f2 = "splice o2 (a @ [0]) (splice o1 (name @ [0]) f)"
  obtain s1 where s1: "store_user (stk_addr o1) (name @ [0]) s = Some s1" "stack_view I P s0 (splice o1 (name @ [0]) f) s1"
    using view_store [OF assms(1,2), of o1 "name @ [0]"] b(1) by auto
  obtain s2 where s2: "store_user (stk_addr o2) (a @ [0]) s1 = Some s2" "stack_view I P s0 ?f2 s2"
    using view_store [OF assms(1) s1(2), of o2 "a @ [0]"] b by auto
  obtain s3 where s3: "store_user (stk_addr o3) (qword 2) s2 = Some s3" "stack_view I P s0 (splice o3 (qword 2) ?f2) s3"
    using view_store [OF assms(1) s2(2), of o3 "qword 2"] b by auto
  let ?f4 = "splice (o3 + 8) (qword (stk_addr o1)) (splice o3 (qword 2) ?f2)"
  obtain s4 where s4: "store_user (stk_addr (o3 + 8)) (qword (stk_addr o1)) s3 = Some s4" "stack_view I P s0 ?f4 s4"
    using view_store [OF assms(1) s3(2), of "o3 + 8" "qword (stk_addr o1)"] b by auto
  let ?f5 = "splice (o3 + 16) (qword (stk_addr o2)) ?f4"
  obtain s5 where s5: "store_user (stk_addr (o3 + 16)) (qword (stk_addr o2)) s4 = Some s5" "stack_view I P s0 ?f5 s5"
    using view_store [OF assms(1) s4(2), of "o3 + 16" "qword (stk_addr o2)"] b by auto
  let ?g = "splice (o3 + 24) (qword 0) ?f5"
  obtain s6 where s6: "store_user (stk_addr (o3 + 24)) (qword 0) s5 = Some s6" "stack_view I P s0 ?g s6"
    using view_store [OF assms(1) s5(2), of "o3 + 24" "qword 0"] b by auto
  have r: "put_args name (Some a) s = Some (stk_addr o3, s6)"
    unfolding put_args_def Let_def option.case if_not_P [OF assms(5)] p1 p2 using p3 q s1(1) s2(1) s3(1) s4(1) s5(1) s6(1) by simp
  have q3: "field ?g o3 8 = qword 2" "field ?g (o3 + 8) 8 = qword (stk_addr o1)" "field ?g (o3 + 16) 8 = qword (stk_addr o2)"
    "field ?g (o3 + 24) 8 = qword 0" "field ?g o1 (length name + 1) = name @ [0]" "field ?g o2 (length a + 1) = a @ [0]"
    using b by (simp_all add: field_splice)
  have uq: "user_qword s6 (stk_addr o3) = 2" "user_qword s6 (stk_addr (o3 + 8)) = stk_addr o1" "user_qword s6 (stk_addr (o3 + 16)) = stk_addr o2"
    "user_qword s6 (stk_addr (o3 + 24)) = 0" "user_bytes s6 (stk_addr o1) (length name + 1) = name @ [0]" "user_bytes s6 (stk_addr o2) (length a + 1) = a @ [0]"
    using view_bytes [OF s6(2), of o3 8] view_bytes [OF s6(2), of "o3 + 8" 8] view_bytes [OF s6(2), of "o3 + 16" 8]
      view_bytes [OF s6(2), of "o3 + 24" 8] view_bytes [OF s6(2), of o1 "length name + 1"] view_bytes [OF s6(2), of o2 "length a + 1"]
      q3 b unfolding user_qword_def by auto
  have ar: "args_at s6 (stk_addr o3) [name, a]" using uq q unfolding args_at_def by (simp add: less_Suc_eq)
  show thesis by (rule that [OF r s6(2) ar stk_bounds]) (use b in \<open>simp_all add: o3_def\<close>)
qed

text \<open>The argument strings a program is given.\<close>

definition argv_of :: "cstr \<Rightarrow> cstr option \<Rightarrow> cstr list" where
  "argv_of name arg = (case arg of None \<Rightarrow> [name] | Some a \<Rightarrow> if a = [] then [name] else [name, a])"

lemma put_args_ok:
  assumes "{USTACK_BASE, USTACK_BASE + 0x1000} \<subseteq> P" "owned I P s" "\<forall>a \<in> set (argv_of name arg). length a \<le> 2000"
  obtains sp s' g where "put_args name arg s = Some (sp, s')" "stack_view I P s g s'"
    "args_at s' sp (argv_of name arg)" "unat sp mod 16 = 0" "USTACK_BASE \<le> sp" "sp < USTACK_TOP"
proof -
  have v: "stack_view I P s (stk s) s" using assms(2) by (simp add: stack_view_def)
  show thesis
  proof (cases "arg = None \<or> arg = Some []")
    case True
    then have e: "argv_of name arg = [name]" by (auto simp: argv_of_def)
    with assms(3) have "length name \<le> 4000" by simp
    from put_args_one [OF assms(1) v this] show thesis using that True unfolding e by metis
  next
    case False
    then obtain a where a: "arg = Some a" "a \<noteq> []" by auto
    then have e: "argv_of name (Some a) = [name, a]" by (simp add: argv_of_def)
    with assms(3) a(1) have "length name \<le> 2000" "length a \<le> 2000" by simp_all
    from put_args_two [OF assms(1) v this a(2)] show thesis using that unfolding a(1) e by metis
  qed
qed

section \<open>Starting a program\<close>

text \<open>The frames a module's image lies in.\<close>

definition img_frames :: "64 word \<Rightarrow> 64 word \<Rightarrow> 64 word set" where
  "img_frames img len = (\<lambda>k. pg (img + word_of_nat k)) ` {..<unat len}"

abbreviation user_range :: "64 word list" where
  "user_range \<equiv> page_range (USER_MIN AND NOT 0xFFF) USTACK_TOP"

lemma unmap_user:
  assumes "pt_inv s" "\<forall>p \<in> set user_range. unmap_safe s p"
    and "\<forall>f \<in> I. aligned f \<and> f \<notin> tabs s \<and> f \<notin> free_addrs (vm_pmm s) \<and> (\<forall>p \<in> set user_range. f \<notin> freed s p)"
  obtains s0 where "vmm_unmap_range USER_MIN USTACK_TOP s = Some s0" "owned I {} s0" "card (free_addrs (vm_pmm s)) \<le> card (free_addrs (vm_pmm s0))"
    "\<And>a. pg a \<in> I \<Longrightarrow> ld8 s0 a = ld8 s a"
proof -
  define s0 where "s0 = fold unmap_page user_range s"
  have u: "unmapped (set user_range) s s0" unfolding s0_def by (rule unmap_pages [OF assms(1,2)])
  have t: "tabs s0 = tabs s" using u unfolding unmapped_def tabs_def by auto
  have fr: "free_addrs (vm_pmm s0) = free_addrs (vm_pmm s) \<union> (\<Union>p \<in> set user_range. freed s p)" using u by (simp add: unmapped_def)
  have ow: "owned I {} s0" using assms(3) t fr u unfolding owned_def unmapped_def by auto
  have "finite (free_addrs (vm_pmm s0))" by (simp add: free_addrs_def)
  then have c: "card (free_addrs (vm_pmm s)) \<le> card (free_addrs (vm_pmm s0))" using fr by (intro card_mono) auto
  have "vmm_unmap_range USER_MIN USTACK_TOP s = Some s0" by (simp add: vmm_unmap_range_def s0_def)
  moreover have "ld8 s0 a = ld8 s a" if "pg a \<in> I" for a
  proof (rule ld8_same)
    fix y assume "y div 4096 = a div 4096"
    then have "y div 4096 = pg a div 4096" using pg_frame [of a] by simp
    moreover have "aligned (pg a)" "pg a \<notin> tabs s" using assms(3) that by auto
    ultimately show "vm_mem s0 y = vm_mem s y" using u unfolding unmapped_def by blast
  qed
  ultimately show thesis using that ow c by blast
qed

lemma stack_pages:
  assumes "owned I P s" "10 \<le> card (free_addrs (vm_pmm s))" "USTACK_BASE \<notin> P" "USTACK_BASE + 0x1000 \<notin> P"
  obtains f1 q1 f2 q2 where "pmm_alloc_frame (vm_pmm s) = (f1, q1)" "pmm_alloc_frame q1 = (f2, q2)" "f1 \<noteq> 0" "f2 \<noteq> 0"
    "let s' = vmm_map (USTACK_BASE + 0x1000) f2 (PTE_P OR PTE_W OR PTE_U) (vmm_map USTACK_BASE f1 (PTE_P OR PTE_W OR PTE_U) (s\<lparr>vm_pmm := q2\<rparr>)) in
     owned I ({USTACK_BASE, USTACK_BASE + 0x1000} \<union> P) s' \<and> keeps I P s s'
       \<and> (\<forall>v \<in> {USTACK_BASE, USTACK_BASE + 0x1000}. \<exists>f. leaf s' v = Some (f, PTE_P OR PTE_W OR PTE_U))"
proof -
  let ?fl = "PTE_P OR PTE_W OR PTE_U"
  have "free_addrs (vm_pmm s) \<noteq> {}" using assms(2) by auto
  from owned_alloc [OF assms(1) this] obtain f1 q1 where a1: "pmm_alloc_frame (vm_pmm s) = (f1, q1)" "f1 \<noteq> 0" "f1 \<notin> I"
    "owned (insert f1 I) P (s\<lparr>vm_pmm := q1\<rparr>)" "keeps I P s (s\<lparr>vm_pmm := q1\<rparr>)" "card (free_addrs (vm_pmm s)) = Suc (card (free_addrs q1))" by metis
  have "free_addrs (vm_pmm (s\<lparr>vm_pmm := q1\<rparr>)) \<noteq> {}" using assms(2) a1(6) by auto
  from owned_alloc [OF a1(4) this] obtain f2 q2 where a2: "pmm_alloc_frame q1 = (f2, q2)" "f2 \<noteq> 0" "f2 \<notin> insert f1 I"
    "owned (insert f2 (insert f1 I)) P (s\<lparr>vm_pmm := q2\<rparr>)" "keeps (insert f1 I) P (s\<lparr>vm_pmm := q1\<rparr>) (s\<lparr>vm_pmm := q2\<rparr>)"
    "card (free_addrs q1) = Suc (card (free_addrs q2))" by auto
  define s2 where "s2 = s\<lparr>vm_pmm := q2\<rparr>"
  define s3 where "s3 = vmm_map USTACK_BASE f1 ?fl s2"
  define s4 where "s4 = vmm_map (USTACK_BASE + 0x1000) f2 ?fl s3"
  have c2: "8 \<le> card (free_addrs (vm_pmm s2))" using assms(2) a1(6) a2(6) by (simp add: s2_def)
  have o2: "owned (insert f1 (insert f2 I)) P s2" using a2(4) by (simp add: s2_def insert_commute)
  have al: "aligned USTACK_BASE" "aligned (USTACK_BASE + 0x1000)" by (simp_all add: aligned_def)
  have n: "f1 \<notin> insert f2 I" using a1(3) a2(3) by auto
  have c3: "4 \<le> card (free_addrs (vm_pmm s2))" using c2 by simp
  note m3 = owned_vmm_map [OF o2 n a1(2) al(1) assms(3) _ c3, where fl = ?fl, folded s3_def]
  have m3': "owned (insert f2 I) (insert USTACK_BASE P) s3" "keeps (insert f2 I) P s2 s3" "card (free_addrs (vm_pmm s2)) \<le> card (free_addrs (vm_pmm s3)) + 4"
    "leaf s3 USTACK_BASE = Some (f1, (?fl AND 0xFFF) OR PTE_P)" using m3 by simp_all
  have c4: "4 \<le> card (free_addrs (vm_pmm s3))" using c2 m3'(3) by simp
  have n4: "f2 \<notin> I" "USTACK_BASE + 0x1000 \<notin> insert USTACK_BASE P" using a2(3) assms(4) by auto
  note m4 = owned_vmm_map [OF m3'(1) n4(1) a2(2) al(2) n4(2) _ c4, where fl = ?fl, folded s4_def]
  have m4': "owned I (insert (USTACK_BASE + 0x1000) (insert USTACK_BASE P)) s4" "keeps I (insert USTACK_BASE P) s3 s4"
    "leaf s4 (USTACK_BASE + 0x1000) = Some (f2, (?fl AND 0xFFF) OR PTE_P)" using m4 by simp_all
  have "keeps I P s s2" using a1(5) a2(5) unfolding s2_def keeps_def by auto
  moreover have "keeps I P s2 s3" using m3'(2) unfolding keeps_def by auto
  moreover have "keeps I P s3 s4" using keeps_mono [OF m4'(2)] by blast
  ultimately have k: "keeps I P s s4" using keeps_trans by blast
  have "leaf s4 USTACK_BASE = leaf s3 USTACK_BASE" using m4'(2) low_and(2) [OF al(1)] unfolding keeps_def by auto
  then have "leaf s4 USTACK_BASE = Some (f1, ?fl)" "leaf s4 (USTACK_BASE + 0x1000) = Some (f2, ?fl)" using m3'(4) m4'(3) by simp_all
  moreover have "owned I ({USTACK_BASE, USTACK_BASE + 0x1000} \<union> P) s4" using m4'(1) by (simp add: insert_commute)
  ultimately have "owned I ({USTACK_BASE, USTACK_BASE + 0x1000} \<union> P) s4 \<and> keeps I P s s4
      \<and> (\<forall>v \<in> {USTACK_BASE, USTACK_BASE + 0x1000}. \<exists>f. leaf s4 v = Some (f, ?fl))" using k by blast
  then show thesis by (intro that [OF a1(1) a2(1) a1(2) a2(2)]) (simp add: Let_def s4_def s3_def s2_def)
qed

lemma enter_program_ok:
  fixes x :: exec and arg :: "cstr option" and n :: nat
  defines "m \<equiv> ex_mods x ! n" and "s \<equiv> ex_vm x"
  defines "img \<equiv> ucast (md_start m) :: 64 word" and "len \<equiv> ucast (md_end m - md_start m) :: 64 word"
  assumes n: "n < length (ex_mods x)" and "pt_inv s" "elf_ok img len s"
    and fr: "5 * length (elf_pages (phdrs img s)) + 10 \<le> card (free_addrs (vm_pmm s))"
    and "\<forall>p \<in> set user_range. unmap_safe s p"
    and I: "\<forall>f \<in> img_frames img len. f \<notin> tabs s \<and> f \<notin> free_addrs (vm_pmm s) \<and> (\<forall>p \<in> set user_range. f \<notin> freed s p)"
    and args: "\<forall>a \<in> set (argv_of (md_name m) arg). length a \<le> 2000"
  obtains sp s' where "enter_program (int n) arg x = (Entered (eh_entry (ehdr_at s img)) sp, x\<lparr>ex_vm := s'\<rparr>)"
    "owned (img_frames img len) ({USTACK_BASE, USTACK_BASE + 0x1000} \<union> set (elf_pages (phdrs img s))) s'"
    "args_at s' sp (argv_of (md_name m) arg)" "unat sp mod 16 = 0" "USTACK_BASE \<le> sp" "sp < USTACK_TOP"
    "\<forall>v \<in> {USTACK_BASE, USTACK_BASE + 0x1000}. \<exists>f. leaf s' v = Some (f, PTE_P OR PTE_W OR PTE_U)"
    "\<forall>p \<in> set (phdrs img s). seg_loaded img s p s'"
proof -
  let ?I = "img_frames img len" and ?E = "set (elf_pages (phdrs img s))" and ?S = "{USTACK_BASE, USTACK_BASE + 0x1000}"
  have iI: "\<forall>k < unat len. pg (img + word_of_nat k) \<in> ?I" by (auto simp: img_frames_def)
  have I': "\<forall>f \<in> ?I. aligned f \<and> f \<notin> tabs s \<and> f \<notin> free_addrs (vm_pmm s) \<and> (\<forall>p \<in> set user_range. f \<notin> freed s p)"
    using I by (auto simp: img_frames_def)
  obtain s0 where s0: "vmm_unmap_range USER_MIN USTACK_TOP s = Some s0" "owned ?I {} s0" "card (free_addrs (vm_pmm s)) \<le> card (free_addrs (vm_pmm s0))"
    and i0: "\<And>a. pg a \<in> ?I \<Longrightarrow> ld8 s0 a = ld8 s a"
    by (rule unmap_user [OF assms(6,9) I']) blast
  have "\<forall>k < unat len. ld8 s0 (img + word_of_nat k) = ld8 s (img + word_of_nat k)" using i0 iI by blast
  note ec = elf_ok_cong [OF assms(7) this]
  have fr0: "5 * length (elf_pages (phdrs img s0)) \<le> card (free_addrs (vm_pmm s0))" using fr s0(3) ec(3) by simp
  obtain s1 where s1: "elf_load img len s0 = (Some (eh_entry (ehdr_at s img)), s1)" "owned ?I ?E s1"
    "card (free_addrs (vm_pmm s0)) \<le> card (free_addrs (vm_pmm s1)) + 5 * length (elf_pages (phdrs img s))"
    "\<forall>p \<in> set (phdrs img s). seg_loaded img s0 p s1"
    by (rule elf_load_owned [OF s0(2) ec(1) fr0 iI, unfolded ec(2,3)]) blast
  have so: "\<forall>p \<in> set (phdrs img s). seg_ok len p" using assms(7) by (simp add: elf_ok_def Let_def)
  then have "v < 0x40000000" if "v \<in> ?E" for v using that seg_pages_facts(3) by (auto simp: elf_pages_def)
  then have nE: "USTACK_BASE \<notin> ?E" "USTACK_BASE + 0x1000 \<notin> ?E" by fastforce+
  have c1: "10 \<le> card (free_addrs (vm_pmm s1))" using fr s0(3) s1(3) by simp
  obtain f1 q1 f2 q2 s3 where a: "pmm_alloc_frame (vm_pmm s1) = (f1, q1)" "pmm_alloc_frame q1 = (f2, q2)" "f1 \<noteq> 0" "f2 \<noteq> 0"
    and s3: "s3 = vmm_map (USTACK_BASE + 0x1000) f2 (PTE_P OR PTE_W OR PTE_U) (vmm_map USTACK_BASE f1 (PTE_P OR PTE_W OR PTE_U) (s1\<lparr>vm_pmm := q2\<rparr>))"
      "owned ?I (?S \<union> ?E) s3" "keeps ?I ?E s1 s3" "\<forall>v \<in> ?S. \<exists>f. leaf s3 v = Some (f, PTE_P OR PTE_W OR PTE_U)"
    by (rule stack_pages [OF s1(2) c1 nE]) (unfold Let_def, blast)
  obtain sp s4 g where s4: "put_args (md_name m) arg s3 = Some (sp, s4)" "stack_view ?I (?S \<union> ?E) s3 g s4"
    "args_at s4 sp (argv_of (md_name m) arg)" "unat sp mod 16 = 0" "USTACK_BASE \<le> sp" "sp < USTACK_TOP"
    by (rule put_args_ok [OF _ s3(2) args]) blast+
  have e: "enter_program (int n) arg x = (Entered (eh_entry (ehdr_at s img)) sp, x\<lparr>ex_vm := s4\<rparr>)"
    using n s0(1) s1(1) a s4(1) unfolding enter_program_def s3(1) img_def len_def by (simp add: Let_def flip: m_def s_def)
  have "seg_loaded img s p s4" if p: "p \<in> set (phdrs img s)" for p
  proof -
    have so': "seg_ok len p" using so p by blast
    have l1: "seg_loaded img s p s1" by (rule seg_loaded_image [of img s0 p s1 len]) (use s1(4) p so' i0 iI in auto)
    have pE: "pg w \<in> ?E - ?S" if "pg w \<in> set (seg_pages p)" for w using that p nE by (auto simp: elf_pages_def)
    show ?thesis
    proof (rule seg_loaded_keep [OF l1 so'])
      fix w assume "pg w \<in> set (seg_pages p)"
      from pE [OF this] show "leaf s4 w = leaf s1 w \<and> ub s4 w = ub s1 w"
        using s3(3) s4(2) unfolding keeps_def stack_view_def by auto
    qed
  qed
  then have "\<forall>p \<in> set (phdrs img s). seg_loaded img s p s4" by blast
  moreover have "\<forall>v \<in> ?S. \<exists>f. leaf s4 v = Some (f, PTE_P OR PTE_W OR PTE_U)" using s3(4) s4(2) by (simp add: stack_view_def)
  moreover have "owned ?I (?S \<union> ?E) s4" using s4(2) by (simp add: stack_view_def)
  ultimately show thesis using that [OF e _ s4(3-6)] by blast
qed

section \<open>Examples\<close>

definition demo_exec :: exec where
  "demo_exec = \<lparr>ex_mods = [\<lparr>md_start = 0x200000, md_end = 0x20007A, md_name = cs ''init''\<rparr>], ex_vm = demo_vm\<rparr>"

lemma demo_small: "\<not> small demo_vm w"
proof -
  note d = poke_bytes [OF demo_base(1,2) boot_inv, of 122 demo_elf, folded demo_vm_def]
  have "tab demo_vm p = tab boot_vm p" if "path_ok p" for p
    using tree_cong [of demo_vm boot_vm] d that by (auto simp: tabs_def)
  moreover have "path_ok (vpath w 0)" by (simp add: path_ok_def vpath_def)
  ultimately show ?thesis using boot_leaf(2) [of w] unfolding small_def by simp
qed

lemma demo_img: "img_frames 0x200000 122 = {0x200000}"
proof -
  have "pg (0x200000 + word_of_nat k) = 0x200000" if "k < 122" for k :: nat
  proof -
    have "word_of_nat k = (word_of_nat k :: 64 word) AND 0xFFF"
      using that by (simp add: mask_consts take_bit_eq_mod word_unat_eq_iff unat_mod unat_of_nat flip: take_bit_eq_mask)
    then show ?thesis using page_split(1) [OF demo_base(1), of "word_of_nat k"] by metis
  qed
  then have "(\<lambda>k. pg (0x200000 + word_of_nat k)) ` {..<122 :: nat} = (\<lambda>k. 0x200000) ` {..<122 :: nat}" by (intro image_cong) auto
  then show ?thesis unfolding img_frames_def by (simp add: image_constant_conv lessThan_empty_iff)
qed

text \<open>
  A boot loader's list at 0x8000 with one module named \<open>init\<close>.
\<close>

definition list_vm :: vm where
  "list_vm = boot_vm\<lparr>vm_mem := (vm_mem boot_vm)(0x8000 := 0x0020007A00200000, 0x8008 := 0x8010, 0x8010 := 0x74696E69)\<rparr>"

lemma list_bytes: "vm_mem list_vm 0x8000 = 0x0020007A00200000" "vm_mem list_vm 0x8008 = 0x8010" "vm_mem list_vm 0x8010 = 0x74696E69"
  by (simp_all add: list_vm_def)

lemma list_entry: "mb_mod_at list_vm 0x8000 = \<lparr>mm_start = 0x200000, mm_end = 0x20007A, mm_cmdline = 0x8010, mm_reserved = 0\<rparr>"
proof -
  have u: "[0..<4] = [0, 1, 2, 3]" by (simp add: upt_rec)
  show ?thesis unfolding mb_mod_at_def ld_le_def u by (simp add: ld8_def list_bytes le_word_def)
qed

lemma list_mods: "boot_mods list_vm 0x8000 [0..<1] = [\<lparr>md_start = 0x200000, md_end = 0x20007A, md_name = cs ''init''\<rparr>]"
proof -
  have b: "ld8 list_vm 0x8010 = 0x69" "ld8 list_vm 0x8011 = 0x6E" "ld8 list_vm 0x8012 = 0x69" "ld8 list_vm 0x8013 = 0x74" "ld8 list_vm 0x8014 = 0"
    by (simp_all add: ld8_def list_bytes)
  have "copy_name list_vm 0x8010 (Suc (Suc (Suc (Suc (Suc 26))))) = [0x69, 0x6E, 0x69, 0x74]"
    unfolding copy_name.simps by (simp add: b)
  moreover have "Suc (Suc (Suc (Suc (Suc 26)))) = 31" by simp
  ultimately have "copy_name list_vm 0x8010 31 = cs ''init''" by (simp add: cs_def ch_def)
  then show ?thesis by (simp add: boot_mods_def list_entry usable_def to_mod_def b(1))
qed

section \<open>Properties\<close>



text \<open>
  (C24) The module registry: from the boot loader's list \<open>exec_init_mods\<close> registers the first eight usable entries in order,
  with names of at most 31 bytes, and no frame of a registered module can be allocated afterwards.
\<close>

theorem exec_init_mods_registers:
  assumes "pmm_inv (vm_pmm (ex_vm x))"
  shows "ex_mods (exec_init_mods addr count x) = take 8 (boot_mods (ex_vm x) (ucast addr) [0..<unat count]) \<and>
    pmm_inv (vm_pmm (ex_vm (exec_init_mods addr count x))) \<and>
    (\<forall>m \<in> set (ex_mods (exec_init_mods addr count x)). length (md_name m) < MOD_NAME_LEN \<and>
       mod_frames m \<inter> free_addrs (vm_pmm (ex_vm (exec_init_mods addr count x))) = {})"
proof -
  let ?x = "x\<lparr>ex_mods := []\<rparr>" and ?new = "take 8 (boot_mods (ex_vm x) (ucast addr) [0..<unat count])"
  obtain q where q: "ex_mods (exec_init_mods addr count x) = ?new" "ex_vm (exec_init_mods addr count x) = (ex_vm x)\<lparr>vm_pmm := q\<rparr>" "pmm_inv q"
    "free_addrs q = free_addrs (vm_pmm (ex_vm x)) - (\<Union>m \<in> set ?new. mod_frames m)"
    using init_mods_loop_eq [of ?x "ucast addr" "[0..<unat count]"] assms unfolding exec_init_mods_def Let_def by auto
  have "length (md_name m) < 32" if mm: "m \<in> set ?new" for m
  proof -
    obtain e where "m = to_mod (ex_vm x) e" using in_set_takeD [OF mm] by (auto simp: boot_mods_def)
    then show ?thesis using copy_name_facts(1) [of "ex_vm x" "ucast (mm_cmdline e)" 31] by (simp add: to_mod_def)
  qed
  then show ?thesis using q by auto
qed

theorem exec_init_mods_registers_witness:
  "ex_mods (exec_init_mods 0x8000 1 \<lparr>ex_mods = [], ex_vm = list_vm\<rparr>) = [\<lparr>md_start = 0x200000, md_end = 0x20007A, md_name = cs ''init''\<rparr>]"
proof -
  have "pmm_inv (vm_pmm list_vm)" using pt_invD(1) [OF boot_inv] by (simp add: list_vm_def)
  then show ?thesis using exec_init_mods_registers [of "\<lparr>ex_mods = [], ex_vm = list_vm\<rparr>" "0x8000" 1] list_mods by simp
qed

end
