(* ===== verification/Syscall.thy ===== *)
theory Syscall
  imports Cpu Keyboard Fs Exec
begin

text \<open>
  The system call interface, \<^verbatim>\<open>kernel/syscall.c\<close>: the dispatcher and every call it serves, over the joint state of the
  console, the keyboard, the file systems, the module registry and memory. A pointer that a program passes is dereferenced by the kernel through
  the page tables: an address without translation is an exception, which prints the handler's message and stops. Bytes for
  \<open>fs_fwrite\<close> are read before the file system is called, so a fault is shown also where the file system would have refused the path
  before it looked at them. The frame buffer and the kernel's variables are not part of the modelled memory.
\<close>

section \<open>Numbers\<close>

abbreviation SYS_PUTS :: "64 word" where "SYS_PUTS \<equiv> 0"
abbreviation SYS_GETC :: "64 word" where "SYS_GETC \<equiv> 1"
abbreviation SYS_INFO :: "64 word" where "SYS_INFO \<equiv> 2"
abbreviation SYS_REBOOT :: "64 word" where "SYS_REBOOT \<equiv> 3"
abbreviation SYS_POWEROFF :: "64 word" where "SYS_POWEROFF \<equiv> 4"
abbreviation SYS_EXIT :: "64 word" where "SYS_EXIT \<equiv> 5"
abbreviation SYS_WRITE :: "64 word" where "SYS_WRITE \<equiv> 6"
abbreviation SYS_CHDIR :: "64 word" where "SYS_CHDIR \<equiv> 7"
abbreviation SYS_MKDIR :: "64 word" where "SYS_MKDIR \<equiv> 8"
abbreviation SYS_LISTDIR :: "64 word" where "SYS_LISTDIR \<equiv> 9"
abbreviation SYS_GETCWD :: "64 word" where "SYS_GETCWD \<equiv> 10"
abbreviation SYS_SETCOLOR :: "64 word" where "SYS_SETCOLOR \<equiv> 11"
abbreviation SYS_MEMINFO :: "64 word" where "SYS_MEMINFO \<equiv> 12"
abbreviation SYS_RUN :: "64 word" where "SYS_RUN \<equiv> 13"
abbreviation SYS_LSMOD :: "64 word" where "SYS_LSMOD \<equiv> 14"
abbreviation SYS_PARTLIST :: "64 word" where "SYS_PARTLIST \<equiv> 15"
abbreviation SYS_MOUNT :: "64 word" where "SYS_MOUNT \<equiv> 16"
abbreviation SYS_FREAD :: "64 word" where "SYS_FREAD \<equiv> 17"
abbreviation SYS_GOTO :: "64 word" where "SYS_GOTO \<equiv> 18"
abbreviation SYS_FWRITE :: "64 word" where "SYS_FWRITE \<equiv> 19"
abbreviation SYS_CLEAR :: "64 word" where "SYS_CLEAR \<equiv> 20"

abbreviation E_INVAL :: "64 word" where "E_INVAL \<equiv> - 22"
abbreviation E_NOSYS :: "64 word" where "E_NOSYS \<equiv> - 38"
abbreviation SYS_IO_MAX :: nat where "SYS_IO_MAX \<equiv> 4096"

record syscall_frame =
  rax :: "64 word"
  rdi :: "64 word"
  rsi :: "64 word"
  rdx :: "64 word"
  r10 :: "64 word"
  r8 :: "64 word"
  r9 :: "64 word"
  rip :: "64 word"
  rflags :: "64 word"
  rbx :: "64 word"
  rbp :: "64 word"
  r12 :: "64 word"
  r13 :: "64 word"
  r14 :: "64 word"
  r15 :: "64 word"

section \<open>State and sys_end\<close>

record 'd kernel =
  kn_vga :: vga
  kn_kbd :: kbd
  kn_fs :: "'d vfs"
  kn_ex :: exec
  kn_out :: "io_ev list"

abbreviation kvm :: "'d kernel \<Rightarrow> vm" where
  "kvm k \<equiv> ex_vm (kn_ex k)"

definition set_vm :: "vm \<Rightarrow> 'd kernel \<Rightarrow> 'd kernel" where
  "set_vm s k = k\<lparr>kn_ex := (kn_ex k)\<lparr>ex_vm := s\<rparr>\<rparr>"

text \<open>
  How a call ends: return to the program, entry of another program, waiting for a key, a stop with a message, a reset,
  an exception in the kernel, a loop without end, or a write past a fixed kernel buffer.
\<close>

datatype sys_end = Back syscall_frame | Enter "64 word" "64 word" | Waiting | Halted | Reset | Panicked | Endless | Overrun

definition ret :: "syscall_frame \<Rightarrow> 64 word \<Rightarrow> 'd kernel \<Rightarrow> sys_end \<times> 'd kernel" where
  "ret f r k = (Back (f\<lparr>rax := r\<rparr>), k)"

definition page_fault :: "'d kernel \<Rightarrow> sys_end \<times> 'd kernel" where
  "page_fault k = (Panicked, k\<lparr>kn_vga := panic (kn_vga k)\<rparr>)"

section \<open>User memory\<close>

definition ld_user :: "vm \<Rightarrow> 64 word \<Rightarrow> byte option" where
  "ld_user s a = map_option (ld8 s) (mmu s a)"

text \<open>At most \<open>n\<close> bytes of a string; None is a fault.\<close>

fun user_str :: "vm \<Rightarrow> 64 word \<Rightarrow> nat \<Rightarrow> cstr option" where
  "user_str s a 0 = Some []"
| "user_str s a (Suc n) =
     (case ld_user s a of None \<Rightarrow> None | Some b \<Rightarrow> if b = 0 then Some [] else map_option (Cons b) (user_str s (a + 1) n))"

text \<open>The bytes up to the first one that cannot be read, and whether all were read.\<close>

fun user_read :: "vm \<Rightarrow> 64 word \<Rightarrow> nat \<Rightarrow> byte list \<times> bool" where
  "user_read s a 0 = ([], True)"
| "user_read s a (Suc n) =
     (case ld_user s a of None \<Rightarrow> ([], False) | Some b \<Rightarrow> let (bs, ok) = user_read s (a + 1) n in (b # bs, ok))"

text \<open>The loop of \<open>copy_str\<close> with the room left before the NUL: None is a fault, \<open>Some None\<close> the error result.\<close>

fun copy_str_loop :: "vm \<Rightarrow> 64 word \<Rightarrow> nat \<Rightarrow> cstr option option" where
  "copy_str_loop s a 0 = (case ld_user s a of None \<Rightarrow> None | Some b \<Rightarrow> Some (if b \<noteq> 0 then None else Some []))"
| "copy_str_loop s a (Suc n) =
     (case ld_user s a of None \<Rightarrow> None
      | Some b \<Rightarrow> if b = 0 then Some (Some []) else map_option (map_option (Cons b)) (copy_str_loop s (a + 1) n))"

definition copy_str :: "vm \<Rightarrow> 64 word \<Rightarrow> nat \<Rightarrow> cstr option option" where
  "copy_str s src cap = (if src = 0 \<or> cap = 0 then Some None else copy_str_loop s src (cap - 1))"

section \<open>Text into a user buffer\<close>

fun emit_str :: "64 word \<Rightarrow> 64 word \<Rightarrow> 64 word \<Rightarrow> byte list \<Rightarrow> vm \<Rightarrow> (64 word \<times> vm) option" where
  "emit_str buf pos cap [] s = Some (pos, s)"
| "emit_str buf pos cap (c # str) s =
     (if cap \<le> pos then Some (- 1, s)
      else do { s' \<leftarrow> store_user (buf + pos) [c] s; emit_str buf (pos + 1) cap str s' })"

text \<open>The digits in \<open>tmp\<close>, lowest first.\<close>

fun emit_tmp :: "nat \<Rightarrow> byte list" where
  "emit_tmp v = (if v = 0 then [] else (48 + word_of_nat (v mod 10)) # emit_tmp (v div 10))"

declare emit_tmp.simps [simp del]

definition emit_digits :: "64 word \<Rightarrow> byte list" where
  "emit_digits v = (if v = 0 then [48] else rev (emit_tmp (unat v)))"

definition emit_dec :: "64 word \<Rightarrow> 64 word \<Rightarrow> 64 word \<Rightarrow> 64 word \<Rightarrow> vm \<Rightarrow> (64 word \<times> vm) option" where
  "emit_dec buf pos cap v s = emit_str buf pos cap (emit_digits v) s"

definition emit_nibble :: "32 word \<Rightarrow> byte" where
  "emit_nibble v = cs ''0123456789ABCDEF'' ! unat v"

definition emit_hex :: "64 word \<Rightarrow> 64 word \<Rightarrow> 64 word \<Rightarrow> 32 word \<Rightarrow> vm \<Rightarrow> (64 word \<times> vm) option" where
  "emit_hex buf pos cap v s =
     (if cap < pos + 2 then Some (- 1, s)
      else do {
        s1 \<leftarrow> store_user (buf + pos) [emit_nibble (drop_bit 4 v AND 0xF)] s;
        s2 \<leftarrow> store_user (buf + (pos + 1)) [emit_nibble (v AND 0xF)] s1;
        Some (pos + 2, s2)
      })"

section \<open>The calls\<close>

text \<open>A call into the file systems, whose faults end the call.\<close>

definition on_fs :: "('a, 'd) vres \<Rightarrow> ('a \<Rightarrow> 'd kernel \<Rightarrow> sys_end \<times> 'd kernel) \<Rightarrow> 'd kernel \<Rightarrow> sys_end \<times> 'd kernel" where
  "on_fs m c k = (case m of Inl OutOfFuel \<Rightarrow> (Endless, k) | Inl Overflow \<Rightarrow> (Overrun, k) | Inr (a, v) \<Rightarrow> c a (k\<lparr>kn_fs := v\<rparr>))"

text \<open>Bytes for the caller's buffer, then the result.\<close>

definition put_buf :: "syscall_frame \<Rightarrow> 64 word \<Rightarrow> byte list \<Rightarrow> 64 word \<Rightarrow> 'd kernel \<Rightarrow> sys_end \<times> 'd kernel" where
  "put_buf f buf bs r k = (case store_user buf bs (kvm k) of None \<Rightarrow> page_fault k | Some s \<Rightarrow> ret f r (set_vm s k))"

text \<open>A path argument: faults and errors of \<open>copy_str\<close> end the call.\<close>

definition with_str :: "syscall_frame \<Rightarrow> 64 word \<Rightarrow> nat \<Rightarrow> 'd kernel \<Rightarrow> (cstr \<Rightarrow> sys_end \<times> 'd kernel) \<Rightarrow> sys_end \<times> 'd kernel" where
  "with_str f src cap k c =
     (case copy_str (kvm k) src cap of None \<Rightarrow> page_fault k | Some None \<Rightarrow> ret f E_INVAL k | Some (Some p) \<Rightarrow> c p)"

definition sys_puts :: "syscall_frame \<Rightarrow> 'd kernel \<Rightarrow> sys_end \<times> 'd kernel" where
  "sys_puts f k =
     (if rdi f = 0 then ret f E_INVAL k
      else case user_str (kvm k) (rdi f) SYS_IO_MAX of
        None \<Rightarrow> page_fault k
      | Some s \<Rightarrow>
        if length s = SYS_IO_MAX then ret f E_INVAL k
        else ret f 0 (k\<lparr>kn_vga := term_write s (length s) (kn_vga k)\<rparr>))"

definition sys_write :: "syscall_frame \<Rightarrow> 'd kernel \<Rightarrow> sys_end \<times> 'd kernel" where
  "sys_write f k =
     (if rdi f = 0 \<or> word_of_nat SYS_IO_MAX < rsi f then ret f E_INVAL k
      else
        let (bs, ok) = user_read (kvm k) (rdi f) (unat (rsi f)); k1 = k\<lparr>kn_vga := term_write bs (length bs) (kn_vga k)\<rparr> in
        if ok then ret f (rsi f) k1 else page_fault k1)"

definition sys_getc :: "syscall_frame \<Rightarrow> 'd kernel \<Rightarrow> sys_end \<times> 'd kernel" where
  "sys_getc f k = (case getchar (kn_kbd k) of None \<Rightarrow> (Waiting, k) | Some (c, b) \<Rightarrow> ret f (ucast c) (k\<lparr>kn_kbd := b\<rparr>))"

definition nl :: byte where "nl = ch (CHR 0x0A)"

definition sys_info :: "syscall_frame \<Rightarrow> 'd kernel \<Rightarrow> sys_end \<times> 'd kernel" where
  "sys_info f k = ret f 0 (k\<lparr>kn_vga := term_puts (cs ''inaneos beta 0.0.2'' @ [nl]) (kn_vga k)\<rparr>)"

text \<open>The reset: after polling the status port at most 100 times the three ways to reset are tried; the last one, an exception without a table, always works.\<close>

definition cpu_reboot :: "'d kernel \<Rightarrow> sys_end \<times> 'd kernel" where
  "cpu_reboot k = (Reset, k\<lparr>kn_out := kn_out k @ [OutB 0x64 0xFE, OutB 0xCF9 0x02, io_wait, OutB 0xCF9 0x06]\<rparr>)"

definition cpu_poweroff :: "'d kernel \<Rightarrow> sys_end \<times> 'd kernel" where
  "cpu_poweroff k = (Halted, k\<lparr>kn_out := kn_out k @ [OutW 0x604 0x2000], kn_vga := term_puts (cs ''safe to power off'' @ [nl]) (kn_vga k)\<rparr>)"

text \<open>Starting a program never returns to the caller; the continuation is for the result -1.\<close>

definition enter_or :: "int \<Rightarrow> cstr option \<Rightarrow> ('d kernel \<Rightarrow> sys_end \<times> 'd kernel) \<Rightarrow> 'd kernel \<Rightarrow> sys_end \<times> 'd kernel" where
  "enter_or idx arg c k =
     (case enter_program idx arg (kn_ex k) of
        (Entered entry sp, x) \<Rightarrow> (Enter entry sp, k\<lparr>kn_ex := x\<rparr>)
      | (Refused, x) \<Rightarrow> c (k\<lparr>kn_ex := x\<rparr>)
      | (PageFault, x) \<Rightarrow> page_fault (k\<lparr>kn_ex := x\<rparr>)
      | (Hangs, x) \<Rightarrow> (Endless, k\<lparr>kn_ex := x\<rparr>))"

definition init_lost :: "'d kernel \<Rightarrow> sys_end \<times> 'd kernel" where
  "init_lost k = (Halted, k\<lparr>kn_vga := term_puts (cs ''init lost'' @ [nl]) (kn_vga k)\<rparr>)"

definition sys_exit :: "'d kernel \<Rightarrow> sys_end \<times> 'd kernel" where
  "sys_exit k = enter_or 0 None init_lost k"

definition sys_run :: "syscall_frame \<Rightarrow> 'd kernel \<Rightarrow> sys_end \<times> 'd kernel" where
  "sys_run f k =
     with_str f (rdi f) 32 k (\<lambda>name.
       let start = (\<lambda>ap.
             let idx = exec_find (kn_ex k) name in
             if idx < 0 then ret f E_INVAL k else enter_or idx ap (enter_or 0 None init_lost) k) in
       if rsi f \<noteq> 0 then with_str f (rsi f) 128 k (\<lambda>arg. start (Some arg)) else start None)"

definition sys_lsmod :: "syscall_frame \<Rightarrow> 'd kernel \<Rightarrow> sys_end \<times> 'd kernel" where
  "sys_lsmod f k =
     (if rdi f = 0 \<or> 256 < rsi f then ret f E_INVAL k
      else let out = exec_lsmod (kn_ex k) (unat (rsi f)) in put_buf f (rdi f) out (word_of_nat (length out)) k)"

fun partlist_loop :: "64 word \<Rightarrow> 64 word \<Rightarrow> 'd vfs \<Rightarrow> nat list \<Rightarrow> 64 word \<Rightarrow> vm \<Rightarrow> (64 word \<times> vm) option" where
  "partlist_loop buf cap v [] pos s = Some (pos, s)"
| "partlist_loop buf cap v (i # is) pos s =
     (let p = pt_parts (vf_ptab v) ! i in
      do {
        (p1, s1) \<leftarrow> emit_dec buf pos cap (word_of_nat i) s;
        (p2, s2) \<leftarrow> emit_str buf p1 cap (if int i = fs_mounted_idx v then cs ''* '' else cs '' '') s1;
        (p3, s3) \<leftarrow> emit_hex buf p2 cap (ucast (pt_type p)) s2;
        (p4, s4) \<leftarrow> emit_str buf p3 cap (cs '' '') s3;
        (p5, s5) \<leftarrow> emit_dec buf p4 cap (pt_lba p) s4;
        (p6, s6) \<leftarrow> emit_str buf p5 cap (cs '' '') s5;
        (p7, s7) \<leftarrow> emit_dec buf p6 cap (pt_sectors p) s6;
        (p8, s8) \<leftarrow> emit_str buf p7 cap [nl] s7;
        if p8 = - 1 then Some (p8, s8) else partlist_loop buf cap v is p8 s8
      })"

text \<open>The end of a call that emitted text.\<close>

definition emitted :: "syscall_frame \<Rightarrow> (64 word \<times> vm) option \<Rightarrow> 'd kernel \<Rightarrow> sys_end \<times> 'd kernel" where
  "emitted f m k = (case m of None \<Rightarrow> page_fault k | Some (pos, s) \<Rightarrow> ret f (if pos = - 1 then E_INVAL else pos) (set_vm s k))"

definition sys_partlist :: "syscall_frame \<Rightarrow> 'd kernel \<Rightarrow> sys_end \<times> 'd kernel" where
  "sys_partlist f k =
     (if rdi f = 0 \<or> 512 < rsi f then ret f E_INVAL k
      else emitted f (partlist_loop (rdi f) (rsi f) (kn_fs k) [0..<nat (part_count (vf_ptab (kn_fs k)))] 0 (kvm k)) k)"

text \<open>The conversion from a 64-bit register to \<open>int\<close>.\<close>

definition to_int :: "64 word \<Rightarrow> int" where
  "to_int w = sint (ucast w :: 32 word)"

definition sys_mount :: "'d ata \<Rightarrow> syscall_frame \<Rightarrow> 'd kernel \<Rightarrow> sys_end \<times> 'd kernel" where
  "sys_mount hw f k =
     (if sint (rdi f) < 0 then ret f 0 (k\<lparr>kn_fs := fs_unmount (kn_fs k)\<rparr>)
      else let (r, v) = fs_mount_part hw (to_int (rdi f)) (kn_fs k) in ret f (word_of_int r) (k\<lparr>kn_fs := v\<rparr>))"

definition sys_fread :: "'d ata \<Rightarrow> nat \<Rightarrow> syscall_frame \<Rightarrow> 'd kernel \<Rightarrow> sys_end \<times> 'd kernel" where
  "sys_fread hw fuel f k =
     with_str f (rdi f) 128 k (\<lambda>path.
       if rsi f = 0 \<or> 8192 < rdx f then ret f E_INVAL k
       else on_fs (fs_fread hw fuel path (unat (rdx f)) (kn_fs k)) (\<lambda>(r, bs). put_buf f (rsi f) bs (word_of_int r)) k)"

definition sys_goto :: "syscall_frame \<Rightarrow> 'd kernel \<Rightarrow> sys_end \<times> 'd kernel" where
  "sys_goto f k = ret f 0 (k\<lparr>kn_vga := term_goto (to_int (rdi f)) (to_int (rsi f)) (kn_vga k)\<rparr>)"

definition sys_fwrite :: "'d ata \<Rightarrow> nat \<Rightarrow> syscall_frame \<Rightarrow> 'd kernel \<Rightarrow> sys_end \<times> 'd kernel" where
  "sys_fwrite hw fuel f k =
     with_str f (rdi f) 128 k (\<lambda>path.
       if rsi f = 0 \<or> word_of_nat FILE_MAX < rdx f then ret f E_INVAL k
       else
         let (bs, ok) = user_read (kvm k) (rsi f) (unat (rdx f)) in
         if \<not> ok then page_fault k else on_fs (fs_fwrite hw fuel path bs (kn_fs k)) (\<lambda>r. ret f (word_of_int r)) k)"

definition sys_chdir :: "'d ata \<Rightarrow> nat \<Rightarrow> syscall_frame \<Rightarrow> 'd kernel \<Rightarrow> sys_end \<times> 'd kernel" where
  "sys_chdir hw fuel f k = with_str f (rdi f) 128 k (\<lambda>path. on_fs (fs_chdir hw fuel path (kn_fs k)) (\<lambda>r. ret f (word_of_int r)) k)"

definition sys_mkdir :: "syscall_frame \<Rightarrow> 'd kernel \<Rightarrow> sys_end \<times> 'd kernel" where
  "sys_mkdir f k =
     with_str f (rdi f) 128 k (\<lambda>path. let (r, v) = fs_mkdir path (kn_fs k) in ret f (word_of_int r) (k\<lparr>kn_fs := v\<rparr>))"

definition sys_listdir :: "'d ata \<Rightarrow> nat \<Rightarrow> syscall_frame \<Rightarrow> 'd kernel \<Rightarrow> sys_end \<times> 'd kernel" where
  "sys_listdir hw fuel f k =
     with_str f (rdi f) 128 k (\<lambda>path.
       if rsi f = 0 \<or> 8192 < rdx f then ret f E_INVAL k
       else on_fs (fs_listdir hw fuel path (unat (rdx f)) (kn_fs k)) (\<lambda>(r, bs). put_buf f (rsi f) bs (word_of_int r)) k)"

definition sys_getcwd :: "syscall_frame \<Rightarrow> 'd kernel \<Rightarrow> sys_end \<times> 'd kernel" where
  "sys_getcwd f k =
     (if rdi f = 0 \<or> 512 < rsi f \<or> rsi f < 2 then ret f E_INVAL k
      else let (r, bs) = fs_getcwd (unat (rsi f)) (kn_fs k) in
        put_buf f (rdi f) (if 0 \<le> r then bs @ [0] else bs) (word_of_int r) k)"

definition sys_setcolor :: "syscall_frame \<Rightarrow> 'd kernel \<Rightarrow> sys_end \<times> 'd kernel" where
  "sys_setcolor f k = ret f 0 (k\<lparr>kn_vga := term_set_color (ucast (rdi f)) (ucast (rsi f)) (kn_vga k)\<rparr>)"

definition sys_meminfo :: "syscall_frame \<Rightarrow> 'd kernel \<Rightarrow> sys_end \<times> 'd kernel" where
  "sys_meminfo f k =
     (if rdi f = 0 \<or> 256 < rsi f \<or> rsi f < 32 then ret f E_INVAL k
      else
        let buf = rdi f; cap = rsi f; q = vm_pmm (kvm k) in
        emitted f (do {
          (p1, s1) \<leftarrow> emit_str buf 0 cap (cs ''free: '') (kvm k);
          (p2, s2) \<leftarrow> emit_dec buf p1 cap (pmm_free_kb q) s1;
          (p3, s3) \<leftarrow> emit_str buf p2 cap (cs '' KB total: '') s2;
          (p4, s4) \<leftarrow> emit_dec buf p3 cap (pmm_total_kb q) s3;
          emit_str buf p4 cap (cs '' KB'' @ [nl]) s4
        }) k)"

section \<open>The dispatcher\<close>

definition syscall_dispatcher :: "'d ata \<Rightarrow> nat \<Rightarrow> syscall_frame \<Rightarrow> 'd kernel \<Rightarrow> sys_end \<times> 'd kernel" where
  "syscall_dispatcher hw fuel f k =
     (if rax f = SYS_PUTS then sys_puts f k
      else if rax f = SYS_CLEAR then ret f 0 (k\<lparr>kn_vga := term_clear (kn_vga k)\<rparr>)
      else if rax f = SYS_WRITE then sys_write f k
      else if rax f = SYS_GETC then sys_getc f k
      else if rax f = SYS_INFO then sys_info f k
      else if rax f = SYS_REBOOT then cpu_reboot k
      else if rax f = SYS_POWEROFF then cpu_poweroff k
      else if rax f = SYS_EXIT then sys_exit k
      else if rax f = SYS_RUN then sys_run f k
      else if rax f = SYS_LSMOD then sys_lsmod f k
      else if rax f = SYS_PARTLIST then sys_partlist f k
      else if rax f = SYS_MOUNT then sys_mount hw f k
      else if rax f = SYS_FREAD then sys_fread hw fuel f k
      else if rax f = SYS_GOTO then sys_goto f k
      else if rax f = SYS_FWRITE then sys_fwrite hw fuel f k
      else if rax f = SYS_CHDIR then sys_chdir hw fuel f k
      else if rax f = SYS_MKDIR then sys_mkdir f k
      else if rax f = SYS_LISTDIR then sys_listdir hw fuel f k
      else if rax f = SYS_GETCWD then sys_getcwd f k
      else if rax f = SYS_SETCOLOR then sys_setcolor f k
      else if rax f = SYS_MEMINFO then sys_meminfo f k
      else ret f E_NOSYS k)"

section \<open>The state between calls\<close>

definition kernel_inv :: "'d kernel \<Rightarrow> bool" where
  "kernel_inv k \<longleftrightarrow> vga_inv (kn_vga k) \<and> kbd_inv (kn_kbd k) \<and> vfs_inv (kn_fs k)
     \<and> length (ex_mods (kn_ex k)) \<le> MAX_MODS \<and> (\<forall>m \<in> set (ex_mods (kn_ex k)). length (md_name m) < MOD_NAME_LEN \<and> 0 \<notin> set (md_name m))"

text \<open>A call that ends well for the caller: the invariant holds and no register but \<open>rax\<close> has changed.\<close>

definition ok_end :: "syscall_frame \<Rightarrow> sys_end \<times> 'd kernel \<Rightarrow> bool" where
  "ok_end f r \<longleftrightarrow> kernel_inv (snd r) \<and> (\<forall>g. fst r = Back g \<longrightarrow> g = f\<lparr>rax := rax g\<rparr>)"

lemma ok_simps [simp]: "ok_end f (ret f r k) = kernel_inv k" "ok_end f (Enter e sp, k) = kernel_inv k" "ok_end f (Waiting, k) = kernel_inv k"
  "ok_end f (Halted, k) = kernel_inv k" "ok_end f (Reset, k) = kernel_inv k" "ok_end f (Endless, k) = kernel_inv k" "ok_end f (Overrun, k) = kernel_inv k"
  "ok_end f (Panicked, k) = kernel_inv k"
  by (simp_all add: ok_end_def ret_def)

lemma kernel_inv_upd [simp]:
  "kernel_inv (set_vm s k) = kernel_inv k" "kernel_inv (k\<lparr>kn_out := evs\<rparr>) = kernel_inv k"
  by (simp_all add: kernel_inv_def set_vm_def)

lemma kernel_inv_vga: "kernel_inv k \<Longrightarrow> (vga_inv (kn_vga k) \<Longrightarrow> vga_inv v) \<Longrightarrow> kernel_inv (k\<lparr>kn_vga := v\<rparr>)"
  by (simp add: kernel_inv_def)

lemma term_text_inv [inv_intros]: "vga_inv v \<Longrightarrow> vga_inv (term_puts t v)" "vga_inv v \<Longrightarrow> vga_inv (term_write t n v)" "vga_inv v \<Longrightarrow> vga_inv (panic v)"
  by (simp_all add: term_puts_def term_write_def panic_def inv_intros)

lemma ok_fault: "kernel_inv k \<Longrightarrow> ok_end f (page_fault k)"
  by (simp add: page_fault_def kernel_inv_vga inv_intros)

lemma ok_on_fs:
  assumes "kernel_inv k" "after m = fs_apply hw fuel op (kn_fs k)" "\<And>a k'. kernel_inv k' \<Longrightarrow> ok_end f (c a k')"
  shows "ok_end f (on_fs m c k)"
proof (cases m)
  case (Inl e)
  then show ?thesis using assms(1) by (cases e) (simp_all add: on_fs_def)
next
  case (Inr r)
  obtain a v where r: "r = (a, v)" by (cases r)
  have "fs_apply hw fuel op (kn_fs k) = Inr v" using assms(2) Inr r by (simp add: after_def)
  then have "vfs_inv v" using apply_inv assms(1) unfolding kernel_inv_def by blast
  then have "kernel_inv (k\<lparr>kn_fs := v\<rparr>)" using assms(1) by (simp add: kernel_inv_def)
  then show ?thesis using assms(3) Inr r by (simp add: on_fs_def)
qed

lemma ok_put_buf: "kernel_inv k \<Longrightarrow> ok_end f (put_buf f buf bs r k)"
  by (simp add: put_buf_def ok_fault split: option.splits)

lemma ok_with_str: "kernel_inv k \<Longrightarrow> (\<And>p. ok_end f (c p)) \<Longrightarrow> ok_end f (with_str f src cap k c)"
  by (simp add: with_str_def ok_fault split: option.splits)

lemma ok_emitted: "kernel_inv k \<Longrightarrow> ok_end f (emitted f m k)"
  by (auto simp: emitted_def ok_fault split: option.splits)

lemma enter_keeps_mods: "ex_mods (snd (enter_program idx arg x)) = ex_mods x"
  by (simp add: enter_program_def Let_def split: option.splits prod.splits)

lemma ok_enter_or:
  assumes "kernel_inv k" "\<And>k'. kernel_inv k' \<Longrightarrow> ok_end f (c k')"
  shows "ok_end f (enter_or idx arg c k)"
proof -
  obtain r x where r: "enter_program idx arg (kn_ex k) = (r, x)" by fastforce
  then have "ex_mods x = ex_mods (kn_ex k)" using enter_keeps_mods [of idx arg "kn_ex k"] by simp
  then have "kernel_inv (k\<lparr>kn_ex := x\<rparr>)" using assms(1) by (simp add: kernel_inv_def)
  then show ?thesis using assms(2) r by (cases r) (simp_all add: enter_or_def ok_fault)
qed

lemma ok_init_lost: "kernel_inv k \<Longrightarrow> ok_end f (init_lost k)"
  by (simp add: init_lost_def kernel_inv_vga inv_intros)

lemmas ok_ends = ok_fault ok_put_buf ok_with_str ok_emitted ok_enter_or ok_init_lost

lemma ok_console:
  assumes "kernel_inv k"
  shows "ok_end f (sys_puts f k)" "ok_end f (sys_write f k)" "ok_end f (sys_getc f k)" "ok_end f (sys_info f k)" "ok_end f (cpu_poweroff k)"
    "ok_end f (sys_goto f k)" "ok_end f (sys_setcolor f k)" "ok_end f (ret f 0 (k\<lparr>kn_vga := term_clear (kn_vga k)\<rparr>))"
proof -
  have v: "kernel_inv (k\<lparr>kn_vga := term_write t n (kn_vga k)\<rparr>)" for t n by (rule kernel_inv_vga [OF assms]) (rule inv_intros)
  show "ok_end f (sys_puts f k)" using assms v by (simp add: sys_puts_def ok_fault split: option.splits)
  show "ok_end f (sys_write f k)" using assms v by (simp add: sys_write_def Let_def ok_fault split: prod.splits)
  show "ok_end f (sys_getc f k)" using assms by (auto simp: sys_getc_def kernel_inv_def intro: inv_intros split: option.splits)
  show "ok_end f (cpu_poweroff k)" using assms by (simp add: cpu_poweroff_def kernel_inv_def inv_intros)
qed (use assms in \<open>simp_all add: sys_info_def sys_goto_def sys_setcolor_def kernel_inv_vga inv_intros\<close>)

lemma ok_files:
  assumes "kernel_inv k"
  shows "ok_end f (sys_fread hw fuel f k)" "ok_end f (sys_fwrite hw fuel f k)" "ok_end f (sys_chdir hw fuel f k)" "ok_end f (sys_mkdir f k)"
    "ok_end f (sys_listdir hw fuel f k)" "ok_end f (sys_getcwd f k)" "ok_end f (sys_mount hw f k)"
proof -
  show "ok_end f (sys_fread hw fuel f k)" unfolding sys_fread_def
    by (rule ok_with_str [OF assms], simp add: assms, intro impI, rule ok_on_fs [OF assms, of _ hw fuel "OpRead p n" for p n])
      (auto simp: ok_put_buf)
  show "ok_end f (sys_fwrite hw fuel f k)" unfolding sys_fwrite_def Let_def case_prod_unfold
    by (rule ok_with_str [OF assms], simp add: assms ok_fault, intro impI, rule ok_on_fs [OF assms, of _ hw fuel "OpFwrite p n" for p n]) auto
  show "ok_end f (sys_chdir hw fuel f k)" unfolding sys_chdir_def
    by (rule ok_with_str [OF assms], rule ok_on_fs [OF assms, of _ hw fuel "OpChdir p" for p]) auto
  show "ok_end f (sys_listdir hw fuel f k)" unfolding sys_listdir_def
    by (rule ok_with_str [OF assms], simp add: assms, intro impI, rule ok_on_fs [OF assms, of _ hw fuel "OpList p n" for p n])
      (auto simp: ok_put_buf)
  have m: "vfs_inv (kn_fs k)" using assms by (simp add: kernel_inv_def)
  have "vfs_inv (snd (fs_mkdir p (kn_fs k)))" for p
    using apply_inv [OF m, of undefined undefined "OpMkdir p"] by simp
  then show "ok_end f (sys_mkdir f k)" unfolding sys_mkdir_def
    by (intro ok_with_str [OF assms]) (use assms in \<open>simp add: case_prod_unfold Let_def kernel_inv_def\<close>)
  show "ok_end f (sys_getcwd f k)" using assms by (simp add: sys_getcwd_def ok_put_buf case_prod_unfold Let_def)
  show "ok_end f (sys_mount hw f k)"
    using assms mount_inv [OF m] unmount_inv [OF m] by (simp add: sys_mount_def case_prod_unfold Let_def kernel_inv_def)
qed

lemma ok_programs:
  assumes "kernel_inv k"
  shows "ok_end f (sys_exit k)" "ok_end f (sys_run f k)" "ok_end f (sys_lsmod f k)" "ok_end f (sys_partlist f k)" "ok_end f (sys_meminfo f k)"
  unfolding sys_exit_def sys_run_def sys_lsmod_def sys_partlist_def sys_meminfo_def Let_def
  using assms by (auto intro!: ok_ends split: if_splits)

lemma ok_dispatch: "kernel_inv k \<Longrightarrow> ok_end f (syscall_dispatcher hw fuel f k)"
  using ok_console(8) [of k f] by (simp add: syscall_dispatcher_def ok_console(1-7) ok_files ok_programs cpu_reboot_def)

section \<open>Reading and writing the caller's memory\<close>

text \<open>Bytes of a program, in pages it owns.\<close>

definition has_bytes :: "64 word set \<Rightarrow> vm \<Rightarrow> 64 word \<Rightarrow> byte list \<Rightarrow> bool" where
  "has_bytes P s a bs \<longleftrightarrow> (\<forall>k < length bs. pg (a + word_of_nat k) \<in> P) \<and> user_bytes s a (length bs) = bs"

lemma ld_user_owned: "owned I P s \<Longrightarrow> pg a \<in> P \<Longrightarrow> ld_user s a = Some (ub s a)"
  by (simp add: ld_user_def mmu_phys ub_def)

lemma user_bytes_Suc: "user_bytes s a (Suc n) = ub s a # user_bytes s (a + 1) n"
  by (simp add: user_bytes_def upt_conv_Cons map_Suc_upt [symmetric] add.assoc del: upt_Suc)

lemma has_bytes_Cons:
  "has_bytes P s a (b # bs) \<longleftrightarrow> pg a \<in> P \<and> ub s a = b \<and> has_bytes P s (a + 1) bs"
proof -
  have sh: "a + 1 + word_of_nat k = a + word_of_nat (Suc k)" for k by simp
  have "(\<forall>k < Suc n. pg (a + word_of_nat k) \<in> P) \<longleftrightarrow> pg a \<in> P \<and> (\<forall>k < n. pg (a + 1 + word_of_nat k) \<in> P)" for n
    unfolding sh All_less_Suc2 by simp
  then show ?thesis by (auto simp: has_bytes_def user_bytes_Suc)
qed

lemma user_read_owned: "owned I P s \<Longrightarrow> has_bytes P s a bs \<Longrightarrow> user_read s a (length bs) = (bs, True)"
  by (induction bs arbitrary: a) (auto simp: has_bytes_Cons ld_user_owned)

lemma copy_str_loop_owned:
  "owned I P s \<Longrightarrow> has_bytes P s a (str @ [0]) \<Longrightarrow> 0 \<notin> set str \<Longrightarrow> length str \<le> n \<Longrightarrow> copy_str_loop s a n = Some (Some str)"
proof (induction str arbitrary: a n)
  case Nil
  then show ?case by (cases n) (auto simp: has_bytes_Cons ld_user_owned)
next
  case (Cons c str)
  then show ?case by (cases n) (auto simp: has_bytes_Cons ld_user_owned)
qed

lemma copy_str_owned:
  "owned I P s \<Longrightarrow> has_bytes P s a (str @ [0]) \<Longrightarrow> 0 \<notin> set str \<Longrightarrow> length str < cap \<Longrightarrow> a \<noteq> 0 \<Longrightarrow> copy_str s a cap = Some (Some str)"
  by (auto simp: copy_str_def intro: copy_str_loop_owned)

text \<open>A string that is too long for the buffer is refused, whatever follows it.\<close>

lemma copy_str_loop_long:
  "owned I P s \<Longrightarrow> has_bytes P s a str \<Longrightarrow> 0 \<notin> set str \<Longrightarrow> length str = Suc n \<Longrightarrow> copy_str_loop s a n = Some None"
proof (induction str arbitrary: a n)
  case (Cons c str)
  then show ?case by (cases n) (auto simp: has_bytes_Cons ld_user_owned)
qed simp

lemma copy_str_long:
  "owned I P s \<Longrightarrow> has_bytes P s a str \<Longrightarrow> 0 \<notin> set str \<Longrightarrow> length str = cap \<Longrightarrow> copy_str s a cap = Some None"
  by (cases cap) (auto simp: copy_str_def copy_str_loop_long)

lemma put_user_bytes:
  "owned I P s \<Longrightarrow> length bs < 18446744073709551616 \<Longrightarrow> \<forall>k < length bs. pg (a + word_of_nat k) \<in> P \<Longrightarrow> has_bytes P (put_user a bs s) a bs"
  using put_user_ok [of I P s bs a] unfolding has_bytes_def user_bytes_def by (auto intro!: nth_equalityI)

lemma store_owned:
  assumes "owned I P s" "\<forall>k < length bs. pg (a + word_of_nat k) \<in> P" "length bs < 18446744073709551616"
  obtains s' where "store_user a bs s = Some s'" "owned I P s'" "has_bytes P s' a bs"
    "\<And>w. pg w \<in> P \<Longrightarrow> (\<forall>k < length bs. w \<noteq> a + word_of_nat k) \<Longrightarrow> ub s' w = ub s w" "vm_pmm s' = vm_pmm s"
proof -
  note pu = put_user_ok [OF assms(1,3,2)]
  have "has_bytes P (put_user a bs s) a bs" by (rule put_user_bytes [OF assms(1,3,2)])
  then show thesis using that [OF store_user_put [OF assms(1,2)]] pu by auto
qed

lemma store_bytes:
  "owned I P s \<Longrightarrow> \<forall>k < length bs. pg (a + word_of_nat k) \<in> P \<Longrightarrow> length bs < 18446744073709551616 \<Longrightarrow>
     \<exists>s'. store_user a bs s = Some s' \<and> owned I P s' \<and> has_bytes P s' a bs \<and> vm_pmm s' = vm_pmm s"
  by (meson store_owned)

section \<open>Files through system calls\<close>

lemma sys_fwrite_eq:
  assumes "owned I P (kvm k)" "has_bytes P (kvm k) (rdi f) (path @ [0])" "0 \<notin> set path" "length path < 128" "rdi f \<noteq> 0"
    and "has_bytes P (kvm k) (rsi f) buf" "rsi f \<noteq> 0" "length buf \<le> FILE_MAX" "rdx f = word_of_nat (length buf)" "\<not> vf_mounted (kn_fs k)"
  shows "sys_fwrite hw fuel f k = (let (r, m) = ram_fwrite (vf_ram (kn_fs k)) path buf in
    ret f (word_of_int r) (k\<lparr>kn_fs := (kn_fs k)\<lparr>vf_ram := m\<rparr>\<rparr>))"
proof -
  have l: "unat (rdx f) = length buf" "\<not> word_of_nat FILE_MAX < rdx f"
    using assms(8,9) by (simp_all add: FILE_MAX_def unat_of_nat word_less_nat_alt)
  show ?thesis
    using copy_str_owned [OF assms(1-5)] user_read_owned [OF assms(1,6)] assms(7,10) l
    by (simp add: sys_fwrite_def with_str_def fs_fwrite_def on_fs_def case_prod_unfold Let_def)
qed

lemma sys_fread_eq:
  assumes "owned I P (kvm k)" "has_bytes P (kvm k) (rdi f) (path @ [0])" "0 \<notin> set path" "length path < 128" "rdi f \<noteq> 0"
    and "rsi f \<noteq> 0" "rdx f \<le> 8192" "\<not> fat_mounted (vf_fat (kn_fs k))"
  shows "sys_fread hw fuel f k = (let (r, bs) = fs_fread_ram (vf_ram (kn_fs k)) path (unat (rdx f)) in put_buf f (rsi f) bs (word_of_int r) k)"
proof -
  have "\<not> 8192 < rdx f" using assms(7) by (simp add: not_less)
  then show ?thesis using copy_str_owned [OF assms(1-5)] assms(6,8)
    by (simp add: sys_fread_def with_str_def fs_fread_def on_fs_def case_prod_unfold Let_def)
qed

lemma ram_fwrite_code: "fst (ram_fwrite s path buf) \<in> {FS_OK, FS_BADPATH, FS_EXISTS, FS_FULL, FS_USAGE, FS_BADNAME, FS_RO}"
  by (simp add: ram_fwrite_def Let_def split: option.splits prod.splits)

lemma fs_code_word: "r \<in> {FS_OK, FS_BADPATH, FS_EXISTS, FS_FULL, FS_USAGE, FS_BADNAME, FS_RO} \<Longrightarrow> (word_of_int r :: 64 word) = 0 \<longleftrightarrow> r = FS_OK"
  by (auto simp: FS_OK_def FS_BADPATH_def FS_EXISTS_def FS_FULL_def FS_USAGE_def FS_BADNAME_def FS_RO_def)


section \<open>An example state\<close>

text \<open>One user page at 4 MB that holds a path and three bytes, and a kernel without a mounted disk.\<close>

definition page_vm :: vm where
  "page_vm = (let (f, q) = pmm_alloc_frame (vm_pmm boot_vm) in vmm_map 0x400000 f 7 (boot_vm\<lparr>vm_pmm := q\<rparr>))"

definition user_vm :: vm where
  "user_vm = put_user 0x400000 [47, 97, 0, 1, 2, 3] page_vm"

definition demo_kernel :: "sim kernel" where
  "demo_kernel = \<lparr>kn_vga = vga_boot (replicate 2000 0), kn_kbd = kbd_init, kn_fs = fs_unmount vfs0,
     kn_ex = \<lparr>ex_mods = [\<lparr>md_start = 0x200000, md_end = 0x20007A, md_name = cs ''init''\<rparr>], ex_vm = user_vm\<rparr>, kn_out = []\<rparr>"

definition frame0 :: syscall_frame where
  "frame0 = \<lparr>rax = 0, rdi = 0, rsi = 0, rdx = 0, r10 = 0, r8 = 0, r9 = 0, rip = 0, rflags = 0, rbx = 0, rbp = 0, r12 = 0, r13 = 0, r14 = 0, r15 = 0\<rparr>"

lemma page_addr: "n < 4096 \<Longrightarrow> pg (0x400000 + word_of_nat n) = 0x400000"
proof -
  assume n: "n < 4096"
  have "word_of_nat n = (word_of_nat n :: 64 word) AND 0xFFF"
    using n by (simp add: mask_consts take_bit_eq_mod word_unat_eq_iff unat_mod unat_of_nat flip: take_bit_eq_mask)
  moreover have "aligned 0x400000" by (simp add: aligned_def)
  ultimately show ?thesis using page_split(1) [of "0x400000" "word_of_nat n"] by metis
qed

lemma page_owned: "owned {} {0x400000} page_vm"
proof -
  have o: "owned {} {} boot_vm" using boot_inv by (simp add: owned_def)
  have c: "5 \<le> card (free_addrs (vm_pmm boot_vm))" using boot_free(2) by (simp add: boot_vm_def)
  have a: "aligned 0x400000" by (simp add: aligned_def)
  show ?thesis
  proof (rule owned_map [OF o a _ _ c, where fl = 7])
    fix f q assume "pmm_alloc_frame (vm_pmm boot_vm) = (f, q)" "owned {} {0x400000} (vmm_map 0x400000 f 7 (boot_vm\<lparr>vm_pmm := q\<rparr>))"
    then show ?thesis by (simp add: page_vm_def)
  qed simp_all
qed

lemma user_vm_facts: "owned {} {0x400000} user_vm" "has_bytes {0x400000} user_vm 0x400000 [47, 97, 0, 1, 2, 3]"
proof -
  have p: "\<forall>k < length [47, 97, 0, 1, 2, 3 :: byte]. pg (0x400000 + word_of_nat k) \<in> {0x400000}"
    using page_addr by (simp del: One_nat_def)
  note pu = put_user_ok [OF page_owned _ p, folded user_vm_def]
  show "owned {} {0x400000} user_vm" using pu by simp
  show "has_bytes {0x400000} user_vm 0x400000 [47, 97, 0, 1, 2, 3]"
    unfolding user_vm_def by (rule put_user_bytes [OF page_owned _ p]) simp
qed

lemma demo_bytes: "has_bytes {0x400000} user_vm 0x400000 ([slash, 97] @ [0])" "has_bytes {0x400000} user_vm 0x400003 [1, 2, 3]"
  using user_vm_facts(2) by (simp_all add: has_bytes_Cons add.assoc) (simp_all add: has_bytes_def user_bytes_def)

lemma demo_kernel_inv: "kernel_inv demo_kernel"
proof -
  have "vfs_inv vfs0" using ram_boot(1) by (simp add: vfs_inv_def vfs0_def sim_vol_def fat_mounted_def part_get_def)
  then have "vfs_inv (fs_unmount vfs0)" by (rule unmount_inv)
  moreover have "vga_inv (vga_boot (replicate 2000 0))" by (simp add: vga_inv_def vga_boot_def)
  ultimately show ?thesis by (simp add: kernel_inv_def demo_kernel_def kbd_inv_init cs_def ch_def)
qed


section \<open>Sessions\<close>

text \<open>
  The kernel as programs and the keyboard drive it: an interrupt may arrive whenever interrupts are enabled, a program makes calls with
  any registers, and between two calls it may change its memory in any way (an arbitrary new memory covers every program). A
  session ends with the first call that does not return to a program.
\<close>

inductive session :: "'d ata \<Rightarrow> 'd kernel \<Rightarrow> 'd kernel \<Rightarrow> bool" for hw where
  session_start: "session hw k k"
| session_key: "session hw k k1 \<Longrightarrow> session hw k (k1\<lparr>kn_kbd := fst (keyboard_handler sc (kn_kbd k1))\<rparr>)"
| session_user: "session hw k k1 \<Longrightarrow> session hw k (set_vm s k1)"
| session_call: "session hw k k1 \<Longrightarrow> syscall_dispatcher hw fuel f k1 = (out, k2) \<Longrightarrow> (\<exists>g. out = Back g) \<or> (\<exists>e sp. out = Enter e sp) \<Longrightarrow> session hw k k2"

lemma kernel_inv_key: "kernel_inv k \<Longrightarrow> kernel_inv (k\<lparr>kn_kbd := fst (keyboard_handler sc (kn_kbd k))\<rparr>)"
  using keyboard_handler_inv [of "kn_kbd k" sc] by (simp add: kernel_inv_def)

lemma kernel_inv_call: "kernel_inv k \<Longrightarrow> syscall_dispatcher hw fuel f k = (out, k') \<Longrightarrow> kernel_inv k'"
  using ok_dispatch [of k f hw fuel] by (simp only: ok_end_def snd_conv)

lemma session_inv: "session hw k k' \<Longrightarrow> kernel_inv k \<Longrightarrow> kernel_inv k'"
proof (induction rule: session.induct)
  case (session_user k k1 s)
  then show ?case by simp
qed (blast intro: kernel_inv_key kernel_inv_call)+

section \<open>Properties of the interface\<close>



text \<open>
  (C40) Addresses from programs are not checked: with an address in a page that user mode may not access, \<open>SYS_GETCWD\<close> writes
  there and reports success, so a program can change kernel memory.
\<close>

theorem user_pointers_unchecked:
  assumes "rax f = SYS_GETCWD" "2 \<le> rsi f" "rsi f \<le> 512" "rdi f \<noteq> 0" "\<not> vf_mounted (kn_fs k)" "f_cwd (vf_ram (kn_fs k)) = 0"
    and "owned {} {pg (rdi f)} (kvm k)" "pg (rdi f + 1) = pg (rdi f)" "leaf (kvm k) (rdi f) = Some (b, fl)" "fl AND PTE_U = 0"
  shows "\<exists>k'. syscall_dispatcher hw fuel f k = (Back (f\<lparr>rax := 1\<rparr>), k') \<and> user_bytes (kvm k') (rdi f) 2 = [slash, 0]"
proof -
  have "\<forall>j < length [slash, 0]. pg (rdi f + word_of_nat j) \<in> {pg (rdi f)}" using assms(8) by (simp add: less_Suc_eq)
  then obtain s' where s': "store_user (rdi f) [slash, 0] (kvm k) = Some s'" "has_bytes {pg (rdi f)} s' (rdi f) [slash, 0]"
    using store_bytes [OF assms(7), of "[slash, 0]" "rdi f"] by fastforce
  have c: "\<not> 512 < rsi f" "\<not> rsi f < 2" "\<not> unat (rsi f) < 2" using assms(2,3) by (simp_all add: not_less word_le_nat_alt)
  have "syscall_dispatcher hw fuel f k = put_buf f (rdi f) [slash, 0] 1 k"
    using assms(1,4-6) c by (simp add: syscall_dispatcher_def sys_getcwd_def fs_getcwd_def ram_getcwd_def)
  then have "syscall_dispatcher hw fuel f k = (Back (f\<lparr>rax := 1\<rparr>), set_vm s' k)" unfolding put_buf_def s'(1) by (simp add: ret_def)
  then show ?thesis using s'(2) by (simp add: set_vm_def has_bytes_def numeral_2_eq_2)
qed

lemma identity_owned:
  assumes "pt_inv s" "aligned a" "a < 0x8000000000" "a \<noteq> 0" "vmm_phys s a = a" "a \<notin> tabs s" "a \<notin> free_addrs (vm_pmm s)"
  shows "owned {} {a} s"
  using assms by (simp add: owned_def)

theorem user_pointers_unchecked_witness:
  "\<exists>k'. syscall_dispatcher sim_hw 5 (frame0\<lparr>rax := 10, rdi := 0x101000, rsi := 16\<rparr>) (demo_kernel\<lparr>kn_ex := \<lparr>ex_mods = [], ex_vm = boot_vm\<rparr>\<rparr>)
     = (Back (frame0\<lparr>rax := 1, rdi := 0x101000, rsi := 16\<rparr>), k') \<and> leaf boot_vm 0x101000 = Some (0x101000, PTE_P OR PTE_W)"
proof -
  let ?f = "frame0\<lparr>rax := 10, rdi := 0x101000, rsi := 16\<rparr>" and ?k = "demo_kernel\<lparr>kn_ex := \<lparr>ex_mods = [], ex_vm = boot_vm\<rparr>\<rparr>"
  have l: "leaf boot_vm 0x101000 = Some (0x101000, 3)" using boot_leaf(1) [of "0x101000"] by simp
  then have ph: "vmm_phys boot_vm 0x101000 = 0x101000" by (simp add: vmm_phys_leaf)
  have nf: "(0x101000 :: 64 word) \<notin> free_addrs (vm_pmm boot_vm)"
  proof
    assume "(0x101000 :: 64 word) \<in> free_addrs (vm_pmm boot_vm)"
    then obtain n where "258 \<le> n" "n < 512" "(0x101000 :: 64 word) = word_of_nat n * FRAME_SIZE" by (auto simp: boot_free(1) boot_vm_def)
    then show False using frame_addr [of n] by simp
  qed
  have nt: "0x101000 \<notin> tabs boot_vm" using boot_paths unfolding tabs_def by fastforce
  have "aligned 0x101000" by (simp add: aligned_def)
  then have o: "owned {} {0x101000} boot_vm" using identity_owned [OF boot_inv _ _ _ ph nt nf] by simp
  have f: "rax ?f = SYS_GETCWD" "rdi ?f = 0x101000" "2 \<le> rsi ?f" "rsi ?f \<le> 512" by (simp_all add: frame0_def)
  have k: "kvm ?k = boot_vm" "\<not> vf_mounted (kn_fs ?k)" "f_cwd (vf_ram (kn_fs ?k)) = 0"
    by (simp_all add: demo_kernel_def fs_unmount_def vfs0_def ram_boot_def fs_init_def Let_def)
  have "\<exists>k'. syscall_dispatcher sim_hw 5 ?f ?k = (Back (?f\<lparr>rax := 1\<rparr>), k') \<and> user_bytes (kvm k') (rdi ?f) 2 = [slash, 0]"
    by (rule user_pointers_unchecked [where b = "0x101000" and fl = 3]) (use f k o l in simp_all)
  moreover have "?f\<lparr>rax := 1\<rparr> = frame0\<lparr>rax := 1, rdi := 0x101000, rsi := 16\<rparr>" by (simp add: frame0_def)
  ultimately show ?thesis using l by auto
qed


text \<open>The image's own bytes spell a name: the module of the example is registered under it.\<close>

definition magic_name :: cstr where
  "magic_name = [0x45, 0x4C, 0x46, 2, 1]"

definition run_kernel :: "sim kernel" where
  "run_kernel = demo_kernel\<lparr>kn_ex := \<lparr>ex_mods = [\<lparr>md_start = 0x200000, md_end = 0x20007A, md_name = magic_name\<rparr>], ex_vm = demo_vm\<rparr>\<rparr>"

lemma demo_leaf: "leaf demo_vm 0x200000 = Some (0x200000, 3)"
proof -
  note d = poke_bytes [OF demo_base(1,2) boot_inv, of 122 demo_elf, folded demo_vm_def]
  have "leaf demo_vm 0x200000 = leaf boot_vm 0x200000" using leaf_cong [of demo_vm boot_vm "0x200000"] d by auto
  then show ?thesis using boot_leaf(1) [of "0x200000"] by simp
qed

lemma demo_owned: "owned {} {0x200000} demo_vm"
proof (rule identity_owned [OF demo_facts(1) demo_base(1)])
  show "vmm_phys demo_vm 0x200000 = 0x200000" by (simp add: vmm_phys_leaf demo_leaf)
qed (use demo_base(2,3) demo_facts(2,3) in simp_all)

lemma demo_page: "k < 122 \<Longrightarrow> pg (0x200000 + word_of_nat k) = 0x200000" "k < 122 \<Longrightarrow> ub demo_vm (0x200000 + word_of_nat k) = demo_elf ! k"
proof -
  assume k: "k < 122"
  show p: "pg (0x200000 + word_of_nat k) = 0x200000" using demo_img k by (auto simp: img_frames_def set_eq_iff image_iff)
  have nz: "vmm_phys demo_vm (pg (0x200000 + word_of_nat k)) \<noteq> 0" unfolding p by (simp add: vmm_phys_leaf demo_leaf)
  have "vmm_phys demo_vm (0x200000 + word_of_nat k) = 0x200000 + ((0x200000 + word_of_nat k) AND 0xFFF)"
    using phys_pg(2) [OF nz] unfolding p by (simp add: vmm_phys_leaf demo_leaf)
  also have "\<dots> = 0x200000 + word_of_nat k" using pg_join [of "0x200000 + word_of_nat k"] unfolding p .
  finally show "ub demo_vm (0x200000 + word_of_nat k) = demo_elf ! k" using demo_facts(4) [OF k] by (simp add: ub_def)
qed

lemma demo_name: "has_bytes {0x200000} demo_vm 0x200001 (magic_name @ [0])"
proof -
  have a: "0x200001 + word_of_nat j = (0x200000 + word_of_nat (Suc j) :: 64 word)" for j by simp
  have "\<forall>j < 6. pg (0x200001 + word_of_nat j) = 0x200000 \<and> ub demo_vm (0x200001 + word_of_nat j) = (magic_name @ [0]) ! j"
  proof (intro allI impI)
    fix j :: nat assume j: "j < 6"
    have "demo_elf ! Suc j = (magic_name @ [0]) ! j" using j by (auto simp: demo_elf_def magic_name_def less_Suc_eq numeral_eq_Suc)
    then show "pg (0x200001 + word_of_nat j) = 0x200000 \<and> ub demo_vm (0x200001 + word_of_nat j) = (magic_name @ [0]) ! j"
      unfolding a using demo_page [of "Suc j"] j by simp
  qed
  moreover have "length (magic_name @ [0]) = 6" by (simp add: magic_name_def)
  ultimately show ?thesis unfolding has_bytes_def user_bytes_def by (auto intro!: nth_equalityI)
qed


section \<open>Text in buffers\<close>

lemma has_bytes_append: "has_bytes P s a (xs @ ys) \<longleftrightarrow> has_bytes P s a xs \<and> has_bytes P s (a + word_of_nat (length xs)) ys"
proof (induction xs arbitrary: a)
  case Nil
  have "has_bytes P s a []" by (simp add: has_bytes_def user_bytes_def)
  then show ?case by simp
next
  case (Cons x xs)
  then show ?case using Cons [of "a + 1"] by (simp add: has_bytes_Cons add.assoc)
qed

lemma has_bytes_cong:
  assumes "has_bytes P s a bs" "\<And>j. j < length bs \<Longrightarrow> ub s' (a + word_of_nat j) = ub s (a + word_of_nat j)"
  shows "has_bytes P s' a bs"
proof -
  have "user_bytes s' a (length bs) = user_bytes s a (length bs)" using assms(2) by (simp add: user_bytes_def)
  then show ?thesis using assms(1) by (simp add: has_bytes_def)
qed

text \<open>One more byte behind the text that is already in the buffer.\<close>

lemma store_snoc:
  assumes "owned I P s" "has_bytes P s buf out" "pg (buf + word_of_nat (length out)) \<in> P" "length out < 4096"
  shows "\<exists>s'. store_user (buf + word_of_nat (length out)) [c] s = Some s' \<and> owned I P s' \<and> has_bytes P s' buf (out @ [c]) \<and> vm_pmm s' = vm_pmm s"
proof -
  let ?a = "buf + word_of_nat (length out)"
  have p: "\<forall>k < length [c]. pg (?a + word_of_nat k) \<in> P" using assms(3) by simp
  obtain s' where s': "store_user ?a [c] s = Some s'" "owned I P s'" "has_bytes P s' ?a [c]"
    "\<And>w. pg w \<in> P \<Longrightarrow> (\<forall>k < length [c]. w \<noteq> ?a + word_of_nat k) \<Longrightarrow> ub s' w = ub s w" "vm_pmm s' = vm_pmm s"
    by (rule store_owned [OF assms(1) p]) simp_all
  have "has_bytes P s' buf out"
  proof (rule has_bytes_cong [OF assms(2)])
    fix j assume j: "j < length out"
    have "buf + word_of_nat j \<noteq> ?a" using add_of_nat_inj [of j 4096 "length out" buf] j assms(4) by auto
    then show "ub s' (buf + word_of_nat j) = ub s (buf + word_of_nat j)"
      using s'(4) j assms(2) by (simp add: has_bytes_def)
  qed
  then show ?thesis using s' by (simp add: has_bytes_append)
qed

lemma emit_str_text:
  assumes "unat cap \<le> 512" "\<forall>j < unat cap. pg (buf + word_of_nat j) \<in> P"
  shows "owned I P s \<Longrightarrow> has_bytes P s buf out \<Longrightarrow> length out \<le> unat cap \<Longrightarrow>
    \<exists>s'. owned I P s' \<and> vm_pmm s' = vm_pmm s \<and>
      (if length out + length str \<le> unat cap
       then emit_str buf (word_of_nat (length out)) cap str s = Some (word_of_nat (length out + length str), s') \<and> has_bytes P s' buf (out @ str)
       else emit_str buf (word_of_nat (length out)) cap str s = Some (- 1, s'))"
proof (induction str arbitrary: s out)
  case (Cons c str)
  have u: "unat (word_of_nat (length out) :: 64 word) = length out" using Cons.prems(3) assms(1) by (simp add: unat_of_nat)
  show ?case
  proof (cases "length out = unat cap")
    case True
    then have "cap \<le> word_of_nat (length out)" using u by (simp add: word_le_nat_alt)
    then show ?thesis using True Cons.prems(1) by auto
  next
    case False
    then have lt: "length out < unat cap" "\<not> cap \<le> word_of_nat (length out)" using Cons.prems(3) u by (simp_all add: word_le_nat_alt)
    obtain s1 where s1: "store_user (buf + word_of_nat (length out)) [c] s = Some s1" "owned I P s1" "has_bytes P s1 buf (out @ [c])" "vm_pmm s1 = vm_pmm s"
      using store_snoc [OF Cons.prems(1,2), of c] lt(1) assms by auto
    have w: "word_of_nat (length out) + 1 = (word_of_nat (length (out @ [c])) :: 64 word)" by simp
    have "emit_str buf (word_of_nat (length out)) cap (c # str) s = emit_str buf (word_of_nat (length (out @ [c]))) cap str s1"
      using lt(2) s1(1) unfolding w [symmetric] by (simp del: store_user.simps)
    moreover have "length (out @ [c]) \<le> unat cap" using lt(1) by simp
    note IH = Cons.IH [OF s1(2,3) this]
    ultimately show ?thesis using IH s1(4) by (auto simp del: emit_str.simps)
  qed
qed auto

lemma emit_str_stuck: "emit_str buf (- 1) cap str s = Some (- 1, s)"
  by (cases str) (simp_all add: word_order.extremum)

lemma emit_tmp_value: "foldr (\<lambda>d n. 10 * n + (unat d - 48)) (emit_tmp v) 0 = v"
proof (induction v rule: emit_tmp.induct)
  case (1 v)
  have d: "unat (48 + word_of_nat (v mod 10) :: byte) - 48 = v mod 10"
    by (simp add: unat_word_ariths unat_of_nat mod_less)
  show ?case
  proof (cases "v = 0")
    case False
    then have "foldr (\<lambda>d n. 10 * n + (unat d - 48)) (emit_tmp v) 0 = 10 * (v div 10) + v mod 10"
      using 1 d by (subst emit_tmp.simps) simp
    then show ?thesis by simp
  qed (simp add: emit_tmp.simps)
qed

text \<open>The number a decimal text denotes.\<close>

definition dec_value :: "byte list \<Rightarrow> nat" where
  "dec_value ds = foldl (\<lambda>n d. 10 * n + (unat d - 48)) 0 ds"

lemma emit_digits_value: "dec_value (emit_digits v) = unat v"
  using emit_tmp_value [of "unat v"] by (auto simp: dec_value_def emit_digits_def foldl_conv_foldr)

definition mem_text :: "pmm \<Rightarrow> byte list" where
  "mem_text q = cs ''free: '' @ emit_digits (pmm_free_kb q) @ cs '' KB total: '' @ emit_digits (pmm_total_kb q) @ cs '' KB'' @ [nl]"

text \<open>Emitting two texts one after the other is emitting them at once, on overflow too.\<close>

lemma emit_str_append: "emit_str buf pos cap (xs @ ys) s = emit_str buf pos cap xs s \<bind> (\<lambda>(p, s'). emit_str buf p cap ys s')"
proof (induction xs arbitrary: pos s)
  case (Cons c xs)
  then have "emit_str buf (pos + 1) cap (xs @ ys) = (\<lambda>s. emit_str buf (pos + 1) cap xs s \<bind> (\<lambda>(p, s'). emit_str buf p cap ys s'))" by blast
  then show ?case by (simp add: emit_str_stuck bind_assoc del: store_user.simps)
qed simp

lemma meminfo_text:
  "rdi f \<noteq> 0 \<Longrightarrow> rsi f \<le> 256 \<Longrightarrow> 32 \<le> rsi f \<Longrightarrow>
     sys_meminfo f k = emitted f (emit_str (rdi f) 0 (rsi f) (mem_text (vm_pmm (kvm k))) (kvm k)) k"
  by (simp add: sys_meminfo_def Let_def mem_text_def emit_dec_def emit_str_append case_prod_unfold bind_assoc not_less [symmetric])

text \<open>
  (C23) The memory report: for a buffer of the caller of an accepted size, \<open>SYS_MEMINFO\<close> writes the text with the allocator's two
  counters in decimal and returns its length when it fits, and returns \<open>E_INVAL\<close> when it does not; the allocator is unchanged.
\<close>

theorem meminfo_reports:
  assumes "rax f = SYS_MEMINFO" "rdi f \<noteq> 0" "rsi f \<le> 256" "32 \<le> rsi f" "owned I P (kvm k)" "\<forall>j < unat (rsi f). pg (rdi f + word_of_nat j) \<in> P"
  shows "\<exists>s'. let text = mem_text (vm_pmm (kvm k)) in
    syscall_dispatcher hw fuel f k = (Back (f\<lparr>rax := if length text \<le> unat (rsi f) then word_of_nat (length text) else E_INVAL\<rparr>), set_vm s' k) \<and>
    (length text \<le> unat (rsi f) \<longrightarrow> user_bytes s' (rdi f) (length text) = text) \<and> vm_pmm s' = vm_pmm (kvm k) \<and>
    dec_value (emit_digits (pmm_free_kb (vm_pmm s'))) = unat (pmm_free_kb (vm_pmm s'))"
proof -
  let ?t = "mem_text (vm_pmm (kvm k))"
  have c: "unat (rsi f) \<le> 512" "unat (rsi f) \<le> 256" using assms(3) by (simp_all add: word_le_nat_alt)
  have "has_bytes P (kvm k) (rdi f) []" by (simp add: has_bytes_def user_bytes_def)
  from emit_str_text [OF c(1) assms(6,5) this, of ?t]
  have "\<exists>s'. vm_pmm s' = vm_pmm (kvm k) \<and>
      (if length ?t \<le> unat (rsi f) then emit_str (rdi f) 0 (rsi f) ?t (kvm k) = Some (word_of_nat (length ?t), s') \<and> has_bytes P s' (rdi f) ?t
       else emit_str (rdi f) 0 (rsi f) ?t (kvm k) = Some (- 1, s'))" by (auto split: if_splits)
  then obtain s' where s': "vm_pmm s' = vm_pmm (kvm k)"
    "if length ?t \<le> unat (rsi f) then emit_str (rdi f) 0 (rsi f) ?t (kvm k) = Some (word_of_nat (length ?t), s') \<and> has_bytes P s' (rdi f) ?t
     else emit_str (rdi f) 0 (rsi f) ?t (kvm k) = Some (- 1, s')" by (elim exE conjE)
  have d: "syscall_dispatcher hw fuel f k = emitted f (emit_str (rdi f) 0 (rsi f) ?t (kvm k)) k"
    using assms(1) meminfo_text [OF assms(2-4)] by (simp add: syscall_dispatcher_def)
  have "(word_of_nat (length ?t) :: 64 word) \<noteq> - 1" if "length ?t \<le> unat (rsi f)"
  proof
    assume "(word_of_nat (length ?t) :: 64 word) = - 1"
    then have "unat (word_of_nat (length ?t) :: 64 word) = 18446744073709551615"
      by (simp only:) (simp add: unsigned_minus_1_eq_mask mask_eq_exp_minus_1)
    then show False using that c(2) by (simp add: unat_of_nat)
  qed
  then have "syscall_dispatcher hw fuel f k = (Back (f\<lparr>rax := if length ?t \<le> unat (rsi f) then word_of_nat (length ?t) else E_INVAL\<rparr>), set_vm s' k)"
    using s'(2) unfolding d by (auto simp: emitted_def ret_def split: if_splits)
  then show ?thesis using s' emit_digits_value unfolding Let_def has_bytes_def by (intro exI [of _ s']) (auto split: if_splits)
qed

theorem meminfo_reports_witness:
  "\<exists>s'. syscall_dispatcher sim_hw 5 (frame0\<lparr>rax := 12, rdi := 0x400000, rsi := 256\<rparr>) demo_kernel =
     (Back (frame0\<lparr>rax := if length (mem_text (vm_pmm user_vm)) \<le> 256 then word_of_nat (length (mem_text (vm_pmm user_vm))) else - 22,
        rdi := 0x400000, rsi := 256\<rparr>), set_vm s' demo_kernel)"
proof -
  let ?f = "frame0\<lparr>rax := 12, rdi := 0x400000, rsi := 256\<rparr>"
  have k: "kvm demo_kernel = user_vm" by (simp add: demo_kernel_def)
  have p: "\<forall>j < unat (256 :: 64 word). pg (0x400000 + word_of_nat j) \<in> {0x400000}" using page_addr by simp
  have "\<exists>s'. let text = mem_text (vm_pmm (kvm demo_kernel)) in
    syscall_dispatcher sim_hw 5 ?f demo_kernel = (Back (?f\<lparr>rax := if length text \<le> unat (rsi ?f) then word_of_nat (length text) else E_INVAL\<rparr>), set_vm s' demo_kernel) \<and>
    (length text \<le> unat (rsi ?f) \<longrightarrow> user_bytes s' (rdi ?f) (length text) = text) \<and> vm_pmm s' = vm_pmm (kvm demo_kernel) \<and>
    dec_value (emit_digits (pmm_free_kb (vm_pmm s'))) = unat (pmm_free_kb (vm_pmm s'))"
    by (rule meminfo_reports [where I = "{}" and P = "{0x400000}"]) (use p k user_vm_facts(1) in \<open>simp_all add: frame0_def\<close>)
  then show ?thesis unfolding Let_def k by (auto simp: frame0_def)
qed

text \<open>
  The overflow mark is lost: after a text that did not fit, the position is -1, and \<open>emit_hex\<close> adds 2 to it before the comparison, finds room,
  writes the byte in front of the buffer and continues at position 1 as if nothing had happened.
\<close>

theorem emit_hex_forgets_overflow:
  assumes "owned I P s" "pg (buf - 1) \<in> P" "pg buf \<in> P" "1 \<le> cap"
  shows "\<exists>s'. emit_hex buf (- 1) cap v s = Some (1, s') \<and> ub s' (buf - 1) = emit_nibble (drop_bit 4 v AND 0xF) \<and> ub s' buf = emit_nibble (v AND 0xF)"
proof -
  let ?c = "emit_nibble (drop_bit 4 v AND 0xF)" and ?d = "emit_nibble (v AND 0xF)"
  have p1: "\<forall>j < length [?c]. pg (buf + - 1 + word_of_nat j) \<in> P" and p2: "\<forall>j < length [?d]. pg (buf + (- 1 + 1) + word_of_nat j) \<in> P"
    using assms(2,3) by simp_all
  obtain s1 where s1: "store_user (buf + - 1) [?c] s = Some s1" "owned I P s1" "has_bytes P s1 (buf + - 1) [?c]"
    using store_bytes [OF assms(1) p1] by fastforce
  obtain s2 where s2: "store_user (buf + (- 1 + 1)) [?d] s1 = Some s2" "has_bytes P s2 (buf + (- 1 + 1)) [?d]"
    "\<And>w. pg w \<in> P \<Longrightarrow> (\<forall>j < length [?d]. w \<noteq> buf + (- 1 + 1) + word_of_nat j) \<Longrightarrow> ub s2 w = ub s1 w"
    by (rule store_owned [OF s1(2) p2]) simp_all
  have "(- 1 + 2 :: 64 word) = 1" by simp
  then have "\<not> cap < - 1 + 2" using assms(4) by (simp only: not_less)
  then have "emit_hex buf (- 1) cap v s = Some (1, s2)" unfolding emit_hex_def using s1(1) s2(1) by (simp del: store_user.simps)
  moreover have "ub s2 (buf - 1) = ?c" using s2(3) [of "buf - 1"] assms(2) s1(3) by (simp add: has_bytes_Cons)
  moreover have "ub s2 buf = ?d" using s2(2) by (simp add: has_bytes_Cons)
  ultimately show ?thesis by blast
qed

theorem emit_hex_forgets_overflow_witness:
  "\<exists>s'. emit_hex 0x400001 (- 1) 16 0x0C user_vm = Some (1, s') \<and> ub s' 0x400000 = 48"
proof -
  have "\<exists>s'. emit_hex 0x400001 (- 1) 16 0x0C user_vm = Some (1, s') \<and> ub s' (0x400001 - 1) = emit_nibble (drop_bit 4 0x0C AND 0xF) \<and> ub s' 0x400001 = emit_nibble (0x0C AND 0xF)"
    by (rule emit_hex_forgets_overflow [OF user_vm_facts(1)]) simp_all
  moreover have "emit_nibble (drop_bit 4 0x0C AND 0xF) = 48" by (simp add: emit_nibble_def cs_def ch_def)
  ultimately show ?thesis by auto
qed

end
