(* ===== verification/Pci.thy ===== *)
theory Pci
  imports Vga
begin

text \<open>
  PCI configuration space, \<^verbatim>\<open>drivers/pci/pci.c\<close>, and the search for a network controller,
  \<^verbatim>\<open>drivers/nic/nic.c\<close>. The two ports of configuration mechanism 1 are a parameter: port writes and reads
  on a device state. Its documented behaviour is the locale \<open>pci_bus\<close>: the address port selects a register,
  the data port reads it or writes it.
\<close>

section \<open>Ports and registers\<close>

record 'd pci =
  pc_outl :: "port \<Rightarrow> 32 word \<Rightarrow> 'd \<Rightarrow> 'd"
  pc_inl :: "port \<Rightarrow> 'd \<Rightarrow> 32 word \<times> 'd"

abbreviation CONFIG_ADDRESS :: port where "CONFIG_ADDRESS \<equiv> 0xCF8"
abbreviation CONFIG_DATA :: port where "CONFIG_DATA \<equiv> 0xCFC"
abbreviation VENDOR_ID :: byte where "VENDOR_ID \<equiv> 0x00"
abbreviation DEVICE_ID :: byte where "DEVICE_ID \<equiv> 0x02"
abbreviation PCI_COMMAND :: byte where "PCI_COMMAND \<equiv> 0x04"
abbreviation BAR0 :: byte where "BAR0 \<equiv> 0x10"
abbreviation COMMAND_BUS_MASTER :: "16 word" where "COMMAND_BUS_MASTER \<equiv> 0x0004"

record device_s =
  dv_bus :: byte
  dv_slot :: byte
  dv_func :: byte
  dv_vendor :: "16 word"
  dv_device :: "16 word"
  dv_class :: byte
  dv_subclass :: byte
  dv_bar :: "32 word list"

definition make_address :: "byte \<Rightarrow> byte \<Rightarrow> byte \<Rightarrow> byte \<Rightarrow> 32 word" where
  "make_address bus slot func offset =
     0x80000000 OR push_bit 16 (ucast bus) OR push_bit 11 (ucast slot) OR push_bit 8 (ucast func)
       OR ucast (offset AND 0xFC)"

definition config_read32 :: "'d pci \<Rightarrow> byte \<Rightarrow> byte \<Rightarrow> byte \<Rightarrow> byte \<Rightarrow> 'd \<Rightarrow> 32 word \<times> 'd" where
  "config_read32 hw bus slot func offset d =
     pc_inl hw CONFIG_DATA (pc_outl hw CONFIG_ADDRESS (make_address bus slot func offset) d)"

definition half_shift :: "byte \<Rightarrow> nat" where
  "half_shift offset = unat ((offset AND 2) * 8)"

definition config_read16 :: "'d pci \<Rightarrow> byte \<Rightarrow> byte \<Rightarrow> byte \<Rightarrow> byte \<Rightarrow> 'd \<Rightarrow> 16 word \<times> 'd" where
  "config_read16 hw bus slot func offset d =
     (let (value, d1) = config_read32 hw bus slot func offset d
      in (ucast (drop_bit (half_shift offset) value AND 0xFFFF), d1))"

definition config_write32 :: "'d pci \<Rightarrow> byte \<Rightarrow> byte \<Rightarrow> byte \<Rightarrow> byte \<Rightarrow> 32 word \<Rightarrow> 'd \<Rightarrow> 'd" where
  "config_write32 hw bus slot func offset v d =
     pc_outl hw CONFIG_DATA v (pc_outl hw CONFIG_ADDRESS (make_address bus slot func offset) d)"

definition config_write16 :: "'d pci \<Rightarrow> byte \<Rightarrow> byte \<Rightarrow> byte \<Rightarrow> byte \<Rightarrow> 16 word \<Rightarrow> 'd \<Rightarrow> 'd" where
  "config_write16 hw bus slot func offset v d =
     (let address = make_address bus slot func offset;
          (cur, d1) = pc_inl hw CONFIG_DATA (pc_outl hw CONFIG_ADDRESS address d);
          cur = cur AND NOT (push_bit (half_shift offset) 0xFFFF);
          cur = cur OR push_bit (half_shift offset) (ucast v)
      in pc_outl hw CONFIG_DATA cur (pc_outl hw CONFIG_ADDRESS address d1))"

definition enable_bus_mastering :: "'d pci \<Rightarrow> byte \<Rightarrow> byte \<Rightarrow> byte \<Rightarrow> 'd \<Rightarrow> 'd" where
  "enable_bus_mastering hw bus slot func d =
     (let (command, d1) = config_read16 hw bus slot func PCI_COMMAND d
      in config_write16 hw bus slot func PCI_COMMAND (command OR COMMAND_BUS_MASTER) d1)"

section \<open>Enumeration\<close>

text \<open>The three nested loops visit the functions of all buses in this order.\<close>

definition all_funcs :: "(byte \<times> byte \<times> byte) list" where
  "all_funcs = map (\<lambda>(b, s, f). (word_of_nat b, word_of_nat s, word_of_nat f))
     (List.product [0..<256] (List.product [0..<32] [0..<8]))"

text \<open>Reading the six base address registers; \<open>off i\<close> is the offset the loop passes for \<open>bar[i]\<close>.\<close>

fun read_bars :: "'d pci \<Rightarrow> byte \<Rightarrow> byte \<Rightarrow> byte \<Rightarrow> byte list \<Rightarrow> 'd \<Rightarrow> 32 word list \<times> 'd" where
  "read_bars hw b s f [] d = ([], d)"
| "read_bars hw b s f (off # offs) d =
     (let (v, d1) = config_read32 hw b s f off d; (vs, d2) = read_bars hw b s f offs d1 in (v # vs, d2))"

fun find_device_in :: "'d pci \<Rightarrow> 16 word \<Rightarrow> 16 word \<Rightarrow> (byte \<times> byte \<times> byte) list \<Rightarrow> 'd \<Rightarrow> device_s option \<times> 'd" where
  "find_device_in hw vid did [] d = (None, d)"
| "find_device_in hw vid did ((b, s, f) # fs) d =
     (let (vendor, d1) = config_read16 hw b s f VENDOR_ID d in
      if vendor = 0xFFFF then find_device_in hw vid did fs d1
      else
        let (dev, d2) = config_read16 hw b s f DEVICE_ID d1 in
        if vendor \<noteq> vid \<or> dev \<noteq> did then find_device_in hw vid did fs d2
        else
          let (dev2, d3) = config_read16 hw b s f DEVICE_ID d2;
              (class_reg, d4) = config_read32 hw b s f 0x08 d3;
              (bars, d5) = read_bars hw b s f (map (\<lambda>i. BAR0 + word_of_nat (i * 4)) [0..<6]) d4
          in (Some \<lparr>dv_bus = b, dv_slot = s, dv_func = f, dv_vendor = vendor, dv_device = dev2,
                dv_class = ucast (drop_bit 24 class_reg AND 0xFF), dv_subclass = ucast (drop_bit 16 class_reg AND 0xFF),
                dv_bar = bars\<rparr>, d5))"

definition find_device :: "'d pci \<Rightarrow> 16 word \<Rightarrow> 16 word \<Rightarrow> 'd \<Rightarrow> device_s option \<times> 'd" where
  "find_device hw vid did d = find_device_in hw vid did all_funcs d"

text \<open>
  \<open>find_nic\<close> fills the caller's record, which is not initialised: the argument \<open>dev0\<close> is what it held,
  and \<open>subclass\<close> keeps that value.
\<close>

fun find_nic_in :: "'d pci \<Rightarrow> device_s \<Rightarrow> (byte \<times> byte \<times> byte) list \<Rightarrow> 'd \<Rightarrow> device_s option \<times> 'd" where
  "find_nic_in hw dev0 [] d = (None, d)"
| "find_nic_in hw dev0 ((b, s, f) # fs) d =
     (let (vendor, d1) = config_read16 hw b s f VENDOR_ID d in
      if vendor = 0xFFFF then find_nic_in hw dev0 fs d1
      else
        let (class_reg, d2) = config_read32 hw b s f 0x08 d1;
            subclass = (ucast (drop_bit 16 class_reg AND 0xFF) :: byte);
            class_code = (ucast (drop_bit 24 class_reg AND 0xFF) :: byte) in
        if class_code \<noteq> 0x02 \<or> subclass \<noteq> 0x00 then find_nic_in hw dev0 fs d2
        else
          let (dev, d3) = config_read16 hw b s f DEVICE_ID d2;
              (bars, d4) = read_bars hw b s f (map (\<lambda>i. BAR0 + word_of_nat (i + 4)) [0..<6]) d3
          in (Some (dev0\<lparr>dv_bus := b, dv_slot := s, dv_func := f, dv_vendor := vendor, dv_device := dev,
                dv_class := class_code, dv_bar := bars\<rparr>), d4))"

definition find_nic :: "'d pci \<Rightarrow> device_s \<Rightarrow> 'd \<Rightarrow> device_s option \<times> 'd" where
  "find_nic hw dev0 d = find_nic_in hw dev0 all_funcs d"

text \<open>The text \<open>pci_scan\<close> prints for one function, and the scan.\<close>

definition hex_digit :: "nat \<Rightarrow> byte" where
  "hex_digit n = cs ''0123456789ABCDEF'' ! n"

definition print_hex8 :: "byte \<Rightarrow> cstr" where
  "print_hex8 v = [hex_digit (unat (drop_bit 4 v AND 0xF)), hex_digit (unat (v AND 0xF))]"

definition print_hex16 :: "16 word \<Rightarrow> cstr" where
  "print_hex16 v = print_hex8 (ucast (drop_bit 8 v)) @ print_hex8 (ucast v)"

fun pci_scan_in :: "'d pci \<Rightarrow> (byte \<times> byte \<times> byte) list \<Rightarrow> vga \<Rightarrow> 'd \<Rightarrow> vga \<times> 'd" where
  "pci_scan_in hw [] t d = (t, d)"
| "pci_scan_in hw ((b, s, f) # fs) t d =
     (let (vendor, d1) = config_read16 hw b s f VENDOR_ID d in
      if vendor = 0xFFFF then pci_scan_in hw fs t d1
      else
        let (dev, d2) = config_read16 hw b s f DEVICE_ID d1;
            t1 = fold term_puts [cs ''PCI '', print_hex8 b, cs '':'', print_hex8 s, cs ''.'', print_hex8 f,
                   cs '' Vendor='', print_hex16 vendor, cs '' Device='', print_hex16 dev, [10]] t
        in pci_scan_in hw fs t1 d2)"

definition pci_scan :: "'d pci \<Rightarrow> vga \<Rightarrow> 'd \<Rightarrow> vga \<times> 'd" where
  "pci_scan hw t d =
     (let (t1, d1) = pci_scan_in hw all_funcs t d in (term_puts (cs ''PCI scan complete.'' @ [10]) t1, d1))"

section \<open>The bus\<close>

text \<open>
  Configuration mechanism 1: the address port latches the register, reading the data port returns
  its value, writing it changes that register alone, to a value that depends on the register
  (some bits are read-only).
\<close>

locale pci_bus =
  fixes hw :: "'d pci"
    and cfg :: "'d \<Rightarrow> 32 word \<Rightarrow> 32 word"
    and sel :: "'d \<Rightarrow> 32 word"
    and upd :: "32 word \<Rightarrow> 32 word \<Rightarrow> 32 word \<Rightarrow> 32 word"
  assumes select: "sel (pc_outl hw CONFIG_ADDRESS a d) = a" "cfg (pc_outl hw CONFIG_ADDRESS a d) = cfg d"
    and data_in: "fst (pc_inl hw CONFIG_DATA d) = cfg d (sel d)" "cfg (snd (pc_inl hw CONFIG_DATA d)) = cfg d"
    and data_out: "cfg (pc_outl hw CONFIG_DATA v d) = (cfg d)(sel d := upd (sel d) (cfg d (sel d)) v)"
begin

lemma read32: "fst (config_read32 hw b s f off d) = cfg d (make_address b s f off)"
  "cfg (snd (config_read32 hw b s f off d)) = cfg d"
  by (simp_all add: config_read32_def data_in select)

lemma read16: "fst (config_read16 hw b s f off d) = ucast (drop_bit (half_shift off) (cfg d (make_address b s f off)) AND 0xFFFF)"
  "cfg (snd (config_read16 hw b s f off d)) = cfg d"
  by (simp_all add: config_read16_def read32 case_prod_unfold)

lemma write16: "cfg (config_write16 hw b s f off v d) =
    (let a = make_address b s f off in
     (cfg d)(a := upd a (cfg d a) (cfg d a AND NOT (push_bit (half_shift off) 0xFFFF) OR push_bit (half_shift off) (ucast v))))"
  by (simp add: config_write16_def Let_def case_prod_unfold data_out data_in select)

lemma bars: "fst (read_bars hw b s f offs d) = map (\<lambda>off. cfg d (make_address b s f off)) offs"
  "cfg (snd (read_bars hw b s f offs d)) = cfg d"
  by (induction offs arbitrary: d) (simp_all add: case_prod_unfold read32)

end

section \<open>What the registers say\<close>

definition vendor_at :: "(32 word \<Rightarrow> 32 word) \<Rightarrow> byte \<times> byte \<times> byte \<Rightarrow> 16 word" where
  "vendor_at c = (\<lambda>(b, s, f). ucast (c (make_address b s f 0)))"

definition device_at :: "(32 word \<Rightarrow> 32 word) \<Rightarrow> byte \<times> byte \<times> byte \<Rightarrow> 16 word" where
  "device_at c = (\<lambda>(b, s, f). ucast (drop_bit 16 (c (make_address b s f 0))))"

definition class_at :: "(32 word \<Rightarrow> 32 word) \<Rightarrow> byte \<times> byte \<times> byte \<Rightarrow> byte" where
  "class_at c = (\<lambda>(b, s, f). ucast (drop_bit 24 (c (make_address b s f 8))))"

definition subclass_at :: "(32 word \<Rightarrow> 32 word) \<Rightarrow> byte \<times> byte \<times> byte \<Rightarrow> byte" where
  "subclass_at c = (\<lambda>(b, s, f). ucast (drop_bit 16 (c (make_address b s f 8))))"

definition bar_at :: "(32 word \<Rightarrow> 32 word) \<Rightarrow> byte \<times> byte \<times> byte \<Rightarrow> nat \<Rightarrow> 32 word" where
  "bar_at c p i = (case p of (b, s, f) \<Rightarrow> c (make_address b s f (BAR0 + word_of_nat (i * 4))))"

lemma low_half [simp]: "(ucast (v AND 0xFFFF) :: 16 word) = ucast (v :: 32 word)"
proof -
  have *: "(0xFFFF :: 32 word) = mask 16" by (simp add: mask_eq_exp_minus_1)
  show ?thesis unfolding * by (intro bit_word_eqI) (auto simp: bit_simps)
qed

lemma half_shifts [simp]: "half_shift 0 = 0" "half_shift 2 = 16" "half_shift 4 = 0"
  by (simp_all add: half_shift_def)

lemma address_align: "make_address b s f 2 = make_address b s f 0"
  by (simp add: make_address_def)

text \<open>The fields of an address do not overlap, so different registers have different addresses.\<close>

lemma bit_bound: "w < 2 ^ n \<Longrightarrow> bit (w :: 'a::len word) m \<Longrightarrow> m < n"
proof -
  assume "w < 2 ^ n" and b: "bit w m"
  then have "take_bit n w = w" by (simp add: less_mask_eq take_bit_eq_mask)
  with b have "bit (take_bit n w) m" by simp
  then show "m < n" by (simp add: bit_simps)
qed

lemma address_fields:
  assumes "s < 32" "f < 8"
  shows "ucast (drop_bit 16 (make_address b s f off)) = b"
    and "ucast (drop_bit 11 (make_address b s f off) AND 0x1F) = s"
    and "ucast (drop_bit 8 (make_address b s f off) AND 0x7) = f"
    and "ucast (make_address b s f off) = off AND 0xFC"
proof -
  have s: "bit s n \<Longrightarrow> n < 5" and f: "bit f n \<Longrightarrow> n < 3" for n
    using assms bit_bound [of s 5 n] bit_bound [of f 3 n] by auto
  have m: "(0xFC :: byte) = 0b11111100" "(0x80000000 :: 32 word) = push_bit 31 1" "(0x1F :: 32 word) = mask 5" "(7 :: 32 word) = mask 3"
    by (simp_all add: mask_eq_exp_minus_1)
  have top: "n < 15 \<Longrightarrow> \<not> bit (2 ^ m :: int) n" if "15 \<le> m" for m n
    using that bit_exp_iff [of m n, where ?'a = int] by simp
  have h: "n < 15 \<Longrightarrow> \<not> bit (32768 :: int) n" "n < 15 \<Longrightarrow> \<not> bit (1048576 :: int) n"
    "n < 15 \<Longrightarrow> \<not> bit (8388608 :: int) n" "n < 15 \<Longrightarrow> \<not> bit (2147483648 :: int) n" for n
    using top [of 15 n] top [of 20 n] top [of 23 n] top [of 31 n] by simp_all
  show "ucast (drop_bit 16 (make_address b s f off)) = b"
    unfolding make_address_def m(2) by (intro bit_word_eqI) (auto simp: bit_simps h dest: s f bit_imp_le_length)
  show "ucast (drop_bit 11 (make_address b s f off) AND 0x1F) = s"
    unfolding make_address_def m(2,3) by (intro bit_word_eqI) (auto simp: bit_simps h dest: s f bit_imp_le_length)
  show "ucast (drop_bit 8 (make_address b s f off) AND 0x7) = f"
    unfolding make_address_def m(2,4) by (intro bit_word_eqI) (auto simp: bit_simps h dest: s f bit_imp_le_length)
  show "ucast (make_address b s f off) = off AND 0xFC"
    unfolding make_address_def m(2) by (intro bit_word_eqI) (auto simp: bit_simps h dest: s f bit_imp_le_length)
qed

text \<open>A bus whose registers are all writable.\<close>

record simpci =
  sp_sel :: "32 word"
  sp_cfg :: "32 word \<Rightarrow> 32 word"

definition simpci_hw :: "simpci pci" where
  "simpci_hw = \<lparr>pc_outl = (\<lambda>p v d. if p = CONFIG_ADDRESS then d\<lparr>sp_sel := v\<rparr>
       else d\<lparr>sp_cfg := (sp_cfg d)(sp_sel d := v)\<rparr>), pc_inl = (\<lambda>p d. (sp_cfg d (sp_sel d), d))\<rparr>"

interpretation simpci: pci_bus simpci_hw sp_cfg sp_sel "\<lambda>a old v. v"
  by unfold_locales (simp_all add: simpci_hw_def)

context pci_bus
begin

lemma find_device_in_spec:
  "map_option (\<lambda>x. (dv_bus x, dv_slot x, dv_func x, dv_vendor x, dv_device x, dv_class x, dv_subclass x, dv_bar x))
       (fst (find_device_in hw vid did fs d)) =
     map_option (\<lambda>p. (fst p, fst (snd p), snd (snd p), vid, did, class_at (cfg d) p, subclass_at (cfg d) p, map (bar_at (cfg d) p) [0..<6]))
       (List.find (\<lambda>p. vendor_at (cfg d) p \<noteq> 0xFFFF \<and> vendor_at (cfg d) p = vid \<and> device_at (cfg d) p = did) fs)
   \<and> cfg (snd (find_device_in hw vid did fs d)) = cfg d"
proof (induction fs arbitrary: d)
  case (Cons p fs)
  obtain b s f where p: "p = (b, s, f)" by (cases p)
  have a: "make_address b s f 0x08 = make_address b s f 8" by simp
  obtain v d1 where r1: "config_read16 hw b s f VENDOR_ID d = (v, d1)" by (meson surj_pair)
  obtain w d2 where r2: "config_read16 hw b s f DEVICE_ID d1 = (w, d2)" by (meson surj_pair)
  obtain w' d3 where r3: "config_read16 hw b s f DEVICE_ID d2 = (w', d3)" by (meson surj_pair)
  obtain c d4 where r4: "config_read32 hw b s f 0x08 d3 = (c, d4)" by (meson surj_pair)
  let ?offs = "map (\<lambda>i. BAR0 + word_of_nat (i * 4)) [0..<6]"
  obtain bs d5 where r5: "read_bars hw b s f ?offs d4 = (bs, d5)" by (meson surj_pair)
  have v: "v = vendor_at (cfg d) p" "cfg d1 = cfg d"
    using read16 [of b s f VENDOR_ID d] r1 by (simp_all add: vendor_at_def p)
  have w: "w = device_at (cfg d) p" "cfg d2 = cfg d"
    using read16 [of b s f DEVICE_ID d1] r2 v by (simp_all add: device_at_def p address_align)
  have w': "w' = device_at (cfg d) p" "cfg d3 = cfg d"
    using read16 [of b s f DEVICE_ID d2] r3 w by (simp_all add: device_at_def p address_align)
  have c: "ucast (drop_bit 24 c AND 0xFF) = class_at (cfg d) p" "ucast (drop_bit 16 c AND 0xFF) = subclass_at (cfg d) p" "cfg d4 = cfg d"
    using read32 [of b s f 8 d3] r4 w' by (auto simp: class_at_def subclass_at_def p)
  have bs: "bs = map (bar_at (cfg d) p) [0..<6]" "cfg d5 = cfg d"
    using bars [of b s f ?offs d4] r5 c by (simp_all add: bar_at_def p comp_def del: upt_rec_numeral)
  have u: "find_device_in hw vid did (p # fs) d =
      (if v = 0xFFFF then find_device_in hw vid did fs d1
       else if v \<noteq> vid \<or> w \<noteq> did then find_device_in hw vid did fs d2
       else (Some \<lparr>dv_bus = b, dv_slot = s, dv_func = f, dv_vendor = v, dv_device = w',
          dv_class = ucast (drop_bit 24 c AND 0xFF), dv_subclass = ucast (drop_bit 16 c AND 0xFF), dv_bar = bs\<rparr>, d5))"
    unfolding p find_device_in.simps Let_def r1 r2 r3 r4 r5 prod.case by (rule refl)
  show ?case
    unfolding u c bs(1) using Cons [of d1] Cons [of d2] v w w' bs(2) by (auto simp: p)
qed simp

lemma find_nic_in_spec:
  "fst (find_nic_in hw dev0 fs d) =
     map_option (\<lambda>p. dev0\<lparr>dv_bus := fst p, dv_slot := fst (snd p), dv_func := snd (snd p), dv_vendor := vendor_at (cfg d) p,
         dv_device := device_at (cfg d) p, dv_class := 2,
         dv_bar := [bar_at (cfg d) p 1, bar_at (cfg d) p 1, bar_at (cfg d) p 1, bar_at (cfg d) p 1, bar_at (cfg d) p 2, bar_at (cfg d) p 2]\<rparr>)
       (List.find (\<lambda>p. vendor_at (cfg d) p \<noteq> 0xFFFF \<and> class_at (cfg d) p = 2 \<and> subclass_at (cfg d) p = 0) fs)
   \<and> cfg (snd (find_nic_in hw dev0 fs d)) = cfg d"
proof (induction fs arbitrary: d)
  case (Cons p fs)
  obtain b s f where p: "p = (b, s, f)" by (cases p)
  obtain v d1 where r1: "config_read16 hw b s f VENDOR_ID d = (v, d1)" by (meson surj_pair)
  obtain c d2 where r2: "config_read32 hw b s f 0x08 d1 = (c, d2)" by (meson surj_pair)
  obtain w d3 where r3: "config_read16 hw b s f DEVICE_ID d2 = (w, d3)" by (meson surj_pair)
  let ?offs = "map (\<lambda>i. BAR0 + word_of_nat (i + 4)) [0..<6]"
  obtain bs d4 where r4: "read_bars hw b s f ?offs d3 = (bs, d4)" by (meson surj_pair)
  have v: "v = vendor_at (cfg d) p" "cfg d1 = cfg d"
    using read16 [of b s f VENDOR_ID d] r1 by (simp_all add: vendor_at_def p)
  have c: "ucast (drop_bit 24 c AND 0xFF) = class_at (cfg d) p" "ucast (drop_bit 16 c AND 0xFF) = subclass_at (cfg d) p" "cfg d2 = cfg d"
    using read32 [of b s f 8 d1] r2 v by (auto simp: class_at_def subclass_at_def p)
  have w: "w = device_at (cfg d) p" "cfg d3 = cfg d"
    using read16 [of b s f DEVICE_ID d2] r3 c by (simp_all add: device_at_def p address_align)
  have o: "?offs = [0x14, 0x15, 0x16, 0x17, 0x18, 0x19]" by (simp add: upt_conv_Cons)
  have al: "make_address b s f 0x15 = make_address b s f 0x14" "make_address b s f 0x16 = make_address b s f 0x14"
    "make_address b s f 0x17 = make_address b s f 0x14" "make_address b s f 0x19 = make_address b s f 0x18"
    by (simp_all add: make_address_def)
  have bs: "bs = [bar_at (cfg d) p 1, bar_at (cfg d) p 1, bar_at (cfg d) p 1, bar_at (cfg d) p 1, bar_at (cfg d) p 2, bar_at (cfg d) p 2]"
    "cfg d4 = cfg d"
    using bars [of b s f ?offs d3] r4 w(2) unfolding o by (simp_all add: bar_at_def p al)
  have u: "find_nic_in hw dev0 (p # fs) d =
      (if v = 0xFFFF then find_nic_in hw dev0 fs d1
       else if (ucast (drop_bit 24 c AND 0xFF) :: byte) \<noteq> 0x02 \<or> (ucast (drop_bit 16 c AND 0xFF) :: byte) \<noteq> 0x00 then find_nic_in hw dev0 fs d2
       else (Some (dev0\<lparr>dv_bus := b, dv_slot := s, dv_func := f, dv_vendor := v, dv_device := w,
          dv_class := ucast (drop_bit 24 c AND 0xFF), dv_bar := bs\<rparr>), d4))"
    unfolding p find_nic_in.simps Let_def r1 r2 r3 r4 prod.case by (rule refl)
  show ?case
    unfolding u c bs(1) using Cons [of d1] Cons [of d2] v w c(3) bs(2) by (auto simp: p)
qed simp

lemma bus_mastering:
  "cfg (enable_bus_mastering hw b s f d) =
     (let a = make_address b s f 4 in (cfg d)(a := upd a (cfg d a) (cfg d a OR 4)))"
proof -
  let ?a = "make_address b s f 4"
  have *: "x AND NOT (0xFFFF :: 32 word) OR ucast (ucast x OR (4 :: 16 word)) = x OR 4" for x :: "32 word"
  proof -
    have m: "(0xFFFF :: 32 word) = mask 16" "(4 :: 16 word) = 2 ^ 2" "(4 :: 32 word) = 2 ^ 2" by (simp_all add: mask_eq_exp_minus_1)
    have four: "bit (4 :: int) n \<Longrightarrow> n = 2" for n using bit_exp_iff [of 2 n, where ?'a = int] by simp
    show ?thesis unfolding m by (intro bit_word_eqI) (auto simp: bit_simps dest: four)
  qed
  obtain v d1 where r: "config_read16 hw b s f PCI_COMMAND d = (v, d1)" by (meson surj_pair)
  have v: "v = ucast (cfg d ?a)" "cfg d1 = cfg d" using read16 [of b s f PCI_COMMAND d] r by simp_all
  show ?thesis
    unfolding enable_bus_mastering_def r prod.case Let_def using * [of "cfg d ?a"] by (simp add: write16 Let_def v)
qed

end

section \<open>Properties\<close>

text \<open>
  Looking for a device (C32): on a bus with configuration mechanism 1, \<open>find_device\<close> returns the first
  function, in the order bus, slot, function, that is present and has the vendor and device asked
  for, with its class and its six base address registers, and fails only if there is none; it changes
  no register. Distinct functions have distinct register addresses.
\<close>

theorem find_device_first:
  assumes "pci_bus hw cfg sel upd"
  shows "map_option (\<lambda>x. (dv_bus x, dv_slot x, dv_func x, dv_vendor x, dv_device x, dv_class x, dv_subclass x, dv_bar x))
       (fst (find_device hw vid did d)) =
     map_option (\<lambda>p. (fst p, fst (snd p), snd (snd p), vid, did, class_at (cfg d) p, subclass_at (cfg d) p, map (bar_at (cfg d) p) [0..<6]))
       (List.find (\<lambda>p. vendor_at (cfg d) p \<noteq> 0xFFFF \<and> vendor_at (cfg d) p = vid \<and> device_at (cfg d) p = did) all_funcs)
   \<and> cfg (snd (find_device hw vid did d)) = cfg d
   \<and> (s < 32 \<and> f < 8 \<and> s' < 32 \<and> f' < 8 \<and> make_address b s f off = make_address b' s' f' off' \<longrightarrow>
        (b, s, f) = (b', s', f') \<and> off AND 0xFC = off' AND 0xFC)"
proof (intro conjI impI)
  show "(b, s, f) = (b', s', f')" "off AND 0xFC = off' AND 0xFC"
    if "s < 32 \<and> f < 8 \<and> s' < 32 \<and> f' < 8 \<and> make_address b s f off = make_address b' s' f' off'"
    using that address_fields [of s f b off] address_fields [of s' f' b' off'] by auto
qed (use pci_bus.find_device_in_spec [OF assms] in \<open>unfold find_device_def, blast+\<close>)

definition sim_bus :: simpci where
  "sim_bus = \<lparr>sp_sel = 0, sp_cfg = (\<lambda>_. 0xFFFFFFFF)\<rparr>"

theorem find_device_first_witness:
  "fst (find_device simpci_hw 0x8086 0x100E sim_bus) = None \<and> sp_cfg (snd (find_device simpci_hw 0x8086 0x100E sim_bus)) = sp_cfg sim_bus"
proof -
  have "vendor_at (sp_cfg sim_bus) p = 0xFFFF" for p by (cases p) (simp add: vendor_at_def sim_bus_def)
  then have "List.find (\<lambda>p. vendor_at (sp_cfg sim_bus) p \<noteq> 0xFFFF \<and> vendor_at (sp_cfg sim_bus) p = 0x8086 \<and> device_at (sp_cfg sim_bus) p = 0x100E) all_funcs = None"
    by (simp add: find_None_iff)
  then show ?thesis
    using find_device_first [OF simpci.pci_bus_axioms, of "0x8086" "0x100E" sim_bus] by simp
qed

text \<open>
  The network controller's registers: \<open>find_nic\<close> finds the first Ethernet controller, but reads
  \<open>bar[i]\<close> at offset \<open>BAR0 + i + 4\<close> instead of \<open>BAR0 + 4 * i\<close>: its six values are the second base
  address register four times and the third twice, the first one is never read, and the subclass
  in the caller's record stays whatever it was. The driver takes \<open>bar[0]\<close> for the device's memory.
\<close>

theorem nic_bars_wrong:
  assumes "pci_bus hw cfg sel upd" "find_nic hw dev0 d = (Some dev, d')"
  shows "\<exists>p \<in> set all_funcs. class_at (cfg d) p = 2 \<and> subclass_at (cfg d) p = 0 \<and> (dv_bus dev, dv_slot dev, dv_func dev) = p
    \<and> dv_bar dev = map (bar_at (cfg d) p) [1, 1, 1, 1, 2, 2] \<and> dv_subclass dev = dv_subclass dev0"
proof -
  let ?P = "\<lambda>p. vendor_at (cfg d) p \<noteq> 0xFFFF \<and> class_at (cfg d) p = 2 \<and> subclass_at (cfg d) p = 0"
  obtain p where p: "List.find ?P all_funcs = Some p"
    and dev: "dev = dev0\<lparr>dv_bus := fst p, dv_slot := fst (snd p), dv_func := snd (snd p), dv_vendor := vendor_at (cfg d) p,
         dv_device := device_at (cfg d) p, dv_class := 2,
         dv_bar := [bar_at (cfg d) p 1, bar_at (cfg d) p 1, bar_at (cfg d) p 1, bar_at (cfg d) p 1, bar_at (cfg d) p 2, bar_at (cfg d) p 2]\<rparr>"
  proof -
    have "fst (find_nic_in hw dev0 all_funcs d) = Some dev" using assms(2) by (simp add: find_nic_def)
    with pci_bus.find_nic_in_spec [OF assms(1), of dev0 all_funcs d] that show thesis
      by (cases "List.find ?P all_funcs") auto
  qed
  have "p \<in> set all_funcs" "?P p" using p by (auto simp: find_Some_iff in_set_conv_nth)
  then show ?thesis using dev by (intro bexI [of _ p]) auto
qed

text \<open>A bus with an Ethernet controller in its first slot whose first base address is \<open>0xFEBC0000\<close>.\<close>

definition nic_bus :: simpci where
  "nic_bus = \<lparr>sp_sel = 0, sp_cfg = (\<lambda>_. 0xFFFFFFFF)
     (0x80000000 := 0x100E8086, 0x80000008 := 0x02000000, 0x80000010 := 0xFEBC0000, 0x80000014 := 0xC001)\<rparr>"

theorem nic_bars_wrong_witness:
  "\<exists>dev d'. find_nic simpci_hw \<lparr>dv_bus = 0, dv_slot = 0, dv_func = 0, dv_vendor = 0, dv_device = 0, dv_class = 0, dv_subclass = 9, dv_bar = []\<rparr> nic_bus = (Some dev, d')
     \<and> bar_at (sp_cfg nic_bus) (0, 0, 0) 0 = 0xFEBC0000 \<and> dv_bar dev ! 0 = bar_at (sp_cfg nic_bus) (dv_bus dev, dv_slot dev, dv_func dev) 1"
proof -
  let ?dev0 = "\<lparr>dv_bus = 0, dv_slot = 0, dv_func = 0, dv_vendor = 0, dv_device = 0, dv_class = 0, dv_subclass = 9, dv_bar = []\<rparr> :: device_s"
  have m: "make_address 0 0 0 0 = 0x80000000" "make_address 0 0 0 8 = 0x80000008" "make_address 0 0 0 0x10 = 0x80000010"
    by (simp_all add: make_address_def)
  have P: "vendor_at (sp_cfg nic_bus) (0, 0, 0) \<noteq> 0xFFFF \<and> class_at (sp_cfg nic_bus) (0, 0, 0) = 2 \<and> subclass_at (sp_cfg nic_bus) (0, 0, 0) = 0"
    by (simp add: vendor_at_def class_at_def subclass_at_def m nic_bus_def)
  have "(0, 0, 0) \<in> set all_funcs" by (auto simp: all_funcs_def image_iff intro!: bexI [of _ "0 :: nat"])
  then have "List.find (\<lambda>p. vendor_at (sp_cfg nic_bus) p \<noteq> 0xFFFF \<and> class_at (sp_cfg nic_bus) p = 2 \<and> subclass_at (sp_cfg nic_bus) p = 0) all_funcs \<noteq> None"
    using P by (auto simp: find_None_iff)
  then obtain dev d' where f: "find_nic simpci_hw ?dev0 nic_bus = (Some dev, d')"
    using simpci.find_nic_in_spec [of ?dev0 all_funcs nic_bus] unfolding find_nic_def by (metis (no_types, lifting) option.exhaust option.map_disc_iff prod.collapse)
  have "bar_at (sp_cfg nic_bus) (0, 0, 0) 0 = 0xFEBC0000" by (simp add: bar_at_def m nic_bus_def)
  with nic_bars_wrong [OF simpci.pci_bus_axioms f] f show ?thesis by auto
qed

end
