(* ===== verification/Net.thy ===== *)
theory Net
  imports Pci
begin

text \<open>
  The e1000 network driver, \<^verbatim>\<open>drivers/nic/e1000.c\<close>, and Ethernet framing, \<^verbatim>\<open>drivers/net/ethernet.c\<close>.
  The device structure is the record \<open>e1000\<close>; \<open>n_self\<close> is its address, from which the addresses of its
  members follow by the layout of the structure. The memory-mapped registers are a function from
  word indices to values; those the hardware advances are read through a parameter. Where a C pointer
  may be null, the argument is an option; the device pointer itself is never null.
\<close>

section \<open>The device structure\<close>

abbreviation NUM_TX_DESC :: nat where "NUM_TX_DESC \<equiv> 8"
abbreviation NUM_RX_DESC :: nat where "NUM_RX_DESC \<equiv> 8"
abbreviation PACKET_SIZE :: nat where "PACKET_SIZE \<equiv> 2048"
abbreviation TXD_CMD_EOP :: byte where "TXD_CMD_EOP \<equiv> 0x01"
abbreviation TXD_CMD_IFCS :: byte where "TXD_CMD_IFCS \<equiv> 0x02"
abbreviation TXD_CMD_RS :: byte where "TXD_CMD_RS \<equiv> 0x08"
abbreviation TXD_STAT_DD :: byte where "TXD_STAT_DD \<equiv> 0x01"
abbreviation RXD_STAT_DD :: byte where "RXD_STAT_DD \<equiv> 0x01"

abbreviation TDBAL :: "32 word" where "TDBAL \<equiv> 0x3800"
abbreviation TDBAH :: "32 word" where "TDBAH \<equiv> 0x3804"
abbreviation TDLEN :: "32 word" where "TDLEN \<equiv> 0x3808"
abbreviation TDH :: "32 word" where "TDH \<equiv> 0x3810"
abbreviation TDT :: "32 word" where "TDT \<equiv> 0x3818"
abbreviation TCTL :: "32 word" where "TCTL \<equiv> 0x0400"
abbreviation RDBAL :: "32 word" where "RDBAL \<equiv> 0x2800"
abbreviation RDBAH :: "32 word" where "RDBAH \<equiv> 0x2804"
abbreviation RDLEN :: "32 word" where "RDLEN \<equiv> 0x2808"
abbreviation RDH :: "32 word" where "RDH \<equiv> 0x2810"
abbreviation RDT :: "32 word" where "RDT \<equiv> 0x2818"
abbreviation RCTL :: "32 word" where "RCTL \<equiv> 0x0100"

record tx_desc =
  td_addr :: "64 word"
  td_length :: "16 word"
  td_cso :: byte
  td_cmd :: byte
  td_status :: byte
  td_css :: byte
  td_special :: "16 word"

record rx_desc =
  rd_addr :: "64 word"
  rd_length :: "16 word"
  rd_checksum :: "16 word"
  rd_status :: byte
  rd_errors :: byte
  rd_special :: "16 word"

record e1000 =
  n_self :: "64 word"
  n_mmio :: "64 word"
  n_regs :: "32 word \<Rightarrow> 32 word"
  n_mac :: "byte list"
  n_bus :: byte
  n_slot :: byte
  n_func :: byte
  n_tx :: "tx_desc list"
  n_rx :: "rx_desc list"
  n_txbuf :: "byte list list"
  n_rxbuf :: "byte list list"
  n_txi :: "32 word"
  n_rxi :: "32 word"

text \<open>Member offsets: pointer, address bytes and location (padded to 24), two rings of 16-byte descriptors, buffers.\<close>

definition tx_desc_addr :: "e1000 \<Rightarrow> 64 word" where "tx_desc_addr dev = n_self dev + 24"
definition rx_desc_addr :: "e1000 \<Rightarrow> 64 word" where "rx_desc_addr dev = n_self dev + 152"
definition tx_buf_addr :: "e1000 \<Rightarrow> nat \<Rightarrow> 64 word" where "tx_buf_addr dev i = n_self dev + 280 + word_of_nat (i * PACKET_SIZE)"
definition rx_buf_addr :: "e1000 \<Rightarrow> nat \<Rightarrow> 64 word" where "rx_buf_addr dev i = n_self dev + 16664 + word_of_nat (i * PACKET_SIZE)"

definition mmio_write :: "32 word \<Rightarrow> 32 word \<Rightarrow> e1000 \<Rightarrow> e1000" where
  "mmio_write offset v dev = dev\<lparr>n_regs := (n_regs dev)(offset div 4 := v)\<rparr>"

text \<open>Reading a register: the hardware's view \<open>live\<close> of a register, given what was last written.\<close>

definition mmio_read :: "(32 word \<Rightarrow> 32 word \<Rightarrow> 32 word) \<Rightarrow> e1000 \<Rightarrow> 32 word \<Rightarrow> 32 word" where
  "mmio_read live dev offset = live (offset div 4) (n_regs dev (offset div 4))"

fun hex32_loop :: "nat \<Rightarrow> 32 word \<Rightarrow> cstr \<Rightarrow> cstr" where
  "hex32_loop 0 v out = out"
| "hex32_loop (Suc n) v out = hex32_loop n (drop_bit 4 v) (hex_digit (unat (v AND 0xF)) # out)"

definition print_hex32 :: "32 word \<Rightarrow> cstr" where
  "print_hex32 v = hex32_loop 8 v []"

section \<open>Initialisation\<close>

definition setup_tx :: "e1000 \<Rightarrow> e1000" where
  "setup_tx dev =
     (let dev1 = dev\<lparr>n_tx := map (\<lambda>i. (n_tx dev ! i)\<lparr>td_addr := tx_buf_addr dev i, td_length := 0, td_cso := 0, td_cmd := 0,
                   td_css := 0, td_status := TXD_STAT_DD\<rparr>) [0..<NUM_TX_DESC]\<rparr>;
          addr = tx_desc_addr dev
      in mmio_write TCTL (2 OR 8) (mmio_write TDT 0 (mmio_write TDH 0
           (mmio_write TDLEN 128 (mmio_write TDBAH (ucast (drop_bit 32 addr)) (mmio_write TDBAL (ucast (addr AND 0xFFFFFFFF)) dev1))))))"

definition setup_rx :: "e1000 \<Rightarrow> e1000" where
  "setup_rx dev =
     (let dev1 = dev\<lparr>n_rxi := 0, n_rx := map (\<lambda>i. (n_rx dev ! i)\<lparr>rd_addr := rx_buf_addr dev i, rd_length := 0, rd_status := 0,
                   rd_checksum := 0, rd_errors := 0, rd_special := 0\<rparr>) [0..<NUM_RX_DESC]\<rparr>;
          addr = rx_desc_addr dev
      in mmio_write RCTL (push_bit 1 1 OR push_bit 15 1 OR push_bit 26 1) (mmio_write RDT 7 (mmio_write RDH 0
           (mmio_write RDLEN 128 (mmio_write RDBAH (ucast (drop_bit 32 addr)) (mmio_write RDBAL (ucast addr AND 0xFFFFFFFF) dev1))))))"

text \<open>The result, the device, the text printed and the state of the PCI bus; both pointers are not null.\<close>

definition e1000_init :: "'d pci \<Rightarrow> (32 word \<Rightarrow> 32 word \<Rightarrow> 32 word) \<Rightarrow> device_s \<Rightarrow> e1000 \<Rightarrow> 'd \<Rightarrow> int \<times> e1000 \<times> cstr list \<times> 'd" where
  "e1000_init hw live pd dev d =
     (let dev1 = dev\<lparr>n_txi := 0, n_rxi := 0, n_bus := dv_bus pd, n_slot := dv_slot pd, n_func := dv_func pd,
                n_mmio := ucast (dv_bar pd ! 0 AND 0xFFFFFFF0)\<rparr>;
          d1 = enable_bus_mastering hw (dv_bus pd) (dv_slot pd) (dv_func pd) d;
          dev2 = setup_rx (setup_tx dev1)
      in (0, dev2,
          [cs ''E1000 INIT'' @ [10], cs ''Vendor: '', print_hex32 (ucast (dv_vendor pd)), [10],
           cs ''Device: '', print_hex32 (ucast (dv_device pd)), [10],
           cs ''BAR0: '', print_hex32 (dv_bar pd ! 0), [10], cs ''Bus Mastering Enabled'' @ [10],
           cs ''RX RDH: '', print_hex32 (mmio_read live dev2 RDH), [10],
           cs ''RX RDT: '', print_hex32 (mmio_read live dev2 RDT), [10],
           cs ''RX RCTL: '', print_hex32 (mmio_read live dev2 RCTL), [10], cs ''E1000: TX/RX Ready!'' @ [10]], d1))"

section \<open>Sending and receiving\<close>

definition e1000_send :: "byte list option \<Rightarrow> 16 word \<Rightarrow> e1000 \<Rightarrow> int \<times> e1000" where
  "e1000_send dat len dev =
     (case dat of
        None \<Rightarrow> (-1, dev)
      | Some bytes \<Rightarrow>
        if len = 0 \<or> unat len > PACKET_SIZE then (-1, dev)
        else
          let i = unat (n_txi dev mod 8); desc = n_tx dev ! i in
          if td_status desc AND TXD_STAT_DD = 0 then (-1, dev)
          else
            let buf = take (unat len) bytes @ drop (unat len) (n_txbuf dev ! i);
                desc1 = desc\<lparr>td_length := len, td_cso := 0, td_css := 0, td_special := 0,
                          td_cmd := TXD_CMD_EOP OR TXD_CMD_IFCS OR TXD_CMD_RS, td_status := 0\<rparr>;
                nxt = (n_txi dev mod 8 + 1) mod 8;
                dev1 = dev\<lparr>n_txbuf := (n_txbuf dev)[i := buf], n_tx := (n_tx dev)[i := desc1]\<rparr>
            in (0, (mmio_write TDT nxt dev1)\<lparr>n_txi := nxt\<rparr>))"

text \<open>The caller's buffer is returned with the bytes stored at its start.\<close>

definition e1000_receive :: "byte list option \<Rightarrow> 16 word \<Rightarrow> e1000 \<Rightarrow> int \<times> byte list option \<times> e1000" where
  "e1000_receive buffer buffer_size dev =
     (case buffer of
        None \<Rightarrow> (-1, None, dev)
      | Some out \<Rightarrow>
        let i = unat (n_rxi dev mod 8); desc = n_rx dev ! i in
        if rd_status desc AND RXD_STAT_DD = 0 then (0, buffer, dev)
        else
          let len = (if rd_length desc > buffer_size then buffer_size else rd_length desc);
              out1 = take (unat len) (n_rxbuf dev ! i) @ drop (unat len) out;
              dev1 = mmio_write RDT (n_rxi dev mod 8) (dev\<lparr>n_rx := (n_rx dev)[i := desc\<lparr>rd_status := 0\<rparr>]\<rparr>)
          in (int (unat len), Some out1, dev1\<lparr>n_rxi := (n_rxi dev mod 8 + 1) mod 8\<rparr>))"

section \<open>Ethernet\<close>

abbreviation ETH_HEADER_LEN :: "16 word" where "ETH_HEADER_LEN \<equiv> 14"

definition swap16 :: "16 word \<Rightarrow> 16 word" where
  "swap16 v = drop_bit 8 v OR push_bit 8 v"

text \<open>The header in memory: the 16-bit type is stored with its low byte first.\<close>

definition eth_header :: "byte list \<Rightarrow> byte list \<Rightarrow> 16 word \<Rightarrow> byte list" where
  "eth_header dest src type = take 6 dest @ take 6 src @ [ucast type, ucast (drop_bit 8 type)]"

definition ethernet_send :: "byte list option \<Rightarrow> 16 word \<Rightarrow> byte list option \<Rightarrow> 16 word \<Rightarrow> e1000 \<Rightarrow> int \<times> e1000" where
  "ethernet_send dest type payload plen dev =
     (case (dest, payload) of
        (Some dst, Some pl) \<Rightarrow>
          if plen > 1500 then (-1, dev)
          else e1000_send (Some (eth_header dst (n_mac dev) (swap16 type) @ take (unat plen) pl)) (ETH_HEADER_LEN + plen) dev
      | _ \<Rightarrow> (-1, dev))"

definition ethernet_receive :: "byte list option \<Rightarrow> 16 word \<Rightarrow> e1000 \<Rightarrow> int \<times> byte list option \<times> e1000" where
  "ethernet_receive buffer buffer_size dev = e1000_receive buffer buffer_size dev"

section \<open>The transmit ring\<close>

text \<open>
  Driver and controller together. The controller has its own head index and, as its manual describes,
  works on the descriptors from the head up to but not including the tail register: it sends the
  frame, sets the descriptor's done bit and advances the head. Accepted frames and frames on the
  wire are recorded.
\<close>

definition frame_at :: "e1000 \<Rightarrow> nat \<Rightarrow> byte list" where
  "frame_at dev i = take (unat (td_length (n_tx dev ! i))) (n_txbuf dev ! i)"

definition tail_of :: "e1000 \<Rightarrow> nat" where
  "tail_of dev = unat (n_regs dev (TDT div 4))"

definition complete :: "nat \<Rightarrow> e1000 \<Rightarrow> e1000" where
  "complete i dev = dev\<lparr>n_tx := (n_tx dev)[i := (n_tx dev ! i)\<lparr>td_status := TXD_STAT_DD\<rparr>]\<rparr>"

record txsys =
  x_dev :: e1000
  x_head :: nat
  x_acc :: "byte list list"
  x_wire :: "byte list list"

inductive tx_step :: "txsys \<Rightarrow> txsys \<Rightarrow> bool" where
  send: "e1000_send (Some bytes) len (x_dev x) = (r, dev') \<Longrightarrow> unat len \<le> length bytes \<Longrightarrow>
    tx_step x (x\<lparr>x_dev := dev', x_acc := (if r = 0 then x_acc x @ [take (unat len) bytes] else x_acc x)\<rparr>)"
| nic: "x_head x \<noteq> tail_of (x_dev x) \<Longrightarrow>
    tx_step x (x\<lparr>x_dev := complete (x_head x) (x_dev x), x_wire := x_wire x @ [frame_at (x_dev x) (x_head x)],
      x_head := (x_head x + 1) mod 8\<rparr>)"

inductive tx_steps :: "txsys \<Rightarrow> txsys \<Rightarrow> bool" where
  start: "tx_steps x x"
| step: "tx_steps x y \<Longrightarrow> tx_step y z \<Longrightarrow> tx_steps x z"

definition dev_ok :: "e1000 \<Rightarrow> bool" where
  "dev_ok dev \<longleftrightarrow> length (n_tx dev) = 8 \<and> length (n_txbuf dev) = 8 \<and> (\<forall>i < 8. length (n_txbuf dev ! i) = PACKET_SIZE)
     \<and> unat (n_txi dev) < 8 \<and> tail_of dev = unat (n_txi dev)"

text \<open>There are \<open>n\<close> frames between head and tail: their descriptors are not done, the others are.\<close>

definition ring_ok :: "nat \<Rightarrow> txsys \<Rightarrow> bool" where
  "ring_ok n x \<longleftrightarrow> dev_ok (x_dev x) \<and> n \<le> 8 \<and> x_head x < 8 \<and> tail_of (x_dev x) = (x_head x + n) mod 8
     \<and> (\<forall>j < 8. td_status (n_tx (x_dev x) ! ((x_head x + j) mod 8)) = (if j < n then 0 else TXD_STAT_DD))
     \<and> x_acc x = x_wire x @ map (\<lambda>j. frame_at (x_dev x) ((x_head x + j) mod 8)) [0..<n]"

lemma mod8_inj: "(h + i) mod 8 = (h + j) mod 8 \<Longrightarrow> h < 8 \<Longrightarrow> i < 8 \<Longrightarrow> j < (8 :: nat) \<Longrightarrow> i = j"
  using mod_wrap [of "h + i" 8] mod_wrap [of "h + j" 8] by (auto split: if_splits)

lemma mod8_surj:
  assumes "h < (8 :: nat)" "i < 8"
  obtains j where "j < 8" "i = (h + j) mod 8"
proof (cases "h \<le> i")
  case True
  then show thesis using that [of "i - h"] assms by simp
next
  case False
  then show thesis using that [of "i + 8 - h"] assms by simp
qed

lemma txi_mod: "unat (n_txi dev) < 8 \<Longrightarrow> n_txi dev mod 8 = n_txi dev"
  by (simp add: word_unat_eq_iff unat_mod)

lemma txi_next: "unat (n_txi dev) < 8 \<Longrightarrow> unat ((n_txi dev + 1) mod 8) = (unat (n_txi dev) + 1) mod 8"
  by (simp add: unat_mod unat_word_ariths)

lemma send_effect:
  assumes "dev_ok dev" "td_status (n_tx dev ! unat (n_txi dev)) = TXD_STAT_DD" "len \<noteq> 0" "unat len \<le> PACKET_SIZE" "unat len \<le> length bytes"
  obtains dev' where "e1000_send (Some bytes) len dev = (0, dev')" "dev_ok dev'" "tail_of dev' = (unat (n_txi dev) + 1) mod 8"
    "\<And>i. i < 8 \<Longrightarrow> td_status (n_tx dev' ! i) = (if i = unat (n_txi dev) then 0 else td_status (n_tx dev ! i))"
    "\<And>i. i < 8 \<Longrightarrow> frame_at dev' i = (if i = unat (n_txi dev) then take (unat len) bytes else frame_at dev i)"
proof -
  let ?i = "unat (n_txi dev)"
  have i: "?i < 8" "length (n_tx dev) = 8" "length (n_txbuf dev) = 8" "\<And>i. i < 8 \<Longrightarrow> length (n_txbuf dev ! i) = PACKET_SIZE"
    using assms(1) by (simp_all add: dev_ok_def)
  define dev' where "dev' = snd (e1000_send (Some bytes) len dev)"
  have e: "e1000_send (Some bytes) len dev = (0, dev')"
    using assms(2-4) i(1) by (simp add: dev'_def e1000_send_def Let_def txi_mod)
  have d: "n_tx dev' = (n_tx dev)[?i := (n_tx dev ! ?i)\<lparr>td_length := len, td_cso := 0, td_css := 0, td_special := 0,
        td_cmd := TXD_CMD_EOP OR TXD_CMD_IFCS OR TXD_CMD_RS, td_status := 0\<rparr>]"
    "n_txbuf dev' = (n_txbuf dev)[?i := take (unat len) bytes @ drop (unat len) (n_txbuf dev ! ?i)]"
    "n_txi dev' = (n_txi dev + 1) mod 8" "tail_of dev' = unat ((n_txi dev + 1) mod 8)"
    using assms(2-4) i(1) by (simp_all add: dev'_def e1000_send_def Let_def txi_mod mmio_write_def tail_of_def)
  have t: "tail_of dev' = (?i + 1) mod 8" "unat (n_txi dev') = (?i + 1) mod 8" using d(3,4) txi_next [OF i(1)] by simp_all
  have "dev_ok dev'"
    using i assms(4,5) d(1,2) t by (auto simp: dev_ok_def nth_list_update)
  moreover have "td_status (n_tx dev' ! j) = (if j = ?i then 0 else td_status (n_tx dev ! j))" if "j < 8" for j
    using that i by (simp add: d(1) nth_list_update)
  moreover have "frame_at dev' j = (if j = ?i then take (unat len) bytes else frame_at dev j)" if "j < 8" for j
    using that i assms(5) by (simp add: frame_at_def d(1,2) nth_list_update)
  ultimately show thesis using that e t(1) by blast
qed

lemma send_refused:
  assumes "dev_ok dev" "td_status (n_tx dev ! unat (n_txi dev)) = 0 \<or> len = 0 \<or> unat len > PACKET_SIZE"
  shows "e1000_send (Some bytes) len dev = (-1, dev)"
proof -
  have "unat (n_txi dev) < 8" using assms(1) by (simp add: dev_ok_def)
  then show ?thesis using assms(2) by (auto simp: e1000_send_def Let_def txi_mod)
qed

lemma complete_simps:
  assumes "dev_ok dev" "h < 8"
  shows "dev_ok (complete h dev)" "tail_of (complete h dev) = tail_of dev"
    "i < 8 \<Longrightarrow> td_status (n_tx (complete h dev) ! i) = (if i = h then TXD_STAT_DD else td_status (n_tx dev ! i))"
    "frame_at (complete h dev) i = frame_at dev i"
proof -
  have "length (n_tx dev) = 8" using assms by (simp add: dev_ok_def)
  then show "dev_ok (complete h dev)" "tail_of (complete h dev) = tail_of dev"
    "i < 8 \<Longrightarrow> td_status (n_tx (complete h dev) ! i) = (if i = h then TXD_STAT_DD else td_status (n_tx dev ! i))"
    "frame_at (complete h dev) i = frame_at dev i"
    using assms by (auto simp: dev_ok_def complete_def tail_of_def frame_at_def nth_list_update)
qed

lemma tx_steps_one: "tx_step x y \<Longrightarrow> tx_steps x y"
  by (blast intro: tx_steps.intros)

lemma accept_step:
  assumes "ring_ok n x" "n < 8" "len \<noteq> 0" "unat len \<le> PACKET_SIZE" "unat len \<le> length bytes"
  obtains d where "e1000_send (Some bytes) len (x_dev x) = (0, d)"
    "tx_step x (x\<lparr>x_dev := d, x_acc := x_acc x @ [take (unat len) bytes]\<rparr>)"
    "ring_ok (Suc n) (x\<lparr>x_dev := d, x_acc := x_acc x @ [take (unat len) bytes]\<rparr>)"
proof -
  have x: "dev_ok (x_dev x)" "x_head x < 8" "tail_of (x_dev x) = (x_head x + n) mod 8"
    and st: "\<And>j. j < 8 \<Longrightarrow> td_status (n_tx (x_dev x) ! ((x_head x + j) mod 8)) = (if j < n then 0 else TXD_STAT_DD)"
    and ac: "x_acc x = x_wire x @ map (\<lambda>j. frame_at (x_dev x) ((x_head x + j) mod 8)) [0..<n]"
    using assms(1) by (simp_all add: ring_ok_def)
  have i: "unat (n_txi (x_dev x)) = (x_head x + n) mod 8" using x(1,3) by (simp add: dev_ok_def)
  have s0: "td_status (n_tx (x_dev x) ! unat (n_txi (x_dev x))) = TXD_STAT_DD" using st [of n] assms(2) i by simp
  obtain d where d: "e1000_send (Some bytes) len (x_dev x) = (0, d)" "dev_ok d" "tail_of d = (unat (n_txi (x_dev x)) + 1) mod 8"
    "\<And>i. i < 8 \<Longrightarrow> td_status (n_tx d ! i) = (if i = unat (n_txi (x_dev x)) then 0 else td_status (n_tx (x_dev x) ! i))"
    "\<And>i. i < 8 \<Longrightarrow> frame_at d i = (if i = unat (n_txi (x_dev x)) then take (unat len) bytes else frame_at (x_dev x) i)"
    using send_effect [OF x(1) s0 assms(3-5)] by blast
  have eq: "(x_head x + j) mod 8 = (x_head x + n) mod 8 \<longleftrightarrow> j = n" if "j < 8" for j
    using mod8_inj x(2) that assms(2) by blast
  have "ring_ok (Suc n) (x\<lparr>x_dev := d, x_acc := x_acc x @ [take (unat len) bytes]\<rparr>)"
    unfolding ring_ok_def
    using assms(2) x d(2,3) st d(4,5) ac by (auto simp: i eq mod_Suc_eq mod_simps less_Suc_eq)
  moreover have "tx_step x (x\<lparr>x_dev := d, x_acc := x_acc x @ [take (unat len) bytes]\<rparr>)"
    using tx_step.send [OF d(1) assms(5)] by simp
  ultimately show thesis using that d(1) by blast
qed

lemma ring_step:
  assumes "ring_ok n x" "tx_step x y"
  shows "\<exists>m. ring_ok m y"
  using assms(2)
proof cases
  case (send bytes len r dev')
  have x: "dev_ok (x_dev x)" "n \<le> 8" "x_head x < 8" "tail_of (x_dev x) = (x_head x + n) mod 8"
    and st: "\<And>j. j < 8 \<Longrightarrow> td_status (n_tx (x_dev x) ! ((x_head x + j) mod 8)) = (if j < n then 0 else TXD_STAT_DD)"
    and ac: "x_acc x = x_wire x @ map (\<lambda>j. frame_at (x_dev x) ((x_head x + j) mod 8)) [0..<n]"
    using assms(1) by (simp_all add: ring_ok_def)
  have i: "unat (n_txi (x_dev x)) = (x_head x + n) mod 8" using x(1,4) by (simp add: dev_ok_def)
  show ?thesis
  proof (cases "n < 8 \<and> len \<noteq> 0 \<and> unat len \<le> PACKET_SIZE")
    case True
    then obtain d where "e1000_send (Some bytes) len (x_dev x) = (0, d)"
      "ring_ok (Suc n) (x\<lparr>x_dev := d, x_acc := x_acc x @ [take (unat len) bytes]\<rparr>)"
      using accept_step [OF assms(1) _ _ _ send(3)] by blast
    then have "ring_ok (Suc n) y" using send(1,2) by auto
    then show ?thesis by blast
  next
    case False
    have "td_status (n_tx (x_dev x) ! unat (n_txi (x_dev x))) = 0 \<or> len = 0 \<or> unat len > PACKET_SIZE"
      using False st [of 0] x(2,3) i by auto
    then have "r = -1" "dev' = x_dev x" using send_refused [OF x(1)] send(2) by fastforce+
    then show ?thesis using assms(1) send(1) by auto
  qed
next
  case nic
  have x: "dev_ok (x_dev x)" "n \<le> 8" "x_head x < 8" "tail_of (x_dev x) = (x_head x + n) mod 8"
    and st: "\<And>j. j < 8 \<Longrightarrow> td_status (n_tx (x_dev x) ! ((x_head x + j) mod 8)) = (if j < n then 0 else TXD_STAT_DD)"
    and ac: "x_acc x = x_wire x @ map (\<lambda>j. frame_at (x_dev x) ((x_head x + j) mod 8)) [0..<n]"
    using assms(1) by (simp_all add: ring_ok_def)
  have "n \<noteq> 0" using nic(2) x(3,4) by (intro notI) simp
  moreover have "n \<noteq> 8" using nic(2) x(3,4) by (intro notI) simp
  ultimately obtain m where m: "n = Suc m" "m < 7" using x(2) by (cases n) auto
  note c = complete_simps [OF x(1,3)]
  have h: "((x_head x + 1) mod 8 + j) mod 8 = (x_head x + Suc j) mod 8" for j by (simp add: mod_simps)
  have eq: "(x_head x + Suc j) mod 8 = x_head x \<longleftrightarrow> j = 7" if "j < 8" for j
    using that x(3) mod_wrap [of "x_head x + Suc j" 8] by (auto split: if_splits)
  have st': "td_status (n_tx (complete (x_head x) (x_dev x)) ! ((x_head x + Suc j) mod 8)) = (if j < m then 0 else TXD_STAT_DD)" if "j < 8" for j
    using that c(3) eq [OF that] st [of "Suc j"] m by (cases "j = 7") auto
  have "map (\<lambda>j. frame_at (x_dev x) ((x_head x + j) mod 8)) [0..<n] =
      frame_at (x_dev x) (x_head x) # map (\<lambda>j. frame_at (x_dev x) ((x_head x + Suc j) mod 8)) [0..<m]"
    unfolding m(1) upt_conv_Cons [OF zero_less_Suc] map_Suc_upt [symmetric] using x(3) by (simp add: comp_def)
  then have "ring_ok m y"
    unfolding ring_ok_def nic(1) using x c(1,2) m ac st' by (simp add: h c(4) mod_simps)
  then show ?thesis by blast
qed

lemma ring_steps: "tx_steps x y \<Longrightarrow> ring_ok n x \<Longrightarrow> \<exists>m. ring_ok m y"
  by (induction arbitrary: n rule: tx_steps.induct) (blast intro: ring_step)+

text \<open>A device as its arrays are declared, and the joint state right after \<open>setup_tx\<close>.\<close>

definition dev_shape :: "e1000 \<Rightarrow> bool" where
  "dev_shape dev \<longleftrightarrow> length (n_tx dev) = 8 \<and> length (n_txbuf dev) = 8 \<and> (\<forall>b \<in> set (n_txbuf dev). length b = PACKET_SIZE)"

definition tx_start :: "e1000 \<Rightarrow> txsys" where
  "tx_start dev = \<lparr>x_dev = setup_tx (dev\<lparr>n_txi := 0\<rparr>), x_head = 0, x_acc = [], x_wire = []\<rparr>"

lemma setup_tx_simps:
  "n_txi (setup_tx dev) = n_txi dev" "n_txbuf (setup_tx dev) = n_txbuf dev" "length (n_tx (setup_tx dev)) = 8"
  "tail_of (setup_tx dev) = 0" "i < 8 \<Longrightarrow> td_status (n_tx (setup_tx dev) ! i) = TXD_STAT_DD"
  by (simp_all add: setup_tx_def Let_def mmio_write_def tail_of_def)

lemma ring_start: "dev_shape dev \<Longrightarrow> ring_ok 0 (tx_start dev)"
  by (simp add: ring_ok_def dev_ok_def dev_shape_def tx_start_def setup_tx_simps)

lemma ring_reach: "dev_shape dev \<Longrightarrow> tx_steps (tx_start dev) x \<Longrightarrow> \<exists>n. ring_ok n x"
  using ring_steps ring_start by blast

lemma tx_steps_trans: "tx_steps y z \<Longrightarrow> tx_steps x y \<Longrightarrow> tx_steps x z"
  by (induction rule: tx_steps.induct) (auto intro: tx_steps.step)

text \<open>With all eight descriptors in flight head and tail coincide, which is the controller's picture of an empty ring.\<close>

lemma full_stuck:
  assumes "ring_ok 8 x" "tx_step x y"
  shows "ring_ok 8 y \<and> x_wire y = x_wire x \<and> x_acc y = x_acc x"
  using assms(2)
proof cases
  case (send bytes len r dev')
  have x: "dev_ok (x_dev x)" "tail_of (x_dev x) = (x_head x + 8) mod 8" "x_head x < 8"
    using assms(1) by (simp_all add: ring_ok_def)
  moreover have "td_status (n_tx (x_dev x) ! ((x_head x + 0) mod 8)) = 0"
    using assms(1) unfolding ring_ok_def by (meson zero_less_numeral)
  ultimately have "td_status (n_tx (x_dev x) ! unat (n_txi (x_dev x))) = 0" by (simp add: dev_ok_def)
  then have "r = -1" "dev' = x_dev x" using send_refused [OF x(1)] send(2) by fastforce+
  then show ?thesis using assms(1) send(1) by simp
next
  case nic
  then show ?thesis using assms(1) by (simp add: ring_ok_def)
qed

lemma full_stays: "tx_steps x y \<Longrightarrow> ring_ok 8 x \<Longrightarrow> ring_ok 8 y \<and> x_wire y = x_wire x \<and> x_acc y = x_acc x"
  by (induction rule: tx_steps.induct) (use full_stuck in fastforce)+

lemma fill_ring:
  assumes "dev_shape dev" "n \<le> 8"
  shows "\<exists>x. tx_steps (tx_start dev) x \<and> ring_ok n x \<and> x_wire x = [] \<and> length (x_acc x) = n"
  using assms(2)
proof (induction n)
  case 0
  then show ?case using ring_start [OF assms(1)] tx_steps.start by (intro exI [of _ "tx_start dev"]) (simp add: tx_start_def)
next
  case (Suc n)
  then obtain x where x: "tx_steps (tx_start dev) x" "ring_ok n x" "x_wire x = []" "length (x_acc x) = n" by auto
  obtain d where "tx_step x (x\<lparr>x_dev := d, x_acc := x_acc x @ [take (unat (1 :: 16 word)) [0]]\<rparr>)"
    "ring_ok (Suc n) (x\<lparr>x_dev := d, x_acc := x_acc x @ [take (unat (1 :: 16 word)) [0]]\<rparr>)"
    by (rule accept_step [OF x(2), of 1 "[0]"]) (use Suc.prems in auto)
  then show ?case using x(3,4) tx_steps.step [OF x(1)]
    by (intro exI [of _ "x\<lparr>x_dev := d, x_acc := x_acc x @ [take (unat (1 :: 16 word)) [0]]\<rparr>"]) simp
qed

lemma swap16_bytes: "[ucast (swap16 t), ucast (drop_bit 8 (swap16 t))] = [ucast (drop_bit 8 t), ucast t :: byte]"
  by (auto intro!: bit_word_eqI simp: swap16_def bit_simps)

lemma eth_length: "plen \<le> 1500 \<Longrightarrow> unat (ETH_HEADER_LEN + plen) = 14 + unat plen"
  by (subst unat_add_lem [THEN iffD1]) (auto simp: word_le_nat_alt)

text \<open>A device for the examples: null descriptors and buffers, with its station address set.\<close>

definition demo_dev :: e1000 where
  "demo_dev = \<lparr>n_self = 0x100000, n_mmio = 0xFEBC0000, n_regs = (\<lambda>_. 0), n_mac = [0x52, 0x54, 0, 0x12, 0x34, 0x56],
     n_bus = 0, n_slot = 3, n_func = 0,
     n_tx = replicate 8 \<lparr>td_addr = 0, td_length = 0, td_cso = 0, td_cmd = 0, td_status = 0, td_css = 0, td_special = 0\<rparr>,
     n_rx = replicate 8 \<lparr>rd_addr = 0, rd_length = 0, rd_checksum = 0, rd_status = 0, rd_errors = 0, rd_special = 0\<rparr>,
     n_txbuf = replicate 8 (replicate 2048 0), n_rxbuf = replicate 8 (replicate 2048 0), n_txi = 0, n_rxi = 0\<rparr>"

lemma demo_shape: "dev_shape demo_dev"
  by (simp add: dev_shape_def demo_dev_def)

lemma demo_mac: "n_mac (x_dev (tx_start demo_dev)) = [0x52, 0x54, 0, 0x12, 0x34, 0x56]"
  by (simp add: tx_start_def demo_dev_def setup_tx_def Let_def mmio_write_def)

lemma demo_start: "x_acc (tx_start dev) = []" "x_wire (tx_start dev) = []"
  by (simp_all add: tx_start_def)

section \<open>Properties\<close>



text \<open>
  The ring must not be filled (C39): eight frames accepted before the controller sends the first one make
  the tail register equal to the head, which the controller takes for an empty ring. That state is
  reachable from every fresh device, and from it no frame is ever put on the wire and no further one accepted.
\<close>

theorem full_ring_deadlocks:
  assumes "dev_shape dev"
  shows "\<exists>x. tx_steps (tx_start dev) x \<and> length (x_acc x) = 8 \<and> x_wire x = [] \<and>
    (\<forall>y. tx_steps x y \<longrightarrow> x_wire y = [] \<and> x_acc y = x_acc x)"
proof -
  obtain x where x: "tx_steps (tx_start dev) x" "ring_ok 8 x" "x_wire x = []" "length (x_acc x) = 8"
    using fill_ring [OF assms, of 8] by auto
  then show ?thesis using full_stays by fastforce
qed

theorem full_ring_deadlocks_witness:
  "dev_shape demo_dev \<and> (\<exists>x. tx_steps (tx_start demo_dev) x \<and> length (x_acc x) = 8 \<and> x_wire x = [] \<and>
    (\<forall>y. tx_steps x y \<longrightarrow> x_wire y = [] \<and> x_acc y = x_acc x))"
  using full_ring_deadlocks [OF demo_shape] demo_shape by blast

text \<open>
  Ethernet framing: while the ring has room, \<open>ethernet_send\<close> of a payload of at most 1500 bytes hands the
  transmit ring the frame made of destination, the device's own address, the type with its high byte first,
  and the payload, and returns 0; a longer payload is refused with no effect.
\<close>

theorem ethernet_frame_layout:
  assumes "dev_shape dev" "tx_steps (tx_start dev) x" "length (x_acc x) < length (x_wire x) + 8"
    and "length dest = 6" "length (n_mac (x_dev x)) = 6" "unat plen \<le> length payload"
  shows "if plen \<le> 1500
    then \<exists>dev'. ethernet_send (Some dest) type (Some payload) plen (x_dev x) = (0, dev') \<and>
      tx_step x (x\<lparr>x_dev := dev', x_acc := x_acc x @
        [dest @ n_mac (x_dev x) @ [ucast (drop_bit 8 type), ucast type] @ take (unat plen) payload]\<rparr>)
    else ethernet_send (Some dest) type (Some payload) plen (x_dev x) = (-1, x_dev x)"
proof (cases "plen \<le> 1500")
  case True
  obtain n where n: "ring_ok n x" using ring_reach assms(1,2) by blast
  then have "length (x_acc x) = length (x_wire x) + n" by (simp add: ring_ok_def)
  then have n8: "n < 8" using assms(3) by simp
  let ?f = "eth_header dest (n_mac (x_dev x)) (swap16 type) @ take (unat plen) payload"
  let ?l = "ETH_HEADER_LEN + plen"
  have l: "unat ?l = 14 + unat plen" "unat plen \<le> 1500" using eth_length [OF True] True by (simp_all add: word_le_nat_alt)
  have f: "length ?f = unat ?l" using assms(4-6) l(1) by (simp add: eth_header_def)
  have "?l \<noteq> 0" using l(1) by (metis add_is_0 unat_0 zero_neq_numeral)
  then obtain d where "e1000_send (Some ?f) ?l (x_dev x) = (0, d)"
    "tx_step x (x\<lparr>x_dev := d, x_acc := x_acc x @ [take (unat ?l) ?f]\<rparr>)"
    using accept_step [OF n n8, of ?l ?f] f l by auto
  then show ?thesis using True assms(4,5) f swap16_bytes [of type]
    by (auto simp: ethernet_send_def eth_header_def)
qed (simp add: ethernet_send_def not_le)

theorem ethernet_frame_layout_witness:
  "\<exists>dev'. ethernet_send (Some [0xFF, 0xFF, 0xFF, 0xFF, 0xFF, 0xFF]) 0x0806 (Some [1, 2]) 2 (x_dev (tx_start demo_dev)) = (0, dev') \<and>
    tx_step (tx_start demo_dev) (tx_start demo_dev\<lparr>x_dev := dev', x_acc :=
      [[0xFF, 0xFF, 0xFF, 0xFF, 0xFF, 0xFF, 0x52, 0x54, 0, 0x12, 0x34, 0x56, 8, 6, 1, 2]]\<rparr>)"
proof -
  have e: "(2054 :: byte) = 6" by code_simp
  show ?thesis
    using ethernet_frame_layout [OF demo_shape tx_steps.start, of "[0xFF, 0xFF, 0xFF, 0xFF, 0xFF, 0xFF]" 2 "[1, 2]" "0x0806"]
    unfolding demo_start demo_mac by (simp add: e)
qed

text \<open>
  Receiving one frame: when the controller has filled the current descriptor, \<open>e1000_receive\<close> stores the
  frame, cut to \<open>buffer_size\<close>, at the start of the caller's buffer and nothing beyond, returns its length, hands
  exactly this descriptor back to the controller through the tail register and moves on to the next;
  when it has not, nothing changes and the result is 0.
\<close>

theorem e1000_receive_frame:
  assumes "length (n_rx dev) = 8" "length (n_rxbuf dev) = 8" "\<forall>i < 8. length (n_rxbuf dev ! i) = PACKET_SIZE"
    and "unat (n_rxi dev) < 8" "unat buffer_size \<le> length out"
  defines "i \<equiv> unat (n_rxi dev)"
  assumes "unat (rd_length (n_rx dev ! i)) \<le> PACKET_SIZE"
  shows "if rd_status (n_rx dev ! i) AND RXD_STAT_DD = 0
    then e1000_receive (Some out) buffer_size dev = (0, Some out, dev)
    else \<exists>out' dev'. e1000_receive (Some out) buffer_size dev
        = (int (min (unat (rd_length (n_rx dev ! i))) (unat buffer_size)), Some out', dev')
      \<and> length out' = length out
      \<and> take (unat buffer_size) out' =
          take (unat buffer_size) (take (unat (rd_length (n_rx dev ! i))) (n_rxbuf dev ! i) @ drop (unat (rd_length (n_rx dev ! i))) out)
      \<and> drop (unat buffer_size) out' = drop (unat buffer_size) out
      \<and> n_rx dev' = (n_rx dev)[i := (n_rx dev ! i)\<lparr>rd_status := 0\<rparr>]
      \<and> unat (n_regs dev' (RDT div 4)) = i \<and> unat (n_rxi dev') = (i + 1) mod 8"
proof -
  have m: "n_rxi dev mod 8 = n_rxi dev" using assms(4) by (simp add: word_unat_eq_iff unat_mod)
  have nx: "unat ((n_rxi dev + 1) mod 8) = (unat (n_rxi dev) + 1) mod 8" using assms(4) by (simp add: unat_mod unat_word_ariths)
  have b: "length (n_rxbuf dev ! i) = PACKET_SIZE" using assms(3,4) by (simp add: i_def)
  show ?thesis
  proof (cases "rd_length (n_rx dev ! i) > buffer_size")
    case True
    then have "unat buffer_size < unat (rd_length (n_rx dev ! i))" by (simp add: word_less_nat_alt)
    then show ?thesis using assms(5,7) b m nx True
      by (auto simp: e1000_receive_def Let_def mmio_write_def i_def min_def)
  next
    case False
    then have "unat (rd_length (n_rx dev ! i)) \<le> unat buffer_size" by (simp add: word_less_nat_alt)
    then show ?thesis using assms(5,7) b m nx False
      by (auto simp: e1000_receive_def Let_def mmio_write_def i_def min_def)
  qed
qed

theorem e1000_receive_frame_witness:
  "\<exists>dev'. e1000_receive (Some [9, 9, 9]) 2 (demo_dev\<lparr>n_rx := (n_rx demo_dev)[0 := (n_rx demo_dev ! 0)\<lparr>rd_length := 4, rd_status := 3\<rparr>]\<rparr>)
    = (2, Some [0, 0, 9], dev')"
proof -
  let ?d = "demo_dev\<lparr>n_rx := (n_rx demo_dev)[0 := (n_rx demo_dev ! 0)\<lparr>rd_length := 4, rd_status := 3\<rparr>]\<rparr>"
  have z: "n_rxi ?d = 0" "n_rx ?d ! 0 = (n_rx demo_dev ! 0)\<lparr>rd_length := 4, rd_status := 3\<rparr>" "n_rxbuf ?d ! 0 = replicate 2048 0"
    "length (n_rx ?d) = 8" "length (n_rxbuf ?d) = 8" "\<forall>i < 8. length (n_rxbuf ?d ! i) = PACKET_SIZE"
    by (simp_all add: demo_dev_def)
  have two: "replicate 2 (0 :: byte) = [0, 0]" by code_simp
  obtain out' dev' where o: "e1000_receive (Some [9, 9, 9]) 2 ?d = (2, Some out', dev')"
      "take 2 out' = [0, 0]" "drop 2 out' = [9]"
    using e1000_receive_frame [of ?d 2 "[9, 9, 9]"] z two by auto
  have "out' = [0, 0, 9]" using append_take_drop_id [of 2 out'] o(2,3) by simp
  then show ?thesis using o(1) by blast
qed

text \<open>Initialisation leaves the station address as it was: no register of the controller is read into it.\<close>

theorem e1000_init_keeps_mac: "n_mac (fst (snd (e1000_init hw live pd dev d))) = n_mac dev"
  by (simp add: e1000_init_def setup_rx_def setup_tx_def Let_def mmio_write_def)

end
