(* ===== verification/Boot.thy ===== *)
theory Boot
  imports Syscall Net
begin

text \<open>
  The start of the kernel, \<^verbatim>\<open>kernel/kernel.c\<close>: \<open>kernel_main\<close> brings up memory, console, tables, file systems and the network card,
  registers the boot modules and enters the first of them. Hardware, addresses of symbols and what uninitialised local variables hold
  are the record \<open>board\<close>. The keyboard interrupt, enabled towards the end, changes the keyboard buffer only and is left to the
  sessions of the theory \<open>Syscall\<close>. The static tables are records of their own and the kernel stack is not modelled; neither is part of
  the memory \<open>vm\<close>. The theorems presuppose a stack that holds the local variables of \<open>kernel_main\<close> (the 16 KB stack of \<^verbatim>\<open>arch/x86_64/boot.S\<close>
  is too small for them), and the network card's own accesses to memory stay inside its buffers.
\<close>

section \<open>State\<close>

abbreviation MULTIBOOT_BOOTLOADER_MAGIC :: "32 word" where "MULTIBOOT_BOOTLOADER_MAGIC \<equiv> 0x2BADB002"
abbreviation MULTIBOOT_INFO_MEM_MAP :: "32 word" where "MULTIBOOT_INFO_MEM_MAP \<equiv> 0x00000040"

text \<open>Of the loader's information block the members that the kernel reads.\<close>

record multiboot_info =
  mbi_flags :: "32 word"
  mbi_mods_count :: "32 word"
  mbi_mods_addr :: "32 word"
  mbi_mmap_length :: "32 word"
  mbi_mmap_addr :: "32 word"

definition mbi_at :: "vm \<Rightarrow> 64 word \<Rightarrow> multiboot_info" where
  "mbi_at s a = \<lparr>mbi_flags = ld_le s a 4, mbi_mods_count = ld_le s (a + 20) 4, mbi_mods_addr = ld_le s (a + 24) 4,
     mbi_mmap_length = ld_le s (a + 44) 4, mbi_mmap_addr = ld_le s (a + 48) 4\<rparr>"

text \<open>What the code does not determine, and the state of the whole machine.\<close>

record ('d, 'p) board =
  bd_ata :: "'d ata"
  bd_pci :: "'p pci"
  bd_live :: "32 word \<Rightarrow> 32 word \<Rightarrow> 32 word"
  bd_kernel_start :: "64 word"
  bd_kernel_end :: "64 word"
  bd_cs :: "16 word"
  bd_exception_stub :: "64 word"
  bd_irq1_stub :: "64 word"
  bd_syscall_entry :: "64 word"
  bd_idt :: "64 word"
  bd_gdt :: "64 word"
  bd_tss :: "64 word"
  bd_kstack :: "64 word"
  bd_nic :: device_s
  bd_e1000 :: e1000
  bd_rx_buffer :: "byte list"

record ('d, 'p) machine =
  mc_kernel :: "'d kernel"
  mc_gdt :: "64 word list"
  mc_tss :: tss64
  mc_gdtr :: table_reg
  mc_tr :: "16 word"
  mc_idt :: "gate list"
  mc_idtr :: table_reg
  mc_msrs :: msrs
  mc_bus :: 'p
  mc_net :: "e1000 option"

section \<open>Steps\<close>

definition kputs :: "cstr \<Rightarrow> 'd kernel \<Rightarrow> 'd kernel" where
  "kputs s k = k\<lparr>kn_vga := term_puts (s @ [nl]) (kn_vga k)\<rparr>"

definition test_packet :: "byte list" where
  "test_packet = [0xFF, 0xFF, 0xFF, 0xFF, 0xFF, 0xFF, 0x52, 0x54, 0x00, 0x12, 0x34, 0x56, 0x08, 0x00]"

definition boot_memory :: "('d, 'p) board \<Rightarrow> multiboot_info \<Rightarrow> 'd kernel \<Rightarrow> 'd kernel" where
  "boot_memory bd mbi k =
     (if mbi_flags mbi AND MULTIBOOT_INFO_MEM_MAP \<noteq> 0
      then set_vm ((kvm k)\<lparr>vm_pmm := pmm_init (bd_kernel_start bd) (bd_kernel_end bd) (\<lambda>n. ld8 (kvm k) (word_of_nat n))
             (mbi_mmap_addr mbi) (mbi_mmap_length mbi) (vm_pmm (kvm k))\<rparr>) k
      else k)"

definition boot_tables :: "('d, 'p) board \<Rightarrow> ('d, 'p) machine \<Rightarrow> ('d, 'p) machine" where
  "boot_tables bd m =
     (let (gdt, tss, gdtr, tr) = gdt_install (bd_tss bd) (bd_kstack bd) (bd_gdt bd) (mc_tss m);
          (idt, idtr) = idt_init (bd_cs bd) (bd_exception_stub bd) (bd_irq1_stub bd) (bd_idt bd) (mc_idt m);
          k = mc_kernel m
      in m\<lparr>mc_gdt := gdt, mc_tss := tss, mc_gdtr := gdtr, mc_tr := tr, mc_idt := idt, mc_idtr := idtr,
           mc_kernel := k\<lparr>kn_out := kn_out k @ pic_init\<rparr>, mc_msrs := syscall_init (bd_syscall_entry bd) (mc_msrs m)\<rparr>)"

definition boot_files :: "'d ata \<Rightarrow> 'd kernel \<Rightarrow> 'd kernel" where
  "boot_files hw k =
     (let v = (kn_fs k)\<lparr>vf_ram := fs_init (vf_ram (kn_fs k))\<rparr>;
          (r, i, t) = part_scan hw (ft_ide (vf_fat v)) (vf_ptab v);
          v1 = v\<lparr>vf_fat := (vf_fat v)\<lparr>ft_ide := i\<rparr>, vf_ptab := t\<rparr>;
          v2 = (if part_count (vf_ptab v1) > 0 then snd (fs_mount_part hw 0 v1) else v1)
      in k\<lparr>kn_fs := v2\<rparr>)"

definition boot_network :: "('d, 'p) board \<Rightarrow> ('d, 'p) machine \<Rightarrow> ('d, 'p) machine" where
  "boot_network bd m =
     (case find_nic (bd_pci bd) (bd_nic bd) (mc_bus m) of
        (None, b) \<Rightarrow> m\<lparr>mc_kernel := kputs (cs ''NIC NOT FOUND'') (mc_kernel m), mc_bus := b\<rparr>
      | (Some nic, b) \<Rightarrow>
        let k1 = kputs (cs ''NIC FOUND'') (mc_kernel m);
            (r, dev, texts, b1) = e1000_init (bd_pci bd) (bd_live bd) nic (bd_e1000 bd) b;
            k2 = k1\<lparr>kn_vga := fold term_puts texts (kn_vga k1)\<rparr> in
        if r = 0 then
          let k3 = kputs (cs ''E1000 INIT OK'') k2;
              (sent, dev1) = e1000_send (Some test_packet) (word_of_nat (length test_packet)) dev;
              k4 = kputs (if sent = 0 then cs ''E1000 TX OK'' else cs ''E1000 trx failed'') k3;
              (received, out, dev2) = e1000_receive (Some (bd_rx_buffer bd)) 2048 dev1;
              k5 = kputs (if received > 0 then cs ''E1000 RX: Packet Received'' else cs ''E1000 RX: No Packet'') k4
          in m\<lparr>mc_kernel := k5, mc_bus := b1, mc_net := Some dev2\<rparr>
        else m\<lparr>mc_kernel := kputs (cs ''E1000 INIT FAILED'') k2, mc_bus := b1, mc_net := Some dev\<rparr>)"

definition boot_program :: "multiboot_info \<Rightarrow> 'd kernel \<Rightarrow> sys_end \<times> 'd kernel" where
  "boot_program mbi k =
     (if mbi_mods_count mbi < 1 then (Halted, kputs (cs ''no init module'') k)
      else enter_or 0 None (\<lambda>k. (Halted, kputs (cs ''bad init elf'') k))
             (k\<lparr>kn_ex := exec_init_mods (mbi_mods_addr mbi) (mbi_mods_count mbi) (kn_ex k)\<rparr>))"

text \<open>The value None: the magic number is wrong and the function returns to the assembly start.\<close>

definition kernel_main :: "('d, 'p) board \<Rightarrow> 32 word \<Rightarrow> 32 word \<Rightarrow> ('d, 'p) machine \<Rightarrow> sys_end option \<times> ('d, 'p) machine" where
  "kernel_main bd magic mbi_addr m =
     (if magic \<noteq> MULTIBOOT_BOOTLOADER_MAGIC then (None, m)
      else
        let mbi = mbi_at (kvm (mc_kernel m)) (ucast mbi_addr);
            k1 = boot_memory bd mbi (mc_kernel m);
            k2 = k1\<lparr>kn_vga := term_init (kn_vga k1)\<rparr>;
            (v, b) = pci_scan (bd_pci bd) (kn_vga k2) (mc_bus m);
            m3 = boot_tables bd (m\<lparr>mc_kernel := k2\<lparr>kn_vga := v\<rparr>, mc_bus := b\<rparr>);
            m4 = m3\<lparr>mc_kernel := boot_files (bd_ata bd) (mc_kernel m3)\<rparr>;
            m5 = boot_network bd m4;
            (e, k6) = boot_program mbi (mc_kernel m5)
        in (Some e, m5\<lparr>mc_kernel := k6\<rparr>))"

section \<open>What holds when the first program starts\<close>

text \<open>The static data as the boot loader leaves it, as far as the properties need it: zeroed tables, no disk mounted.\<close>

definition static_start :: "'d kernel \<Rightarrow> bool" where
  "static_start k \<longleftrightarrow> vga_inv (kn_vga k) \<and> kbd_inv (kn_kbd k) \<and> length (f_nodes (vf_ram (kn_fs k))) = FS_MAX
     \<and> list_all (\<lambda>n. length (n_data n) = FILE_MAX) (f_nodes (vf_ram (kn_fs k)))
     \<and> \<not> vf_mounted (kn_fs k) \<and> vf_idx (kn_fs k) = -1 \<and> \<not> fat_mounted (vf_fat (kn_fs k)) \<and> ex_mods (kn_ex k) = []"

lemma fold_puts_inv [inv_intros]: "vga_inv v \<Longrightarrow> vga_inv (fold term_puts ts v)"
  by (induction ts arbitrary: v) (simp_all add: term_text_inv)

lemma pci_scan_in_inv: "vga_inv v \<Longrightarrow> vga_inv (fst (pci_scan_in hw fs v d))"
  by (induction hw fs v d rule: pci_scan_in.induct) (simp_all add: Let_def term_text_inv split: prod.splits)

lemma pci_scan_inv [inv_intros]: "vga_inv v \<Longrightarrow> vga_inv (fst (pci_scan hw v d))"
  using pci_scan_in_inv [of v hw all_funcs d] by (simp add: pci_scan_def case_prod_unfold Let_def term_text_inv)

lemma kputs_inv: "kernel_inv k \<Longrightarrow> kernel_inv (kputs t k)"
  by (simp add: kputs_def kernel_inv_vga inv_intros)

definition mods_ok :: "kmod list \<Rightarrow> bool" where
  "mods_ok ms \<longleftrightarrow> length ms \<le> MAX_MODS \<and> (\<forall>m \<in> set ms. length (md_name m) < MOD_NAME_LEN \<and> 0 \<notin> set (md_name m))"

lemma init_mods_loop_ok: "mods_ok (ex_mods x) \<Longrightarrow> mods_ok (ex_mods (init_mods_loop a is x))"
proof (induction a "is" x rule: init_mods_loop.induct)
  case (2 m i "is" x)
  let ?e = "mb_mod_at (ex_vm x) (m + 16 * word_of_nat i)"
  let ?new = "\<lparr>md_start = mm_start ?e, md_end = mm_end ?e, md_name = copy_name (ex_vm x) (ucast (mm_cmdline ?e)) (MOD_NAME_LEN - 1)\<rparr>"
  have n: "length (md_name ?new) < MOD_NAME_LEN" "0 \<notin> set (md_name ?new)"
    using copy_name_facts [of "ex_vm x" "ucast (mm_cmdline ?e)" "MOD_NAME_LEN - 1"] by simp_all
  then have o: "mods_ok (ex_mods x @ [?new])" if "\<not> MAX_MODS \<le> length (ex_mods x)"
    using that 2(4) unfolding mods_ok_def by (simp del: copy_name.simps)
  show ?case
  proof (cases "MAX_MODS \<le> length (ex_mods x) \<or> mm_end ?e \<le> mm_start ?e \<or> 0x40000000 < mm_end ?e \<or> ucast (mm_cmdline ?e) = (0 :: 64 word) \<or> ld8 (ex_vm x) (ucast (mm_cmdline ?e)) = 0")
    case True
    then show ?thesis using 2 by (auto simp: Let_def simp del: copy_name.simps)
  next
    case False
    then show ?thesis using 2(3) [OF _ refl refl] o by (simp add: Let_def del: copy_name.simps)
  qed
qed simp

lemma boot_program_inv: "kernel_inv k \<Longrightarrow> kernel_inv (snd (boot_program mbi k))"
proof -
  assume k: "kernel_inv k"
  have "mods_ok (ex_mods (exec_init_mods a n (kn_ex k)))" for a n
    unfolding exec_init_mods_def by (rule init_mods_loop_ok) (simp add: mods_ok_def)
  then have "kernel_inv (k\<lparr>kn_ex := exec_init_mods a n (kn_ex k)\<rparr>)" for a n using k by (simp add: kernel_inv_def mods_ok_def)
  then have "ok_end frame0 (enter_or 0 None (\<lambda>k. (Halted, kputs (cs ''bad init elf'') k)) (k\<lparr>kn_ex := exec_init_mods a n (kn_ex k)\<rparr>))" for a n
    by (rule ok_enter_or) (simp add: kputs_inv)
  then show ?thesis using k by (simp add: boot_program_def kputs_inv ok_end_def)
qed

lemma boot_network_inv: "kernel_inv (mc_kernel m) \<Longrightarrow> kernel_inv (mc_kernel (boot_network bd m))"
proof -
  assume k: "kernel_inv (mc_kernel m)"
  have "kernel_inv k \<Longrightarrow> kernel_inv (k\<lparr>kn_vga := fold term_puts ts (kn_vga k)\<rparr>)" for k :: "'a kernel" and ts
    by (rule kernel_inv_vga) (simp_all add: inv_intros)
  then show ?thesis using k by (simp add: boot_network_def Let_def kputs_inv split: prod.splits option.splits)
qed

lemma boot_files_inv:
  assumes "static_start k0" "kn_fs k = kn_fs k0" "kn_kbd k = kn_kbd k0" "kn_ex k = (kn_ex k0)\<lparr>ex_vm := s\<rparr>" "vga_inv (kn_vga k)"
  shows "kernel_inv (boot_files hw k)"
proof -
  have "fs_ok (fs_init (vf_ram (kn_fs k)))" using assms(1,2) by (intro fs_init_ok) (simp_all add: static_start_def list_all_iff)
  then have v: "vfs_inv ((kn_fs k)\<lparr>vf_ram := fs_init (vf_ram (kn_fs k)), vf_fat := (vf_fat (kn_fs k))\<lparr>ft_ide := i\<rparr>, vf_ptab := t\<rparr>)" for i t
    using assms(1,2) by (simp add: vfs_inv_def static_start_def fat_mounted_def)
  then have "vfs_inv (kn_fs (boot_files hw k))"
    by (simp add: boot_files_def Let_def mount_inv split: prod.splits)
  moreover have "kn_vga (boot_files hw k) = kn_vga k" "kn_kbd (boot_files hw k) = kn_kbd k" "kn_ex (boot_files hw k) = kn_ex k"
    by (simp_all add: boot_files_def Let_def split: prod.splits)
  ultimately show ?thesis using assms by (simp add: kernel_inv_def static_start_def)
qed

lemma kernel_main_inv:
  assumes "static_start (mc_kernel m)" "kernel_main bd MULTIBOOT_BOOTLOADER_MAGIC a m = (r, m1)"
  shows "r \<noteq> None \<and> kernel_inv (mc_kernel m1)"
proof -
  define k1 where "k1 = boot_memory bd (mbi_at (kvm (mc_kernel m)) (ucast a)) (mc_kernel m)"
  obtain v b where p: "pci_scan (bd_pci bd) (term_init (kn_vga k1)) (mc_bus m) = (v, b)" by fastforce
  define m3 where "m3 = boot_tables bd (m\<lparr>mc_kernel := k1\<lparr>kn_vga := v\<rparr>, mc_bus := b\<rparr>)"
  have k1: "kn_vga k1 = kn_vga (mc_kernel m)" "kn_fs k1 = kn_fs (mc_kernel m)" "kn_kbd k1 = kn_kbd (mc_kernel m)"
      "\<exists>s. kn_ex k1 = (kn_ex (mc_kernel m))\<lparr>ex_vm := s\<rparr>"
    by (auto simp: k1_def boot_memory_def set_vm_def intro: exI [of _ "kvm (mc_kernel m)"])
  have k3: "kn_vga (mc_kernel m3) = v" "kn_fs (mc_kernel m3) = kn_fs k1" "kn_kbd (mc_kernel m3) = kn_kbd k1" "kn_ex (mc_kernel m3) = kn_ex k1"
    by (simp_all add: m3_def boot_tables_def Let_def split: prod.splits)
  have "vga_inv (term_init (kn_vga k1))" using assms(1) k1(1) by (simp add: static_start_def term_init_inv)
  then have "vga_inv v" using pci_scan_inv [of _ "bd_pci bd" "mc_bus m"] p by force
  then have "kernel_inv (boot_files (bd_ata bd) (mc_kernel m3))"
    using k1 k3 by (elim exE) (intro boot_files_inv [OF assms(1)], simp_all)
  then have "kernel_inv (mc_kernel (boot_network bd (m3\<lparr>mc_kernel := boot_files (bd_ata bd) (mc_kernel m3)\<rparr>)))"
    by (intro boot_network_inv) simp
  from boot_program_inv [OF this, of "mbi_at (kvm (mc_kernel m)) (ucast a)"] show ?thesis
    using assms(2) by (auto simp: kernel_main_def Let_def p m3_def [symmetric] k1_def [symmetric] split: prod.splits)
qed

section \<open>The first program\<close>

text \<open>Only the allocation map differs: the tree, its pages and every byte are the same.\<close>

lemma pmm_only:
  assumes "pt_inv s" "pmm_inv q" "free_addrs q \<subseteq> free_addrs (vm_pmm s)"
  shows "pt_inv (s\<lparr>vm_pmm := q\<rparr>)" "tabs (s\<lparr>vm_pmm := q\<rparr>) = tabs s" "freed (s\<lparr>vm_pmm := q\<rparr>) = freed s" "unmap_safe (s\<lparr>vm_pmm := q\<rparr>) = unmap_safe s"
proof -
  let ?s = "s\<lparr>vm_pmm := q\<rparr>"
  have e: "vm_pml4 ?s = vm_pml4 s" "ent ?s u j = ent s u j" for u j by (simp_all add: ent_def)
  have "free_addrs (vm_pmm ?s) \<inter> tabs s = {}" using tabs_not_free [OF assms(1)] assms(3) by auto
  then show i: "pt_inv ?s" "tabs ?s = tabs s"
    using tree_cong_inv [OF assms(1) e(1) e(2)] assms(2) by simp_all
  have l: "leaf ?s = leaf s" by (rule ext) (rule leaf_cong [OF e(1) e(2)])
  have "tab ?s q = tab s q" if "path_ok q" for q by (rule tree_cong [OF e(1) e(2) that])
  moreover have "path_ok (vpath v 0)" for v by (simp add: path_ok_def vpath_def)
  ultimately have "small ?s = small s" by (simp add: small_def fun_eq_iff)
  then show "freed ?s = freed s" "unmap_safe ?s = unmap_safe s" by (simp_all add: freed_def unmap_safe_def fun_eq_iff l i(2))
qed

lemma usable_frames:
  assumes "md = to_mod s e" "usable s e"
  shows "img_frames (ucast (md_start md)) (ucast (md_end md - md_start md)) \<subseteq> mod_frames md"
proof
  let ?a = "ucast (md_start md) :: 64 word" and ?n = "ucast (md_end md - md_start md) :: 64 word"
  fix f assume "f \<in> img_frames ?a ?n"
  then obtain k where k: "k < unat ?n" "f = pg (?a + word_of_nat k)" by (auto simp: img_frames_def)
  have lt: "md_start md < md_end md" using assms by (simp add: usable_def to_mod_def)
  then have n: "unat ?n = unat (md_end md) - unat (md_start md)" using unat_sub [OF less_imp_le [OF lt]] by (simp add: unat_ucast32)
  have b: "unat (md_end md) < 2 ^ 32" using unsigned_less [of "md_end md", where ?'a = nat] by simp
  then have kb: "unat (word_of_nat k :: 64 word) = k" using k(1) n by (simp add: unat_of_nat)
  then have v: "unat (?a + word_of_nat k) = unat (md_start md) + k"
    using k(1) n b by (simp add: unat_word_ariths unat_ucast32)
  then have "?a \<le> ?a + word_of_nat k \<and> ?a + word_of_nat k < ucast (md_end md)"
    using k(1) n by (simp only: word_le_nat_alt word_less_nat_alt unat_ucast32) arith
  then show "f \<in> mod_frames md" using k(2) unfolding mod_frames_def by blast
qed

definition registered_frames :: "kmod list \<Rightarrow> 64 word set" where
  "registered_frames ms = (\<Union>m \<in> set (take MAX_MODS ms). mod_frames m)"

lemma boot_program_enters:
  assumes s: "s = kvm k" "pt_inv s" and m: "boot_mods s (ucast (mbi_mods_addr mbi)) [0..<unat (mbi_mods_count mbi)] = md # ms"
    and img: "img = ucast (md_start md)" "len = ucast (md_end md - md_start md)" "elf_ok img len s"
    and mem: "5 * length (elf_pages (phdrs img s)) + 10 \<le> card (free_addrs (vm_pmm s) - registered_frames (md # ms))"
      "\<forall>p \<in> set user_range. unmap_safe s p" "\<forall>g \<in> img_frames img len. g \<notin> tabs s \<and> (\<forall>p \<in> set user_range. g \<notin> freed s p)"
  shows "\<exists>sp k'. boot_program mbi k = (Enter (eh_entry (ehdr_at s img)) sp, k') \<and> args_at (kvm k') sp [md_name md]
    \<and> (\<forall>p \<in> set (phdrs img s). seg_loaded img s p (kvm k'))"
proof -
  let ?x = "exec_init_mods (mbi_mods_addr mbi) (mbi_mods_count mbi) (kn_ex k)"
  have c: "\<not> mbi_mods_count mbi < 1" using m by (cases "mbi_mods_count mbi = 0") (simp_all add: boot_mods_def word_less_nat_alt unat_eq_0)
  obtain q where q: "ex_mods ?x = take 8 (md # ms)" "ex_vm ?x = s\<lparr>vm_pmm := q\<rparr>" "pmm_inv q" "free_addrs q = free_addrs (vm_pmm s) - registered_frames (md # ms)"
    using init_mods_loop_eq [of "(kn_ex k)\<lparr>ex_mods := []\<rparr>" "ucast (mbi_mods_addr mbi)" "[0..<unat (mbi_mods_count mbi)]"]
      pt_invD(1) [OF s(2)] m s(1) unfolding exec_init_mods_def Let_def registered_frames_def by auto
  let ?s = "s\<lparr>vm_pmm := q\<rparr>"
  have "free_addrs q \<subseteq> free_addrs (vm_pmm s)" using q(4) by auto
  note po = pmm_only [OF s(2) q(3) this]
  have "\<forall>i < unat len. ld8 ?s (img + word_of_nat i) = ld8 s (img + word_of_nat i)" by simp
  note ec = elf_ok_cong [OF img(3) this]
  obtain e where e: "md = to_mod s e" "usable s e"
  proof -
    have "md \<in> set (boot_mods s (ucast (mbi_mods_addr mbi)) [0..<unat (mbi_mods_count mbi)])" using m by simp
    then show thesis using that by (auto simp: boot_mods_def)
  qed
  have "img_frames img len \<subseteq> registered_frames (md # ms)"
    using usable_frames [OF e] img(1,2) unfolding registered_frames_def by auto
  then have fr: "\<forall>g \<in> img_frames img len. g \<notin> tabs ?s \<and> g \<notin> free_addrs (vm_pmm ?s) \<and> (\<forall>p \<in> set user_range. g \<notin> freed ?s p)"
    using mem(3) q(4) po by auto
  have "length (md_name md) \<le> 31" using copy_name_facts(1) [of s "ucast (mm_cmdline e)" 31] e(1) by (simp add: to_mod_def)
  then have a: "\<forall>a \<in> set (argv_of (md_name (ex_mods ?x ! 0)) None). length a \<le> 2000" using q(1) by (simp add: argv_of_def)
  have n: "0 < length (ex_mods ?x)" "ex_mods ?x ! 0 = md" using q(1) by simp_all
  have cd: "5 * length (elf_pages (phdrs img ?s)) + 10 \<le> card (free_addrs (vm_pmm ?s))" using mem(1) q(4) ec(3) by simp
  have us: "\<forall>p \<in> set user_range. unmap_safe ?s p" using mem(2) po(4) by simp
  obtain sp s' where en: "enter_program (int 0) None ?x = (Entered (eh_entry (ehdr_at ?s img)) sp, ?x\<lparr>ex_vm := s'\<rparr>)"
      "args_at s' sp (argv_of (md_name md) None)" "\<forall>p \<in> set (phdrs img ?s). seg_loaded img ?s p s'"
    by (rule enter_program_ok [of 0 ?x None, unfolded n(2) q(2), folded img(1,2), OF n(1) po(1) ec(1) cd us fr])
      (use a n(2) in simp_all)
  let ?k' = "k\<lparr>kn_ex := ?x\<lparr>ex_vm := s'\<rparr>\<rparr>"
  have "boot_program mbi k = (Enter (eh_entry (ehdr_at s img)) sp, ?k')" using c en(1) ec(2) by (simp add: boot_program_def enter_or_def)
  moreover have "seg_loaded img s p s'" if p: "p \<in> set (phdrs img s)" for p
    using en(3) p ec(3) by (simp add: seg_loaded_def ub_def)
  ultimately show ?thesis using en(2) by (intro exI [of _ sp] exI [of _ ?k']) (simp add: argv_of_def)
qed

lemma boot_keeps_ex: "kn_ex (mc_kernel (boot_tables bd m)) = kn_ex (mc_kernel m)" "kn_ex (boot_files hw k) = kn_ex k"
  "kn_ex (mc_kernel (boot_network bd m)) = kn_ex (mc_kernel m)"
  by (simp_all add: boot_tables_def boot_files_def boot_network_def kputs_def Let_def split: prod.splits option.splits)

section \<open>An example start\<close>

text \<open>The loader's information at 0x201000 names one module, the program of the theory \<open>Elf\<close> at 0x200000.\<close>

definition boot_info :: "byte list" where
  "boot_info = replicate 20 0 @ [1, 0, 0, 0, 0x40, 0x10, 0x20, 0] @ replicate 36 0
     @ [0, 0, 0x20, 0, 0x7A, 0, 0x20, 0, 0x50, 0x10, 0x20, 0, 0, 0, 0, 0, 0x69, 0x6E, 0x69, 0x74, 0]"

definition start_vm :: vm where
  "start_vm = fold (\<lambda>k. st8 (0x201000 + word_of_nat k) (boot_info ! k)) [0..<85] demo_vm"

lemma poke_elsewhere: "(\<forall>k < n. c \<noteq> a + word_of_nat k) \<Longrightarrow> ld8 (fold (\<lambda>k. st8 (a + word_of_nat k) (xs ! k)) [0..<n] s) c = ld8 s c"
  by (induction n) (simp_all add: ld8_st8)

lemma start_base: "aligned 0x201000" "0x201000 \<notin> tabs demo_vm"
proof -
  show "aligned 0x201000" by (simp add: aligned_def)
  have "unat t < 0x7000" if "t \<in> tabs boot_vm" for t using that boot_paths unfolding tabs_def by fastforce
  then show "0x201000 \<notin> tabs demo_vm" unfolding demo_facts(2) by fastforce
qed

lemma start_facts: "pt_inv start_vm" "tabs start_vm = tabs demo_vm" "vm_pmm start_vm = pmm_example" "\<not> small start_vm w"
  "k < 85 \<Longrightarrow> ld8 start_vm (0x201000 + word_of_nat k) = boot_info ! k"
proof -
  note d = poke_bytes [OF start_base demo_facts(1), of 85 boot_info, folded start_vm_def]
  show pm: "vm_pmm start_vm = pmm_example" using d demo_facts(3) by simp
  have "pmm_inv (vm_pmm start_vm)" "free_addrs (vm_pmm start_vm) \<inter> tabs demo_vm = {}"
    using pt_invD(1) [OF demo_facts(1)] tabs_not_free [OF demo_facts(1)] unfolding pm demo_facts(3) by auto
  then show "pt_inv start_vm" "tabs start_vm = tabs demo_vm"
    using tree_cong_inv [OF demo_facts(1), of start_vm] d by auto
  have "tab start_vm p = tab demo_vm p" if "path_ok p" for p
    using tree_cong [of start_vm demo_vm] d that by auto
  moreover have "path_ok (vpath w 0)" by (simp add: path_ok_def vpath_def)
  ultimately show "\<not> small start_vm w" using demo_small [of w] by (simp add: small_def)
  show "k < 85 \<Longrightarrow> ld8 start_vm (0x201000 + word_of_nat k) = boot_info ! k" using d by simp
qed

lemma start_image: "k < 122 \<Longrightarrow> ld8 start_vm (0x200000 + word_of_nat k) = ld8 demo_vm (0x200000 + word_of_nat k)"
  unfolding start_vm_def
proof (rule poke_elsewhere, intro allI impI notI)
  fix j :: nat
  assume k: "k < 122" and j: "j < 85" and e: "0x200000 + word_of_nat k = (0x201000 + word_of_nat j :: 64 word)"
  have "unat (0x200000 + word_of_nat k :: 64 word) = 0x200000 + k" "unat (0x201000 + word_of_nat j :: 64 word) = 0x201000 + j"
    using j k by (simp_all add: unat_word_ariths unat_of_nat)
  then show False using e j k by simp
qed

lemma start_elf: "elf_ok 0x200000 122 start_vm" "ehdr_at start_vm 0x200000 = ehdr_at demo_vm 0x200000" "phdrs 0x200000 start_vm = phdrs 0x200000 demo_vm"
proof -
  have "\<forall>k < unat (122 :: 64 word). ld8 start_vm (0x200000 + word_of_nat k) = ld8 demo_vm (0x200000 + word_of_nat k)" using start_image by simp
  from elf_ok_cong [OF demo_ok this] show "elf_ok 0x200000 122 start_vm" "ehdr_at start_vm 0x200000 = ehdr_at demo_vm 0x200000"
    "phdrs 0x200000 start_vm = phdrs 0x200000 demo_vm" by simp_all
qed

lemma start_ld:
  assumes "a = 0x201000 + word_of_nat j" "j + n \<le> 85"
  shows "map (\<lambda>k. ld8 start_vm (a + word_of_nat k)) [0..<n] = take n (drop j boot_info)"
proof (rule nth_equalityI)
  have l: "length boot_info = 85" by (simp add: boot_info_def)
  then show "length (map (\<lambda>k. ld8 start_vm (a + word_of_nat k)) [0..<n]) = length (take n (drop j boot_info))" using assms(2) by simp
  fix i assume "i < length (map (\<lambda>k. ld8 start_vm (a + word_of_nat k)) [0..<n])"
  then have i: "i < n" by simp
  then have "ld8 start_vm (a + word_of_nat i) = boot_info ! (j + i)"
    using start_facts(5) [of "j + i"] assms by (simp add: add.assoc)
  then show "map (\<lambda>k. ld8 start_vm (a + word_of_nat k)) [0..<n] ! i = take n (drop j boot_info) ! i" using i assms(2) l by simp
qed

lemma start_info: "mbi_at start_vm 0x201000 = \<lparr>mbi_flags = 0, mbi_mods_count = 1, mbi_mods_addr = 0x201040, mbi_mmap_length = 0, mbi_mmap_addr = 0\<rparr>"
proof -
  have "ld_le start_vm 0x201000 4 = (0 :: 32 word)"
    unfolding ld_le_def by (subst start_ld [of _ 0]) (simp, simp, code_simp)
  moreover have "ld_le start_vm (0x201000 + 20) 4 = (1 :: 32 word)"
    unfolding ld_le_def by (subst start_ld [of _ 20]) (simp, simp, code_simp)
  moreover have "ld_le start_vm (0x201000 + 24) 4 = (0x201040 :: 32 word)"
    unfolding ld_le_def by (subst start_ld [of _ 24]) (simp, simp, code_simp)
  moreover have "ld_le start_vm (0x201000 + 44) 4 = (0 :: 32 word)"
    unfolding ld_le_def by (subst start_ld [of _ 44]) (simp, simp, code_simp)
  moreover have "ld_le start_vm (0x201000 + 48) 4 = (0 :: 32 word)"
    unfolding ld_le_def by (subst start_ld [of _ 48]) (simp, simp, code_simp)
  ultimately show ?thesis by (simp add: mbi_at_def)
qed

lemma start_mods: "boot_mods start_vm 0x201040 [0..<1] = [\<lparr>md_start = 0x200000, md_end = 0x20007A, md_name = cs ''init''\<rparr>]"
proof -
  have "ld_le start_vm 0x201040 4 = (0x200000 :: 32 word)" "ld_le start_vm (0x201040 + 4) 4 = (0x20007A :: 32 word)"
    "ld_le start_vm (0x201040 + 8) 4 = (0x201050 :: 32 word)" "ld_le start_vm (0x201040 + 12) 4 = (0 :: 32 word)"
    unfolding ld_le_def by ((subst start_ld [of _ 64], simp, simp, code_simp), (subst start_ld [of _ 68], simp, simp, code_simp),
        (subst start_ld [of _ 72], simp, simp, code_simp), (subst start_ld [of _ 76], simp, simp, code_simp))
  then have e: "mb_mod_at start_vm 0x201040 = \<lparr>mm_start = 0x200000, mm_end = 0x20007A, mm_cmdline = 0x201050, mm_reserved = 0\<rparr>"
    by (simp add: mb_mod_at_def)
  have b: "ld8 start_vm 0x201050 = 0x69" "ld8 start_vm 0x201051 = 0x6E" "ld8 start_vm 0x201052 = 0x69" "ld8 start_vm 0x201053 = 0x74" "ld8 start_vm 0x201054 = 0"
    using start_facts(5) [of 80] start_facts(5) [of 81] start_facts(5) [of 82] start_facts(5) [of 83] start_facts(5) [of 84]
    by (simp_all add: boot_info_def nth_append)
  have "copy_name start_vm 0x201050 (Suc (Suc (Suc (Suc (Suc 26))))) = [0x69, 0x6E, 0x69, 0x74]"
    unfolding copy_name.simps by (simp add: b)
  moreover have "Suc (Suc (Suc (Suc (Suc 26)))) = 31" by simp
  ultimately have "copy_name start_vm 0x201050 31 = cs ''init''" by (simp add: cs_def ch_def)
  then show ?thesis by (simp add: boot_mods_def e usable_def to_mod_def b(1))
qed

definition demo_board :: "(sim, simpci) board" where
  "demo_board = \<lparr>bd_ata = sim_hw, bd_pci = simpci_hw, bd_live = (\<lambda>a old. old), bd_kernel_start = 0x100000, bd_kernel_end = 0x102000, bd_cs = 8,
     bd_exception_stub = 0x100100, bd_irq1_stub = 0x100200, bd_syscall_entry = 0x100300, bd_idt = 0x101000, bd_gdt = 0x101800, bd_tss = 0x101900,
     bd_kstack = 0x102000, bd_nic = \<lparr>dv_bus = 0, dv_slot = 0, dv_func = 0, dv_vendor = 0, dv_device = 0, dv_class = 0, dv_subclass = 0, dv_bar = []\<rparr>,
     bd_e1000 = demo_dev, bd_rx_buffer = replicate 2048 0\<rparr>"

definition demo_machine :: "(sim, simpci) machine" where
  "demo_machine = \<lparr>mc_kernel = \<lparr>kn_vga = vga_boot (replicate 2000 0), kn_kbd = kbd_init,
       kn_fs = fs_unmount (vfs0\<lparr>vf_ram := \<lparr>f_nodes = replicate FS_MAX node0, f_cwd = 0\<rparr>\<rparr>),
       kn_ex = \<lparr>ex_mods = [], ex_vm = start_vm\<rparr>, kn_out = []\<rparr>,
     mc_gdt = [], mc_tss = \<lparr>rsp0 = 0, rsp1 = 0, rsp2 = 0, tss_ist = replicate 7 0, iomap_base = 0\<rparr>, mc_gdtr = \<lparr>tr_limit = 0, tr_base = 0\<rparr>, mc_tr = 0,
     mc_idt = [], mc_idtr = \<lparr>tr_limit = 0, tr_base = 0\<rparr>, mc_msrs = (\<lambda>_. (0, 0)), mc_bus = sim_bus, mc_net = None\<rparr>"

lemma demo_static: "static_start (mc_kernel demo_machine)"
  by (simp add: static_start_def demo_machine_def kbd_inv_init vga_inv_def vga_boot_def fs_unmount_def fat_unmount_def fat_mounted_def list_all_length node0_def)

lemma demo_boot:
  shows "mbi_at (kvm (mc_kernel demo_machine)) (ucast (0x201000 :: 32 word))
      = \<lparr>mbi_flags = 0, mbi_mods_count = 1, mbi_mods_addr = 0x201040, mbi_mmap_length = 0, mbi_mmap_addr = 0\<rparr>"
    "kvm (boot_memory bd \<lparr>mbi_flags = 0, mbi_mods_count = 1, mbi_mods_addr = 0x201040, mbi_mmap_length = 0, mbi_mmap_addr = 0\<rparr> (mc_kernel demo_machine)) = start_vm"
  using start_info by (simp_all add: demo_machine_def boot_memory_def)

section \<open>Properties\<close>





end
