(* ===== verification/Keo.thy ===== *)
theory Keo
  imports Keyboard Fs
begin

text \<open>
  The text editor \<^verbatim>\<open>user/keo.c\<close>. Its static arrays are 256 rows of 256 bytes with the length of each
  row; the record \<open>keo\<close> holds them and the other static variables. The \<open>int\<close> variables are natural
  numbers: each is decremented only under a guard that it is positive, so the tests for negative
  values in \<open>clamp\<close> never fire. A store outside the arrays sets \<open>e_fault\<close>. The command buffer is
  kept NUL-terminated at \<open>cmdlen\<close>, so it is the C string \<open>e_cmd\<close> and \<open>cmdlen\<close> its length.
\<close>

section \<open>State\<close>

definition MAXL :: nat where "MAXL = 256"
definition MAXC :: nat where "MAXC = 256"
definition TXT_ROWS :: nat where "TXT_ROWS = 23"
definition ROW_STAT :: nat where "ROW_STAT = 23"
definition ROW_CMD :: nat where "ROW_CMD = 24"

lemmas keo_consts = MAXL_def MAXC_def TXT_ROWS_def ROW_STAT_def ROW_CMD_def

record keo =
  e_lines :: "byte list list"
  e_lens :: "nat list"
  e_n :: nat
  e_cx :: nat
  e_cy :: nat
  e_top :: nat
  e_dirty :: bool
  e_fname :: cstr
  e_mode :: nat
  e_cmd :: cstr
  e_msg :: cstr
  e_pd :: bool
  e_pg :: bool
  e_fault :: bool

text \<open>The static initialisers: everything is 0 but the number of lines.\<close>

definition keo_boot :: keo where
  "keo_boot = \<lparr>e_lines = replicate MAXL (replicate MAXC 0), e_lens = replicate MAXL 0, e_n = 1, e_cx = 0,
     e_cy = 0, e_top = 0, e_dirty = False, e_fname = [], e_mode = 0, e_cmd = [], e_msg = [], e_pd = False,
     e_pg = False, e_fault = False\<rparr>"

abbreviation cell :: "keo \<Rightarrow> nat \<Rightarrow> nat \<Rightarrow> byte" where "cell k i j \<equiv> e_lines k ! i ! j"
abbreviation len :: "keo \<Rightarrow> nat \<Rightarrow> nat" where "len k i \<equiv> e_lens k ! i"

definition set_cell :: "nat \<Rightarrow> nat \<Rightarrow> byte \<Rightarrow> keo \<Rightarrow> keo" where
  "set_cell i j c k =
     (if i < MAXL \<and> j < MAXC then k\<lparr>e_lines := (e_lines k)[i := (e_lines k ! i)[j := c]]\<rparr>
      else k\<lparr>e_fault := True\<rparr>)"

definition set_len :: "nat \<Rightarrow> nat \<Rightarrow> keo \<Rightarrow> keo" where
  "set_len i n k = (if i < MAXL then k\<lparr>e_lens := (e_lens k)[i := n]\<rparr> else k\<lparr>e_fault := True\<rparr>)"

section \<open>Drawing\<close>

definition clamp :: "keo \<Rightarrow> keo" where
  "clamp k =
     (let cy = (if e_cy k > e_n k - 1 then e_n k - 1 else e_cy k);
          cx = (if e_cx k > len k cy then len k cy else e_cx k);
          top = (if e_top k > cy then cy else e_top k);
          top = (if top + (TXT_ROWS - 1) < cy then cy - (TXT_ROWS - 1) else top)
      in k\<lparr>e_cy := cy, e_cx := cx, e_top := top\<rparr>)"

text \<open>The digits of a number, as \<open>emit_dec\<close> appends them to the row (both callers pass a positive one).\<close>

fun dec_digits :: "nat \<Rightarrow> byte list" where
  "dec_digits n = (if n < 10 then [word_of_nat (48 + n)] else dec_digits (n div 10) @ [word_of_nat (48 + n mod 10)])"

declare dec_digits.simps [simp del]

definition keo_emit_dec :: "byte list \<Rightarrow> nat \<Rightarrow> byte list" where
  "keo_emit_dec row v = row @ dec_digits v"

text \<open>What the editor asks the kernel to show.\<close>

datatype scr = SetColor nat nat | Goto nat nat | Write "byte list"

text \<open>\<open>while (n < w) row[n++] = ' '\<close>\<close>

definition pad_to :: "nat \<Rightarrow> byte list \<Rightarrow> byte list" where
  "pad_to w row = row @ replicate (w - length row) 32"

text \<open>\<open>for (i = 0; s[i] \<and> n < w; i++) row[n++] = s[i]\<close>\<close>

definition fill_to :: "nat \<Rightarrow> cstr \<Rightarrow> byte list \<Rightarrow> byte list" where
  "fill_to w s row = row @ take (w - length row) s"

definition text_row :: "keo \<Rightarrow> nat \<Rightarrow> byte list" where
  "text_row k li = pad_to 80 (if li < e_n k then take (min (len k li) 80) (e_lines k ! li) else [ch (CHR ''~'')])"

definition status_row :: "keo \<Rightarrow> byte list" where
  "status_row k =
     (let row = fill_to 40 (e_fname k) (cs ''keo '');
          row = (if e_dirty k \<and> length row < 80 then row @ [ch (CHR ''*'')] else row);
          row = keo_emit_dec (pad_to 52 row) (e_cy k + 1) @ [ch (CHR '','')];
          row = keo_emit_dec row (e_cx k + 1) @ [32]
      in pad_to 80 (fill_to 80 (if e_mode k = 0 then cs ''NORMAL'' else if e_mode k = 1 then cs ''INSERT'' else cs ''CMD'') row))"

definition cmd_row :: "keo \<Rightarrow> byte list" where
  "cmd_row k = pad_to 80 (if e_mode k = 2 then fill_to 80 (e_cmd k) [ch (CHR '':'')] else fill_to 80 (e_msg k) [])"

definition draw :: "keo \<Rightarrow> keo \<times> scr list" where
  "draw k0 =
     (let k = clamp k0 in
      (k, concat (map (\<lambda>r. [SetColor 0x0F 0, Goto r 0, Write (text_row k (e_top k + r))]) [0..<TXT_ROWS])
        @ [SetColor 0 0x07, Goto ROW_STAT 0, Write (status_row k), SetColor 0x0F 0, Goto ROW_CMD 0, Write (cmd_row k),
           (if e_mode k = 2 then Goto ROW_CMD (min (1 + length (e_cmd k)) 79)
            else Goto (e_cy k - e_top k) (min (e_cx k) 79))]))"

section \<open>Files\<close>

text \<open>
  The two file system calls, as functions on the state of the kernel: \<open>sys_fread(name, buf, cap)\<close> with
  its result and the bytes stored, \<open>sys_fwrite(name, buf, len)\<close> with its result. \<open>sys_exit\<close> starts the
  init program or halts, so it does not return: \<open>Exit\<close>.
\<close>

record 'w sysio =
  io_fread :: "cstr \<Rightarrow> nat \<Rightarrow> 'w \<Rightarrow> (int \<times> byte list) \<times> 'w"
  io_fwrite :: "cstr \<Rightarrow> byte list \<Rightarrow> 'w \<Rightarrow> int \<times> 'w"

datatype 'w outcome = Exit 'w | Cont keo 'w

fun save_buf :: "keo \<Rightarrow> nat list \<Rightarrow> byte list \<Rightarrow> byte list option" where
  "save_buf k [] buf = Some buf"
| "save_buf k (i # is) buf =
     (if length buf + len k i + 1 > FILE_MAX then None
      else save_buf k is (buf @ take (len k i) (e_lines k ! i) @ [10]))"

definition save :: "'w sysio \<Rightarrow> keo \<Rightarrow> 'w \<Rightarrow> int \<times> keo \<times> 'w" where
  "save io k w =
     (if e_fname k = [] then (-99, k, w)
      else case save_buf k [0..<e_n k] [] of
        None \<Rightarrow> (FS_FULL, k, w)
      | Some buf \<Rightarrow>
        let (r, w1) = io_fwrite io (e_fname k) buf w
        in (r, if r = 0 then k\<lparr>e_dirty := False\<rparr> else k, w1))"

text \<open>One byte of the file: the current line and the editor's state.\<close>

definition load_byte :: "byte \<Rightarrow> nat \<times> keo \<Rightarrow> nat \<times> keo" where
  "load_byte b = (\<lambda>(li, k).
     if b = 10 then (if li + 1 < MAXL then (li + 1, set_len (li + 1) 0 k) else (li, k))
     else if len k li < MAXC - 1 then (li, set_len li (len k li + 1) (set_cell li (len k li) b k))
     else (li, k))"

definition load :: "'w sysio \<Rightarrow> keo \<Rightarrow> 'w \<Rightarrow> keo \<times> 'w" where
  "load io k0 w =
     (let ((n, buf), w1) = io_fread io (e_fname k0) FILE_MAX w;
          k = (set_len 0 0 k0)\<lparr>e_n := 1, e_cx := 0, e_cy := 0, e_top := 0, e_dirty := False, e_mode := 0, e_msg := []\<rparr>
      in if n \<le> 0 then (k, w1)
         else
           let (li, k1) = fold load_byte (take (nat n) buf) (0, k) in
           (k1\<lparr>e_n := (if buf ! (nat n - 1) = 10 \<and> li + 1 > 1 then li else li + 1)\<rparr>, w1))"

definition set_msg :: "cstr \<Rightarrow> keo \<Rightarrow> keo" where
  "set_msg s k = k\<lparr>e_msg := take 79 s\<rparr>"

definition do_save :: "'w sysio \<Rightarrow> keo \<Rightarrow> 'w \<Rightarrow> 'w outcome" where
  "do_save io k w =
     (let (r, k1, w1) = save io k w in
      if r = 0 then Exit w1
      else if r = FS_FULL then Cont (set_msg (cs ''too big'') k1) w1
      else if r = FS_RO then Cont (set_msg (cs ''read-only'') k1) w1
      else Cont (set_msg (cs ''cannot save'') k1) w1)"

definition exec_cmd :: "'w sysio \<Rightarrow> keo \<Rightarrow> 'w \<Rightarrow> 'w outcome" where
  "exec_cmd io k w =
     (let c = e_cmd k in
      if same_condition c (cs ''w'') then do_save io k w
      else if take 2 c = cs ''w '' then do_save io (k\<lparr>e_fname := take 127 (drop 2 c)\<rparr>) w
      else if same_condition c (cs ''q'') then
        (if e_dirty k then Cont (set_msg (cs ''unsaved, use q!'') k) w else Exit w)
      else if same_condition c (cs ''q!'') then Exit w
      else if same_condition c (cs ''wq'') then do_save io k w
      else Cont (set_msg (cs ''bad cmd'') k) w)"

section \<open>Editing\<close>

text \<open>The inner loop that copies a row, and its length.\<close>

definition copy_line :: "nat \<Rightarrow> nat \<Rightarrow> keo \<Rightarrow> keo" where
  "copy_line dst src k = set_len dst (len k src) (fold (\<lambda>j k. set_cell dst j (cell k src j) k) [0..<len k src] k)"

definition del_char :: "keo \<Rightarrow> keo" where
  "del_char k =
     (let cy = e_cy k; n = len k cy in
      if e_cx k < n then
        (set_len cy (n - 1) (fold (\<lambda>i k. set_cell cy i (cell k cy (i + 1)) k) [e_cx k..<n - 1] k))\<lparr>e_dirty := True\<rparr>
      else k)"

definition del_line_at :: "nat \<Rightarrow> keo \<Rightarrow> keo" where
  "del_line_at at k = (fold (\<lambda>i. copy_line i (i + 1)) [at..<e_n k - 1] k)\<lparr>e_n := e_n k - 1\<rparr>"

definition del_line :: "keo \<Rightarrow> keo" where
  "del_line k =
     (if e_n k \<le> 1 then (set_len 0 0 k)\<lparr>e_cx := 0, e_dirty := True\<rparr>
      else (del_line_at (e_cy k) k)\<lparr>e_dirty := True\<rparr>)"

text \<open>\<open>for (i = nlines; i > at; i--)\<close>: the rows from \<open>at\<close> move down by one.\<close>

definition shift_down :: "nat \<Rightarrow> keo \<Rightarrow> keo" where
  "shift_down at k = fold (\<lambda>i. copy_line i (i - 1)) (rev [at + 1..<e_n k + 1]) k"

definition open_line :: "bool \<Rightarrow> keo \<Rightarrow> keo" where
  "open_line below k =
     (if e_n k \<ge> MAXL then set_msg (cs ''full'') k
      else
        let at = (if below then e_cy k + 1 else e_cy k) in
        (set_len at 0 (shift_down at k))\<lparr>e_n := e_n k + 1, e_cy := at, e_cx := 0, e_dirty := True, e_mode := 1\<rparr>)"

definition normal_key :: "byte \<Rightarrow> keo \<Rightarrow> keo" where
  "normal_key c k =
     (let fin = (\<lambda>k. k\<lparr>e_pd := (if c = ch (CHR ''d'') then e_pd k else False),
                       e_pg := (if c = ch (CHR ''g'') then e_pg k else False)\<rparr>);
          n = len k (e_cy k) in
      if c = ch (CHR ''h'') \<or> c = KEY_LEFT then fin (if e_cx k > 0 then k\<lparr>e_cx := e_cx k - 1\<rparr> else k)
      else if c = ch (CHR ''l'') \<or> c = KEY_RIGHT then fin (if e_cx k < n then k\<lparr>e_cx := e_cx k + 1\<rparr> else k)
      else if c = ch (CHR ''j'') \<or> c = KEY_DOWN then fin (if e_cy k < e_n k - 1 then k\<lparr>e_cy := e_cy k + 1\<rparr> else k)
      else if c = ch (CHR ''k'') \<or> c = KEY_UP then fin (if e_cy k > 0 then k\<lparr>e_cy := e_cy k - 1\<rparr> else k)
      else if c = ch (CHR ''i'') then fin (k\<lparr>e_mode := 1\<rparr>)
      else if c = ch (CHR ''a'') then fin (k\<lparr>e_cx := (if e_cx k < n then e_cx k + 1 else e_cx k), e_mode := 1\<rparr>)
      else if c = ch (CHR ''A'') then fin (k\<lparr>e_cx := n, e_mode := 1\<rparr>)
      else if c = ch (CHR ''o'') then fin (open_line True k)
      else if c = ch (CHR ''O'') then fin (open_line False k)
      else if c = ch (CHR ''x'') \<or> c = KEY_DEL then fin (del_char k)
      else if c = ch (CHR ''d'') then
        (if e_pd k then fin ((del_line k)\<lparr>e_pd := False\<rparr>) else k\<lparr>e_pd := True\<rparr>)
      else if c = ch (CHR ''g'') then
        (if e_pg k then fin (k\<lparr>e_cy := 0, e_pg := False\<rparr>) else k\<lparr>e_pg := True\<rparr>)
      else if c = ch (CHR ''G'') then fin (k\<lparr>e_cy := e_n k - 1\<rparr>)
      else if c = ch (CHR ''0'') then fin (k\<lparr>e_cx := 0\<rparr>)
      else if c = ch (CHR ''$'') then fin (k\<lparr>e_cx := (if n \<noteq> 0 then n - 1 else 0)\<rparr>)
      else if c = ch (CHR '':'') then fin (k\<lparr>e_mode := 2, e_cmd := []\<rparr>)
      else fin k)"

text \<open>The three editing actions of \<open>insert_key\<close>: a newline, a backspace and a character.\<close>

definition ins_newline :: "keo \<Rightarrow> keo" where
  "ins_newline k =
     (if e_n k \<ge> MAXL then set_msg (cs ''full'') k
      else
        let cy = e_cy k; cx = e_cx k;
            k1 = shift_down (cy + 1) k;
            k2 = fold (\<lambda>j k. set_cell (cy + 1) (j - cx) (cell k cy j) k) [cx..<len k1 cy] k1;
            k3 = set_len cy cx (set_len (cy + 1) (len k2 cy - cx) k2)
        in k3\<lparr>e_n := e_n k + 1, e_cy := cy + 1, e_cx := 0, e_dirty := True\<rparr>)"

definition ins_backspace :: "keo \<Rightarrow> keo" where
  "ins_backspace k =
     (let cy = e_cy k in
      if e_cx k > 0 then del_char (k\<lparr>e_cx := e_cx k - 1\<rparr>)
      else if cy > 0 then
        let pl = len k (cy - 1) in
        if pl + len k cy < MAXC then
          let k1 = fold (\<lambda>j k. set_cell (cy - 1) (pl + j) (cell k cy j) k) [0..<len k cy] k;
              k2 = set_len (cy - 1) (pl + len k1 cy) k1
          in (del_line_at cy k2)\<lparr>e_cy := cy - 1, e_cx := pl, e_dirty := True\<rparr>
        else k
      else k)"

definition ins_char :: "byte \<Rightarrow> keo \<Rightarrow> keo" where
  "ins_char c k =
     (let cy = e_cy k; n = len k cy;
          k1 = fold (\<lambda>j k. set_cell cy j (cell k cy (j - 1)) k) (rev [e_cx k + 1..<n + 1]) k
      in (set_len cy (n + 1) (set_cell cy (e_cx k) c k1))\<lparr>e_cx := e_cx k + 1, e_dirty := True\<rparr>)"

definition insert_key :: "byte \<Rightarrow> keo \<Rightarrow> keo" where
  "insert_key c k =
     (if c = 27 then
        k\<lparr>e_mode := 0, e_cx := (if e_cx k > len k (e_cy k) then len k (e_cy k) else e_cx k)\<rparr>
      else if c \<in> {KEY_UP, KEY_DOWN, KEY_LEFT, KEY_RIGHT} then normal_key c k
      else if c = 10 then ins_newline k
      else if c = 8 then ins_backspace k
      else if 32 \<le> c \<and> c < 127 \<and> len k (e_cy k) < MAXC - 1 then ins_char c k
      else k)"

definition cmd_key :: "'w sysio \<Rightarrow> byte \<Rightarrow> keo \<Rightarrow> 'w \<Rightarrow> 'w outcome" where
  "cmd_key io c k w =
     (if c = 27 then Cont (k\<lparr>e_mode := 0\<rparr>) w
      else if c = 10 then exec_cmd io (k\<lparr>e_mode := 0\<rparr>) w
      else if c = 8 then Cont (k\<lparr>e_cmd := butlast (e_cmd k)\<rparr>) w
      else if 32 \<le> c \<and> c < 127 \<and> length (e_cmd k) < 127 then Cont (k\<lparr>e_cmd := e_cmd k @ [c]\<rparr>) w
      else Cont k w)"

text \<open>One turn of the loop of \<open>user_main\<close>, and its beginning for an argument of the program.\<close>

definition keo_turn :: "'w sysio \<Rightarrow> byte \<Rightarrow> keo \<Rightarrow> 'w \<Rightarrow> 'w outcome" where
  "keo_turn io c k0 w0 =
     (let k = k0\<lparr>e_msg := []\<rparr> in
      case (if e_mode k = 0 then Cont (normal_key c k) w0
            else if e_mode k = 1 then Cont (insert_key c k) w0
            else cmd_key io c k w0) of
        Exit w \<Rightarrow> Exit w
      | Cont k1 w \<Rightarrow> Cont (fst (draw k1)) w)"

definition keo_start :: "'w sysio \<Rightarrow> cstr option \<Rightarrow> 'w \<Rightarrow> 'w outcome" where
  "keo_start io arg w0 =
     (case arg of
        Some (a # as) \<Rightarrow>
          (case load io (keo_boot\<lparr>e_fname := take 127 (a # as)\<rparr>) w0 of
             (k, w) \<Rightarrow> Cont (fst (draw k)) w)
      | _ \<Rightarrow> Exit w0)"

fun keo_run :: "'w sysio \<Rightarrow> byte list \<Rightarrow> 'w outcome \<Rightarrow> 'w outcome" where
  "keo_run io [] r = r"
| "keo_run io (c # keys) r = (case r of Exit w \<Rightarrow> Exit w | Cont k w \<Rightarrow> keo_run io keys (keo_turn io c k w))"

section \<open>The arrays\<close>

text \<open>The text of a row, the document, and the shape the arrays keep.\<close>

definition row_text :: "keo \<Rightarrow> nat \<Rightarrow> cstr" where
  "row_text k i = take (len k i) (e_lines k ! i)"

definition doc :: "keo \<Rightarrow> cstr list" where
  "doc k = map (row_text k) [0..<e_n k]"

definition arr_ok :: "keo \<Rightarrow> bool" where
  "arr_ok k \<longleftrightarrow> length (e_lines k) = MAXL \<and> (\<forall>i < MAXL. length (e_lines k ! i) = MAXC)
     \<and> length (e_lens k) = MAXL \<and> (\<forall>i < MAXL. len k i \<le> MAXC) \<and> \<not> e_fault k"

text \<open>A step that only stores into the arrays: everything else is as before.\<close>

definition others :: "keo \<Rightarrow> (nat \<times> nat \<times> nat \<times> nat) \<times> bool \<times> cstr \<times> nat \<times> cstr \<times> cstr \<times> bool \<times> bool" where
  "others k = ((e_n k, e_cx k, e_cy k, e_top k), e_dirty k, e_fname k, e_mode k, e_cmd k, e_msg k, e_pd k, e_pg k)"

definition stores :: "keo \<Rightarrow> keo \<Rightarrow> bool" where
  "stores k k' \<longleftrightarrow> arr_ok k' \<and> others k' = others k"

lemma storesD:
  assumes "stores k k'"
  shows "arr_ok k'" "e_n k' = e_n k" "e_cx k' = e_cx k" "e_cy k' = e_cy k" "e_top k' = e_top k"
    "e_dirty k' = e_dirty k" "e_fname k' = e_fname k" "e_mode k' = e_mode k" "e_cmd k' = e_cmd k"
    "e_msg k' = e_msg k" "e_pd k' = e_pd k" "e_pg k' = e_pg k"
  using assms by (auto simp: stores_def others_def)

lemma stores_refl: "arr_ok k \<Longrightarrow> stores k k"
  by (simp add: stores_def)

lemma stores_trans: "stores k k1 \<Longrightarrow> stores k1 k2 \<Longrightarrow> stores k k2"
  by (auto simp: stores_def)

lemma arr_ok_upd [simp]:
  "arr_ok (k\<lparr>e_n := n\<rparr>) = arr_ok k" "arr_ok (k\<lparr>e_cx := x\<rparr>) = arr_ok k" "arr_ok (k\<lparr>e_cy := y\<rparr>) = arr_ok k"
  "arr_ok (k\<lparr>e_top := t\<rparr>) = arr_ok k" "arr_ok (k\<lparr>e_dirty := d\<rparr>) = arr_ok k" "arr_ok (k\<lparr>e_fname := f\<rparr>) = arr_ok k"
  "arr_ok (k\<lparr>e_mode := m\<rparr>) = arr_ok k" "arr_ok (k\<lparr>e_cmd := c\<rparr>) = arr_ok k" "arr_ok (k\<lparr>e_msg := g\<rparr>) = arr_ok k"
  "arr_ok (k\<lparr>e_pd := p\<rparr>) = arr_ok k" "arr_ok (k\<lparr>e_pg := p\<rparr>) = arr_ok k"
  by (simp_all add: arr_ok_def)

lemma row_text_upd [simp]:
  "row_text (k\<lparr>e_n := n\<rparr>) = row_text k" "row_text (k\<lparr>e_cx := x\<rparr>) = row_text k" "row_text (k\<lparr>e_cy := y\<rparr>) = row_text k"
  "row_text (k\<lparr>e_top := t\<rparr>) = row_text k" "row_text (k\<lparr>e_dirty := d\<rparr>) = row_text k" "row_text (k\<lparr>e_fname := f\<rparr>) = row_text k"
  "row_text (k\<lparr>e_mode := m\<rparr>) = row_text k" "row_text (k\<lparr>e_cmd := c\<rparr>) = row_text k" "row_text (k\<lparr>e_msg := g\<rparr>) = row_text k"
  "row_text (k\<lparr>e_pd := p\<rparr>) = row_text k" "row_text (k\<lparr>e_pg := p\<rparr>) = row_text k"
  by (simp_all add: row_text_def fun_eq_iff)

lemma length_row_text: "arr_ok k \<Longrightarrow> i < MAXL \<Longrightarrow> length (row_text k i) = len k i"
  by (simp add: row_text_def arr_ok_def)

lemma set_len_ok:
  assumes "arr_ok k" "i < MAXL" "n \<le> MAXC"
  shows "stores k (set_len i n k)" "e_lines (set_len i n k) = e_lines k" "len (set_len i n k) m = (if m = i then n else len k m)"
proof -
  show "stores k (set_len i n k)"
    using assms by (auto simp: stores_def others_def arr_ok_def set_len_def nth_list_update)
  show "e_lines (set_len i n k) = e_lines k" "len (set_len i n k) m = (if m = i then n else len k m)"
    using assms by (auto simp: set_len_def arr_ok_def nth_list_update)
qed

lemma set_cell_ok:
  assumes "arr_ok k" "i < MAXL" "j < MAXC"
  shows "stores k (set_cell i j c k)" "e_lens (set_cell i j c k) = e_lens k"
    "e_lines (set_cell i j c k) = (e_lines k)[i := (e_lines k ! i)[j := c]]"
proof -
  show "stores k (set_cell i j c k)"
    using assms by (auto simp: stores_def others_def arr_ok_def set_cell_def nth_list_update)
  show "e_lens (set_cell i j c k) = e_lens k" "e_lines (set_cell i j c k) = (e_lines k)[i := (e_lines k ! i)[j := c]]"
    using assms by (simp_all add: set_cell_def)
qed

text \<open>
  A loop that stores into row \<open>i\<close>: the lengths and the other rows stay, and the row is what the same
  loop makes of it; the value stored may depend on the row and on another row \<open>src\<close>.
\<close>

definition row_stores :: "nat \<Rightarrow> (nat \<Rightarrow> nat) \<Rightarrow> (byte list \<Rightarrow> (nat \<Rightarrow> byte) \<Rightarrow> nat \<Rightarrow> byte) \<Rightarrow> nat \<Rightarrow> nat list \<Rightarrow> keo \<Rightarrow> keo" where
  "row_stores i f g src js k = fold (\<lambda>j k. set_cell i (f j) (g (e_lines k ! i) (cell k src) j) k) js k"

lemma row_stores_ok:
  assumes "arr_ok k" "i < MAXL" "\<forall>j \<in> set js. f j < MAXC" "src \<noteq> i"
  shows "stores k (row_stores i f g src js k) \<and> e_lens (row_stores i f g src js k) = e_lens k
    \<and> e_lines (row_stores i f g src js k) =
      (e_lines k)[i := fold (\<lambda>j r. r[f j := g r (cell k src) j]) js (e_lines k ! i)]"
  using assms
proof (induction js arbitrary: k)
  case Nil
  then show ?case by (simp add: stores_refl row_stores_def)
next
  case (Cons j js)
  let ?k = "set_cell i (f j) (g (e_lines k ! i) (cell k src) j) k"
  have a: "arr_ok k" "i < MAXL" "f j < MAXC" using Cons.prems by auto
  note k = set_cell_ok [OF a, of "g (e_lines k ! i) (cell k src) j"]
  have "i < length (e_lines k)" using a by (simp add: arr_ok_def)
  moreover have "row_stores i f g src (j # js) k = row_stores i f g src js ?k" by (simp add: row_stores_def)
  ultimately show ?case
    using Cons.IH [OF storesD(1) [OF k(1)]] Cons.prems k stores_trans [OF k(1)] by simp
qed

lemma fold_fill:
  "p + n \<le> length r \<Longrightarrow> fold (\<lambda>j r. r[p + j := v j]) [0..<n] r = take p r @ map v [0..<n] @ drop (p + n) r"
proof (induction n)
  case (Suc n)
  then have "drop (p + n) r = r ! (p + n) # drop (Suc (p + n)) r" by (simp add: Cons_nth_drop_Suc)
  with Suc show ?case by (simp add: list_update_append)
qed simp

lemma fold_fill_from:
  assumes "n - a \<le> length r"
  shows "fold (\<lambda>j r. r[j - a := v j]) [a..<n] r = map v [a..<n] @ drop (n - a) r"
proof (cases "a \<le> n")
  case True
  have u: "[a..<n] = map (\<lambda>j. j + a) [0..<n - a]" using True by (simp add: map_add_upt)
  show ?thesis
    unfolding u using assms fold_fill [of 0 "n - a" r "\<lambda>j. v (j + a)"] by (simp add: fold_map comp_def)
qed simp

lemma fold_left:
  "m < length r \<Longrightarrow> length (fold (\<lambda>i r. r[i := r ! (i + 1)]) [a..<m] r) = length r \<and>
    (\<forall>p. fold (\<lambda>i r. r[i := r ! (i + 1)]) [a..<m] r ! p = (if a \<le> p \<and> p < m then r ! (p + 1) else r ! p))"
proof (induction m)
  case (Suc m)
  then show ?case by (cases "a \<le> m") (auto simp: nth_list_update less_Suc_eq)
qed simp

lemma fold_right:
  "n < length r \<Longrightarrow> length (fold (\<lambda>j r. r[j := r ! (j - 1)]) (rev [a + 1..<n + 1]) r) = length r \<and>
    (\<forall>p. fold (\<lambda>j r. r[j := r ! (j - 1)]) (rev [a + 1..<n + 1]) r ! p = (if a < p \<and> p \<le> n then r ! (p - 1) else r ! p))"
proof (induction n arbitrary: r)
  case (Suc n)
  show ?case
  proof (cases "a \<le> n")
    case True
    then have u: "rev [a + 1..<Suc n + 1] = Suc n # rev [a + 1..<n + 1]" by simp
    define r1 where "r1 = r[Suc n := r ! n]"
    have r1: "r1 ! p = (if p = Suc n then r ! n else r ! p)" "length r1 = length r" "n < length r1" for p
      using Suc.prems by (simp_all add: r1_def nth_list_update)
    have "fold (\<lambda>j r. r[j := r ! (j - 1)]) (rev [a + 1..<Suc n + 1]) r = fold (\<lambda>j r. r[j := r ! (j - 1)]) (rev [a + 1..<n + 1]) r1"
      unfolding u r1_def by simp
    then show ?thesis using Suc.IH [OF r1(3)] True unfolding r1(1,2) by (auto simp: le_Suc_eq)
  qed auto
qed auto

lemma copy_line_ok:
  assumes "arr_ok k" "dst < MAXL" "src < MAXL" "src \<noteq> dst"
  shows "stores k (copy_line dst src k)"
    "row_text (copy_line dst src k) i = (if i = dst then row_text k src else row_text k i)"
proof -
  let ?n = "len k src"
  have n: "?n \<le> MAXC" and L: "length (e_lines k ! dst) = MAXC" "length (e_lines k ! src) = MAXC" "length (e_lines k) = MAXL"
    using assms by (simp_all add: arr_ok_def)
  define k1 where "k1 = row_stores dst (\<lambda>j. j) (\<lambda>r s j. s j) src [0..<?n] k"
  have c: "copy_line dst src k = set_len dst ?n k1" by (simp add: copy_line_def k1_def row_stores_def)
  have k1: "stores k k1" "e_lens k1 = e_lens k"
    "e_lines k1 = (e_lines k)[dst := map (cell k src) [0..<?n] @ drop ?n (e_lines k ! dst)]"
    using row_stores_ok [of k dst "[0..<?n]" "\<lambda>j. j" src "\<lambda>r s j. s j"] assms n L
      fold_fill [of 0 ?n "e_lines k ! dst" "cell k src"]
    unfolding k1_def by auto
  note k2 = set_len_ok [OF storesD(1) [OF k1(1)] assms(2) n]
  show "stores k (copy_line dst src k)" unfolding c using stores_trans [OF k1(1) k2(1)] .
  have "map (cell k src) [0..<?n] = take ?n (e_lines k ! src)" 
    using n L by (simp add: list_eq_iff_nth_eq)
  then show "row_text (copy_line dst src k) i = (if i = dst then row_text k src else row_text k i)"
    unfolding c row_text_def k2(2,3) k1(2,3) using assms(2) L by auto
qed

text \<open>The loops of \<open>del_line_at\<close> and of the insertions of a line.\<close>

lemma shift_up_ok:
  assumes "arr_ok k" "m < MAXL"
  shows "stores k (fold (\<lambda>i. copy_line i (i + 1)) [at..<m] k) \<and>
    (\<forall>i. row_text (fold (\<lambda>i. copy_line i (i + 1)) [at..<m] k) i = (if at \<le> i \<and> i < m then row_text k (i + 1) else row_text k i))"
  using assms(2)
proof (induction m)
  case 0
  then show ?case using assms(1) by (simp add: stores_refl)
next
  case (Suc m)
  let ?k = "fold (\<lambda>i. copy_line i (i + 1)) [at..<m] k"
  have k: "stores k ?k" "\<And>i. row_text ?k i = (if at \<le> i \<and> i < m then row_text k (i + 1) else row_text k i)"
    using Suc by simp_all
  show ?case
  proof (cases "at \<le> m")
    case True
    have "stores ?k (copy_line m (m + 1) ?k)" 
      "\<And>i. row_text (copy_line m (m + 1) ?k) i = (if i = m then row_text ?k (m + 1) else row_text ?k i)"
      using copy_line_ok [of ?k m "m + 1"] storesD(1) [OF k(1)] Suc.prems by simp_all
    then show ?thesis using True k stores_trans [OF k(1)] by auto
  next
    case False
    then show ?thesis using k by auto
  qed
qed

lemma shift_down_ok:
  assumes "arr_ok k" "n < MAXL"
  shows "stores k (fold (\<lambda>i. copy_line i (i - 1)) (rev [at + 1..<n + 1]) k) \<and>
    (\<forall>i. row_text (fold (\<lambda>i. copy_line i (i - 1)) (rev [at + 1..<n + 1]) k) i =
      (if at < i \<and> i \<le> n then row_text k (i - 1) else row_text k i))"
  using assms
proof (induction n arbitrary: k)
  case 0
  then show ?case by (auto simp: stores_refl)
next
  case (Suc n)
  let ?k = "copy_line (Suc n) n k"
  show ?case
  proof (cases "at \<le> n")
    case True
    have k: "stores k ?k" "\<And>i. row_text ?k i = (if i = Suc n then row_text k n else row_text k i)"
      using copy_line_ok [of k "Suc n" n] Suc.prems by simp_all
    have "rev [at + 1..<Suc n + 1] = Suc n # rev [at + 1..<n + 1]" using True by simp
    then show ?thesis
      using Suc.IH [OF storesD(1) [OF k(1)]] Suc.prems k stores_trans [OF k(1)] True by auto
  next
    case False
    then show ?thesis using Suc.prems by (auto simp: stores_refl)
  qed
qed

section \<open>Effects of the editing steps\<close>

lemma length_doc [simp]: "length (doc k) = e_n k"
  by (simp add: doc_def)

lemma doc_nth: "i < e_n k \<Longrightarrow> doc k ! i = row_text k i"
  by (simp add: doc_def)

lemma doc_upd [simp]:
  "doc (k\<lparr>e_cx := x\<rparr>) = doc k" "doc (k\<lparr>e_cy := y\<rparr>) = doc k" "doc (k\<lparr>e_top := t\<rparr>) = doc k"
  "doc (k\<lparr>e_dirty := d\<rparr>) = doc k" "doc (k\<lparr>e_fname := f\<rparr>) = doc k" "doc (k\<lparr>e_mode := m\<rparr>) = doc k"
  "doc (k\<lparr>e_cmd := c\<rparr>) = doc k" "doc (k\<lparr>e_msg := g\<rparr>) = doc k" "doc (k\<lparr>e_pd := p\<rparr>) = doc k"
  "doc (k\<lparr>e_pg := p\<rparr>) = doc k"
  by (simp_all add: doc_def)

lemma nth_splice: "y < length ls \<Longrightarrow> (take y ls @ drop (y + 1) ls) ! i = (if i < y then ls ! i else ls ! (i + 1))" if "i + 1 < length ls"
  using that by (auto simp: nth_append min_def)

lemma del_line_at_ok:
  assumes "arr_ok k" "y < e_n k" "e_n k \<le> MAXL"
  obtains k1 where "del_line_at y k = k1\<lparr>e_n := e_n k - 1\<rparr>" "stores k k1"
    "doc (del_line_at y k) = take y (doc k) @ drop (y + 1) (doc k)"
proof
  let ?k1 = "fold (\<lambda>i. copy_line i (i + 1)) [y..<e_n k - 1] k"
  show "del_line_at y k = ?k1\<lparr>e_n := e_n k - 1\<rparr>" by (simp add: del_line_at_def)
  have *: "stores k ?k1" "\<And>i. row_text ?k1 i = (if y \<le> i \<and> i < e_n k - 1 then row_text k (i + 1) else row_text k i)"
    using shift_up_ok [of k "e_n k - 1" y] assms by simp_all
  then show "stores k ?k1" by simp
  show "doc (del_line_at y k) = take y (doc k) @ drop (y + 1) (doc k)"
  proof (rule nth_equalityI)
    show "length (doc (del_line_at y k)) = length (take y (doc k) @ drop (y + 1) (doc k))"
      using assms by (simp add: del_line_at_def)
    fix i assume "i < length (doc (del_line_at y k))"
    then have i: "i < e_n k - 1" by (simp add: del_line_at_def)
    then have "doc (del_line_at y k) ! i = row_text ?k1 i" by (simp add: doc_def del_line_at_def)
    then show "doc (del_line_at y k) ! i = (take y (doc k) @ drop (y + 1) (doc k)) ! i"
      unfolding *(2) using i assms(2) nth_splice [of i "doc k" y] by (simp add: doc_nth)
  qed
qed

lemma del_char_ok:
  assumes "arr_ok k" "e_cy k < MAXL" "e_cx k < len k (e_cy k)"
  obtains k1 where "del_char k = k1\<lparr>e_dirty := True\<rparr>" "stores k k1"
    "\<And>i. row_text k1 i = (if i = e_cy k then take (e_cx k) (row_text k i) @ drop (e_cx k + 1) (row_text k i) else row_text k i)"
proof -
  let ?y = "e_cy k" and ?x = "e_cx k" and ?n = "len k (e_cy k)"
  let ?r = "e_lines k ! ?y"
  define k0 where "k0 = row_stores ?y (\<lambda>i. i) (\<lambda>r s i. r ! (i + 1)) (Suc ?y) [?x..<?n - 1] k"
  have L: "?n \<le> MAXC" "length ?r = MAXC" "length (e_lines k) = MAXL" using assms by (simp_all add: arr_ok_def)
  have js: "\<forall>i \<in> set [?x..<?n - 1]. i < MAXC" using L by auto
  have k0: "stores k k0" "e_lens k0 = e_lens k"
    "e_lines k0 = (e_lines k)[?y := fold (\<lambda>i r. r[i := r ! (i + 1)]) [?x..<?n - 1] ?r]"
    using row_stores_ok [OF assms(1,2) js, of "Suc ?y" "\<lambda>r s i. r ! (i + 1)"] unfolding k0_def by simp_all
  note k1 = set_len_ok [OF storesD(1) [OF k0(1)] assms(2), of "?n - 1"]
  have "del_char k = (set_len ?y (?n - 1) k0)\<lparr>e_dirty := True\<rparr>"
    using assms(3) by (simp add: del_char_def k0_def row_stores_def Let_def)
  moreover have "stores k (set_len ?y (?n - 1) k0)" using stores_trans [OF k0(1) k1(1)] L by simp
  moreover have "row_text (set_len ?y (?n - 1) k0) i =
      (if i = ?y then take ?x (row_text k i) @ drop (?x + 1) (row_text k i) else row_text k i)" for i
  proof (cases "i = ?y")
    case True
    have f: "length (e_lines k0 ! ?y) = MAXC"
      "\<And>p. e_lines k0 ! ?y ! p = (if ?x \<le> p \<and> p < ?n - 1 then ?r ! (p + 1) else ?r ! p)"
      using fold_left [of "?n - 1" ?r ?x] L assms k0(3) by auto
    have "take (?n - 1) (e_lines k0 ! ?y) = take ?x (take ?n ?r) @ drop (?x + 1) (take ?n ?r)"
      using f L assms(3) by (auto simp: list_eq_iff_nth_eq nth_append min_def)
    then show ?thesis using True k1(2,3) k0(2) L by (simp add: row_text_def)
  next
    case False
    then show ?thesis using k1(2,3) k0(2,3) L by (simp add: row_text_def)
  qed
  ultimately show thesis using that by blast
qed

lemma ins_char_ok:
  assumes "arr_ok k" "e_cy k < MAXL" "e_cx k \<le> len k (e_cy k)" "len k (e_cy k) < MAXC"
  obtains k1 where "ins_char c k = k1\<lparr>e_cx := e_cx k + 1, e_dirty := True\<rparr>" "stores k k1"
    "\<And>i. row_text k1 i = (if i = e_cy k then take (e_cx k) (row_text k i) @ c # drop (e_cx k) (row_text k i) else row_text k i)"
proof -
  let ?y = "e_cy k" and ?x = "e_cx k" and ?n = "len k (e_cy k)"
  let ?r = "e_lines k ! ?y"
  define k0 where "k0 = row_stores ?y (\<lambda>j. j) (\<lambda>r s j. r ! (j - 1)) (Suc ?y) (rev [?x + 1..<?n + 1]) k"
  have L: "?n < MAXC" "length ?r = MAXC" "length (e_lines k) = MAXL" "?x < MAXC" using assms by (simp_all add: arr_ok_def)
  have js: "\<forall>j \<in> set (rev [?x + 1..<?n + 1]). j < MAXC" using L by auto
  have k0: "stores k k0" "e_lens k0 = e_lens k"
    "e_lines k0 = (e_lines k)[?y := fold (\<lambda>j r. r[j := r ! (j - 1)]) (rev [?x + 1..<?n + 1]) ?r]"
    using row_stores_ok [OF assms(1,2) js, of "Suc ?y" "\<lambda>r s j. r ! (j - 1)"] unfolding k0_def by simp_all
  note k1 = set_cell_ok [OF storesD(1) [OF k0(1)] assms(2) L(4), of c]
  note s1 = stores_trans [OF k0(1) k1(1)]
  note k2 = set_len_ok [OF storesD(1) [OF s1] assms(2), of "?n + 1"]
  let ?k2 = "set_len ?y (?n + 1) (set_cell ?y ?x c k0)"
  have "ins_char c k = ?k2\<lparr>e_cx := ?x + 1, e_dirty := True\<rparr>"
    by (simp add: ins_char_def k0_def row_stores_def Let_def)
  moreover have "stores k ?k2" using stores_trans [OF s1 k2(1)] L by simp
  moreover have "row_text ?k2 i = (if i = ?y then take ?x (row_text k i) @ c # drop ?x (row_text k i) else row_text k i)" for i
  proof (cases "i = ?y")
    case True
    have f: "length (e_lines k0 ! ?y) = MAXC"
      "\<And>p. e_lines k0 ! ?y ! p = (if ?x < p \<and> p \<le> ?n then ?r ! (p - 1) else ?r ! p)"
      using fold_right [of ?n ?r ?x] L assms k0(3) by auto
    have l: "length (e_lines k0) = MAXL" using storesD(1) [OF k0(1)] by (simp add: arr_ok_def)
    have "take (?n + 1) ((e_lines k0 ! ?y)[?x := c]) = take ?x (take ?n ?r) @ c # drop ?x (take ?n ?r)"
    proof (rule nth_equalityI)
      fix p assume "p < length (take (?n + 1) ((e_lines k0 ! ?y)[?x := c]))"
      then have p: "p \<le> ?n" using f(1) by simp
      consider "p < ?x" | "p = ?x" | "?x < p" by linarith
      then show "take (?n + 1) ((e_lines k0 ! ?y)[?x := c]) ! p = (take ?x (take ?n ?r) @ c # drop ?x (take ?n ?r)) ! p"
        using p L f assms(3) by cases (auto simp: nth_append nth_Cons' min_def)
    qed (use f L assms(3) in simp)
    then show ?thesis using True k2(2,3) k1(2,3) k0(2) L l assms(2) by (simp add: row_text_def)
  next
    case False
    then show ?thesis using k2(2,3) k1(2,3) k0(2,3) L by (simp add: row_text_def)
  qed
  ultimately show thesis using that by blast
qed

lemma doc_cong:
  assumes "e_n k' = length ls" "\<And>i. i < length ls \<Longrightarrow> row_text k' i = ls ! i"
  shows "doc k' = ls"
  using assms by (simp add: list_eq_iff_nth_eq doc_nth)

lemma nth_insert:
  "y \<le> length ls \<Longrightarrow> i \<le> length ls \<Longrightarrow>
     (take y ls @ x # drop y ls) ! i = (if i < y then ls ! i else if i = y then x else ls ! (i - 1))"
  by (auto simp: nth_append nth_Cons' min_def)

lemma open_line_ok:
  fixes below :: bool
  assumes "arr_ok k" "e_cy k < e_n k" "e_n k < MAXL"
  defines "y \<equiv> (if below then e_cy k + 1 else e_cy k)"
  obtains k1 where "open_line below k = k1\<lparr>e_n := e_n k + 1, e_cy := y, e_cx := 0, e_dirty := True, e_mode := 1\<rparr>"
    "stores k k1" "doc (open_line below k) = take y (doc k) @ [] # drop y (doc k)"
proof -
  let ?k0 = "shift_down y k"
  have k0: "stores k ?k0" "\<And>i. row_text ?k0 i = (if y < i \<and> i \<le> e_n k then row_text k (i - 1) else row_text k i)"
    using shift_down_ok [of k "e_n k" y] assms(1,3) by (simp_all add: shift_down_def)
  have y: "y < MAXL" "y \<le> e_n k" using assms by (simp_all add: y_def)
  note k1 = set_len_ok [OF storesD(1) [OF k0(1)] y(1), of 0]
  have o: "open_line below k = (set_len y 0 ?k0)\<lparr>e_n := e_n k + 1, e_cy := y, e_cx := 0, e_dirty := True, e_mode := 1\<rparr>"
    using assms(3) by (simp add: open_line_def y_def Let_def)
  have "stores k (set_len y 0 ?k0)" using stores_trans [OF k0(1) k1(1)] by simp
  moreover have "doc (open_line below k) = take y (doc k) @ [] # drop y (doc k)"
  proof (rule doc_cong)
    show "e_n (open_line below k) = length (take y (doc k) @ [] # drop y (doc k))" using o y by simp
    fix i assume "i < length (take y (doc k) @ [] # drop y (doc k))"
    then have i: "i \<le> e_n k" using y by simp
    have "row_text (open_line below k) i = (if i = y then [] else row_text ?k0 i)"
      unfolding o using k1(2,3) by (simp add: row_text_def)
    then show "row_text (open_line below k) i = (take y (doc k) @ [] # drop y (doc k)) ! i"
      unfolding k0(2) using i y by (simp add: nth_insert doc_nth)
  qed
  ultimately show thesis using that o by blast
qed

lemma ins_newline_ok:
  assumes "arr_ok k" "e_cy k < e_n k" "e_n k < MAXL" "e_cx k \<le> len k (e_cy k)"
  defines "y \<equiv> e_cy k" and "x \<equiv> e_cx k"
  obtains k1 where "ins_newline k = k1\<lparr>e_n := e_n k + 1, e_cy := y + 1, e_cx := 0, e_dirty := True\<rparr>"
    "stores k k1" "doc (ins_newline k) = take y (doc k) @ take x (doc k ! y) # drop x (doc k ! y) # drop (y + 1) (doc k)"
proof -
  let ?k0 = "shift_down (y + 1) k"
  have k0: "stores k ?k0"
    "\<And>i. row_text ?k0 i = (if y + 1 < i \<and> i \<le> e_n k then row_text k (i - 1) else row_text k i)"
    using shift_down_ok [of k "e_n k" "y + 1"] assms(1,3) by (simp_all add: shift_down_def)
  note a0 = storesD(1) [OF k0(1)]
  have y: "y < MAXL" "y + 1 < MAXL" "y < e_n k" "x \<le> len k y" using assms by (simp_all add: y_def x_def)
  have ty: "row_text ?k0 y = row_text k y" using k0(2) by simp
  have ly: "len ?k0 y = len k y" using length_row_text [OF a0 y(1)] length_row_text [OF assms(1) y(1)] ty by simp
  define k2 where "k2 = row_stores (y + 1) (\<lambda>j. j - x) (\<lambda>r s j. s j) y [x..<len k y] ?k0"
  have L: "len k y \<le> MAXC" "length (e_lines ?k0 ! (y + 1)) = MAXC" "length (e_lines ?k0) = MAXL" "length (e_lines ?k0 ! y) = MAXC"
    using a0 assms(1) y by (simp_all add: arr_ok_def)
  have js: "\<forall>j \<in> set [x..<len k y]. j - x < MAXC" using L by auto
  have k2: "stores ?k0 k2" "e_lens k2 = e_lens ?k0"
    "e_lines k2 = (e_lines ?k0)[y + 1 := map (cell ?k0 y) [x..<len k y] @ drop (len k y - x) (e_lines ?k0 ! (y + 1))]"
    using row_stores_ok [OF a0 y(2) js, of y "\<lambda>r s j. s j"] fold_fill_from [of "len k y" x "e_lines ?k0 ! (y + 1)" "cell ?k0 y"] L
    unfolding k2_def by simp_all
  note k3 = set_len_ok [OF storesD(1) [OF k2(1)] y(2), of "len k y - x"]
  note k4 = set_len_ok [OF storesD(1) [OF k3(1)] y(1), of x]
  let ?k4 = "set_len y x (set_len (y + 1) (len k y - x) k2)"
  have st: "stores k ?k4"
    using stores_trans [OF stores_trans [OF stores_trans [OF k0(1) k2(1)] k3(1)] k4(1)] L y by simp
  have o: "ins_newline k = ?k4\<lparr>e_n := e_n k + 1, e_cy := y + 1, e_cx := 0, e_dirty := True\<rparr>"
  proof -
    have "fold (\<lambda>j k. set_cell (y + 1) (j - x) (cell k y j) k) [x..<len ?k0 y] ?k0 = k2"
      by (simp only: k2_def row_stores_def ly)
    moreover have "len k2 y = len k y" by (simp only: k2(2) ly)
    moreover have "\<not> MAXL \<le> e_n k" using assms(3) by simp
    ultimately show ?thesis
      unfolding ins_newline_def Let_def y_def [symmetric] x_def [symmetric] by (simp only: if_False)
  qed
  have t4: "row_text ?k4 i = (if i = y then take x (row_text k y) else if i = y + 1 then drop x (row_text k y) else row_text ?k0 i)" for i
  proof -
    have "map (cell ?k0 y) [x..<len k y] = drop x (take (len k y) (e_lines ?k0 ! y))"
      using L by (auto simp: list_eq_iff_nth_eq)
    then have "map (cell ?k0 y) [x..<len k y] = drop x (row_text k y)" using ty ly by (simp add: row_text_def)
    moreover have "take x (e_lines ?k0 ! y) = take x (row_text ?k0 y)" using ly y(4) by (simp add: row_text_def min_def)
    then have "take x (e_lines ?k0 ! y) = take x (row_text k y)" by (simp only: ty)
    moreover have "length (e_lines k ! y) = MAXC" using assms(1) y(1) by (simp add: arr_ok_def)
    ultimately show ?thesis
      using L y k4(2,3) k3(2,3) k2(2,3) by (auto simp: row_text_def)
  qed
  have "doc (ins_newline k) = take y (doc k) @ take x (doc k ! y) # drop x (doc k ! y) # drop (y + 1) (doc k)"
  proof (rule doc_cong)
    show "e_n (ins_newline k) = length (take y (doc k) @ take x (doc k ! y) # drop x (doc k ! y) # drop (y + 1) (doc k))"
      using o y by simp
    fix i assume "i < length (take y (doc k) @ take x (doc k ! y) # drop x (doc k ! y) # drop (y + 1) (doc k))"
    then have i: "i \<le> e_n k" using y by simp
    consider "i < y" | "i = y" | "i = y + 1" | "y + 1 < i" by linarith
    then show "row_text (ins_newline k) i = (take y (doc k) @ take x (doc k ! y) # drop x (doc k ! y) # drop (y + 1) (doc k)) ! i"
    proof cases
      case 4
      then have "Suc (i - 2) = i - 1" by linarith
      then show ?thesis unfolding o using 4 i y t4 [of i, unfolded k0(2)] by (simp add: nth_append doc_nth nth_Cons')
    qed (use i y t4 [of i, unfolded k0(2)] in \<open>auto simp: o nth_append doc_nth nth_Cons'\<close>)
  qed
  then show thesis using that o st by blast
qed

lemma join_line_ok:
  assumes "arr_ok k" "e_cy k < e_n k" "e_n k \<le> MAXL" "e_cx k = 0" "0 < e_cy k"
    and "len k (e_cy k - 1) + len k (e_cy k) < MAXC"
  defines "y \<equiv> e_cy k" and "pl \<equiv> len k (e_cy k - 1)"
  obtains k1 where "ins_backspace k = k1\<lparr>e_n := e_n k - 1, e_cy := y - 1, e_cx := pl, e_dirty := True\<rparr>" "stores k k1"
    "doc (ins_backspace k) = take (y - 1) (doc k) @ (doc k ! (y - 1) @ doc k ! y) # drop (y + 1) (doc k)"
proof -
  let ?n = "len k y"
  have y: "y < MAXL" "y - 1 < MAXL" "y < e_n k" "0 < y" "pl + ?n < MAXC" using assms by (simp_all add: y_def pl_def)
  have L: "length (e_lines k ! (y - 1)) = MAXC" "length (e_lines k) = MAXL" "length (e_lines k ! y) = MAXC"
    using assms(1) y by (simp_all add: arr_ok_def)
  define k0 where "k0 = row_stores (y - 1) (\<lambda>j. pl + j) (\<lambda>r s j. s j) y [0..<?n] k"
  have js: "\<forall>j \<in> set [0..<?n]. pl + j < MAXC" using y by auto
  have k0: "stores k k0" "e_lens k0 = e_lens k"
    "e_lines k0 = (e_lines k)[y - 1 := take pl (e_lines k ! (y - 1)) @ map (cell k y) [0..<?n] @ drop (pl + ?n) (e_lines k ! (y - 1))]"
    using row_stores_ok [OF assms(1) y(2) js, of y "\<lambda>r s j. s j"] fold_fill [of pl ?n "e_lines k ! (y - 1)" "cell k y"] L y
    unfolding k0_def by simp_all
  note k1 = set_len_ok [OF storesD(1) [OF k0(1)] y(2), of "pl + ?n"]
  let ?k1 = "set_len (y - 1) (pl + ?n) k0"
  have st: "stores k ?k1" using stores_trans [OF k0(1) k1(1)] y by simp
  have t1: "row_text ?k1 i = (if i = y - 1 then row_text k (y - 1) @ row_text k y else row_text k i)" for i
  proof -
    have "map (cell k y) [0..<?n] = row_text k y" using L y by (simp add: list_eq_iff_nth_eq row_text_def)
    moreover have "take pl (e_lines k ! (y - 1)) = row_text k (y - 1)" by (simp add: row_text_def pl_def y_def)
    moreover have "length (row_text k (y - 1)) = pl" "length (row_text k y) = ?n"
      using length_row_text [OF assms(1)] y by (simp_all add: pl_def y_def)
    ultimately show ?thesis using k1(2,3) k0(2,3) L y by (simp add: row_text_def)
  qed
  have e1: "e_n ?k1 = e_n k" using storesD [OF st] by simp
  have "arr_ok ?k1" "y < e_n ?k1" "e_n ?k1 \<le> MAXL" using storesD(1) [OF st] e1 y assms(3) by simp_all
  then obtain k2 where "del_line_at y ?k1 = k2\<lparr>e_n := e_n ?k1 - 1\<rparr>" "stores ?k1 k2"
    "doc (del_line_at y ?k1) = take y (doc ?k1) @ drop (y + 1) (doc ?k1)"
    by (rule del_line_at_ok)
  note k2 = this [unfolded e1]
  have o: "ins_backspace k = (del_line_at y ?k1)\<lparr>e_cy := y - 1, e_cx := pl, e_dirty := True\<rparr>"
  proof -
    have "fold (\<lambda>j k. set_cell (y - 1) (pl + j) (cell k y j) k) [0..<?n] k = k0" by (simp only: k0_def row_stores_def)
    then show ?thesis
      using assms(4,6) y(4) k0(2) unfolding ins_backspace_def Let_def y_def [symmetric] pl_def by simp
  qed
  have dn: "doc ?k1 ! i = (if i = y - 1 then doc k ! (y - 1) @ doc k ! y else doc k ! i)" if "i < e_n k" for i
    using that y e1 t1 by (simp add: doc_nth)
  have "take y (doc ?k1) = take (y - 1) (doc ?k1) @ [doc ?k1 ! (y - 1)]"
    using y e1 take_Suc_conv_app_nth [of "y - 1" "doc ?k1"] by simp
  moreover have "take (y - 1) (doc ?k1) = take (y - 1) (doc k)"
    using y e1 dn by - (rule nth_equalityI, auto)
  ultimately have "take y (doc ?k1) = take (y - 1) (doc k) @ [doc k ! (y - 1) @ doc k ! y]"
    using dn y by simp
  moreover have "drop (y + 1) (doc ?k1) = drop (y + 1) (doc k)"
    using y e1 dn by - (rule nth_equalityI, auto)
  ultimately have "doc (ins_backspace k) = take (y - 1) (doc k) @ (doc k ! (y - 1) @ doc k ! y) # drop (y + 1) (doc k)"
    using o k2(3) by simp
  moreover have "ins_backspace k = k2\<lparr>e_n := e_n k - 1, e_cy := y - 1, e_cx := pl, e_dirty := True\<rparr>" using o k2(1) by simp
  ultimately show thesis using that stores_trans [OF st k2(2)] by blast
qed

section \<open>The abstract editor\<close>

text \<open>
  A document is a non-empty list of lines; the cursor is a column and a line. The specification of
  an editing key works on these three alone.
\<close>

type_synonym view = "cstr list \<times> nat \<times> nat"

definition view :: "keo \<Rightarrow> view" where
  "view k = (doc k, e_cx k, e_cy k)"

fun a_char :: "byte \<Rightarrow> view \<Rightarrow> view" where
  "a_char c (ls, x, y) =
     (if length (ls ! y) < MAXC - 1 then (ls[y := take x (ls ! y) @ c # drop x (ls ! y)], x + 1, y) else (ls, x, y))"

fun a_newline :: "view \<Rightarrow> view" where
  "a_newline (ls, x, y) =
     (if length ls < MAXL then (take y ls @ take x (ls ! y) # drop x (ls ! y) # drop (y + 1) ls, 0, y + 1) else (ls, x, y))"

fun a_delete :: "view \<Rightarrow> view" where
  "a_delete (ls, x, y) = (ls[y := take x (ls ! y) @ drop (x + 1) (ls ! y)], x, y)"

fun a_backspace :: "view \<Rightarrow> view" where
  "a_backspace (ls, x, y) =
     (if 0 < x then a_delete (ls, x - 1, y)
      else if 0 < y \<and> length (ls ! (y - 1)) + length (ls ! y) < MAXC then
        (take (y - 1) ls @ (ls ! (y - 1) @ ls ! y) # drop (y + 1) ls, length (ls ! (y - 1)), y - 1)
      else (ls, x, y))"

fun a_open :: "bool \<Rightarrow> view \<Rightarrow> view" where
  "a_open below (ls, x, y) =
     (if length ls < MAXL then
        let p = (if below then y + 1 else y) in (take p ls @ [] # drop p ls, 0, p) else (ls, x, y))"

fun a_delline :: "view \<Rightarrow> view" where
  "a_delline (ls, x, y) = (if length ls \<le> 1 then ([[]], 0, y) else (take y ls @ drop (y + 1) ls, x, y))"

text \<open>What holds whenever the editor waits for a key, and what holds before the next drawing.\<close>

definition lines_ok :: "cstr list \<Rightarrow> bool" where
  "lines_ok ls \<longleftrightarrow> 1 \<le> length ls \<and> length ls \<le> MAXL \<and> (\<forall>l \<in> set ls. length l < MAXC \<and> 10 \<notin> set l)"

definition keo_mid :: "keo \<Rightarrow> bool" where
  "keo_mid k \<longleftrightarrow> arr_ok k \<and> lines_ok (doc k)
     \<and> length (e_fname k) \<le> 127 \<and> e_mode k \<le> 2 \<and> length (e_cmd k) \<le> 127 \<and> length (e_msg k) \<le> 79"

definition keo_inv :: "keo \<Rightarrow> bool" where
  "keo_inv k \<longleftrightarrow> keo_mid k \<and> e_cy k < e_n k \<and> e_cx k \<le> length (doc k ! e_cy k)
     \<and> e_top k \<le> e_cy k \<and> e_cy k < e_top k + TXT_ROWS"

lemma keo_invD:
  assumes "keo_inv k"
  shows "arr_ok k" "e_cy k < e_n k" "e_n k \<le> MAXL" "e_cy k < MAXL" "len k (e_cy k) = length (doc k ! e_cy k)"
    "e_cx k \<le> len k (e_cy k)" "len k (e_cy k) < MAXC" "1 \<le> e_n k"
proof -
  show a: "arr_ok k" "e_cy k < e_n k" "e_n k \<le> MAXL" "1 \<le> e_n k" using assms by (simp_all add: keo_inv_def keo_mid_def lines_ok_def)
  then show b: "e_cy k < MAXL" by simp
  then show c: "len k (e_cy k) = length (doc k ! e_cy k)" using a length_row_text by (simp add: doc_nth)
  show "e_cx k \<le> len k (e_cy k)" "len k (e_cy k) < MAXC"
    using assms a nth_mem [of "e_cy k" "doc k"] unfolding c by (auto simp: keo_inv_def keo_mid_def lines_ok_def)
qed

text \<open>What an editing step leaves alone besides the view.\<close>

definition frame :: "keo \<Rightarrow> keo \<Rightarrow> bool" where
  "frame k k' \<longleftrightarrow> arr_ok k' \<and> e_fname k' = e_fname k \<and> e_cmd k' = e_cmd k \<and> length (e_msg k') \<le> max 79 (length (e_msg k))
     \<and> e_pd k' = e_pd k \<and> e_pg k' = e_pg k"

lemma frame_refl: "arr_ok k \<Longrightarrow> frame k k"
  by (simp add: frame_def)

lemma frame_stores: "stores k k1 \<Longrightarrow> frame k k1"
  using storesD [of k k1] by (simp add: frame_def)

lemma frame_upd [simp]:
  "frame k (k'\<lparr>e_n := n\<rparr>) = frame k k'" "frame k (k'\<lparr>e_cx := x\<rparr>) = frame k k'" "frame k (k'\<lparr>e_cy := y\<rparr>) = frame k k'"
  "frame k (k'\<lparr>e_dirty := d\<rparr>) = frame k k'" "frame k (k'\<lparr>e_mode := m\<rparr>) = frame k k'"
  "frame (k\<lparr>e_cx := x\<rparr>) k' = frame k k'"
  by (simp_all add: frame_def)

lemma set_msg_frame: "arr_ok k \<Longrightarrow> frame k (set_msg m k) \<and> view (set_msg m k) = view k \<and> e_mode (set_msg m k) = e_mode k"
  by (auto simp: frame_def set_msg_def view_def)

lemma stores_doc_upd:
  assumes "stores k k1" "e_cy k < e_n k" "\<And>i. row_text k1 i = (if i = e_cy k then l else row_text k i)"
  shows "doc k1 = (doc k)[e_cy k := l]"
  using storesD(2) [OF assms(1)] assms(2,3) by (intro doc_cong) (simp_all add: nth_list_update doc_nth)

lemma del_char_view:
  assumes "arr_ok k" "e_cy k < e_n k" "e_n k \<le> MAXL"
  shows "view (del_char k) = a_delete (view k) \<and> frame k (del_char k) \<and> e_mode (del_char k) = e_mode k"
proof (cases "e_cx k < len k (e_cy k)")
  case True
  have y: "e_cy k < MAXL" using assms by simp
  obtain k1 where k1: "del_char k = k1\<lparr>e_dirty := True\<rparr>" "stores k k1"
    "\<And>i. row_text k1 i = (if i = e_cy k then take (e_cx k) (row_text k i) @ drop (e_cx k + 1) (row_text k i) else row_text k i)"
    using del_char_ok [OF assms(1) y True] by blast
  have "doc k1 = (doc k)[e_cy k := take (e_cx k) (doc k ! e_cy k) @ drop (e_cx k + 1) (doc k ! e_cy k)]"
    using stores_doc_upd [OF k1(2) assms(2)] k1(3) assms(2) by (simp add: doc_nth)
  then show ?thesis using k1(1) frame_stores [OF k1(2)] storesD [OF k1(2)] by (simp add: view_def)
next
  case False
  have "length (doc k ! e_cy k) \<le> e_cx k" using False assms length_row_text [of k "e_cy k"] by (simp add: doc_nth)
  then show ?thesis using False assms by (simp add: del_char_def Let_def view_def frame_refl)
qed

lemma ins_char_view:
  assumes "keo_inv k" "len k (e_cy k) < MAXC - 1"
  shows "view (ins_char c k) = a_char c (view k) \<and> frame k (ins_char c k) \<and> e_mode (ins_char c k) = e_mode k"
proof -
  note I = keo_invD [OF assms(1)]
  obtain k1 where k1: "ins_char c k = k1\<lparr>e_cx := e_cx k + 1, e_dirty := True\<rparr>" "stores k k1"
    "\<And>i. row_text k1 i = (if i = e_cy k then take (e_cx k) (row_text k i) @ c # drop (e_cx k) (row_text k i) else row_text k i)"
    using ins_char_ok [OF I(1,4,6,7)] by blast
  have "doc k1 = (doc k)[e_cy k := take (e_cx k) (doc k ! e_cy k) @ c # drop (e_cx k) (doc k ! e_cy k)]"
    using stores_doc_upd [OF k1(2) I(2)] k1(3) I(2) by (simp add: doc_nth)
  then show ?thesis using k1(1) frame_stores [OF k1(2)] storesD [OF k1(2)] I assms(2) by (simp add: view_def)
qed

lemma ins_newline_view:
  assumes "keo_inv k"
  shows "view (ins_newline k) = a_newline (view k) \<and> frame k (ins_newline k) \<and> e_mode (ins_newline k) = e_mode k"
proof (cases "e_n k < MAXL")
  case True
  note I = keo_invD [OF assms]
  obtain k1 where "ins_newline k = k1\<lparr>e_n := e_n k + 1, e_cy := e_cy k + 1, e_cx := 0, e_dirty := True\<rparr>" "stores k k1"
    "doc (ins_newline k) = take (e_cy k) (doc k) @ take (e_cx k) (doc k ! e_cy k) # drop (e_cx k) (doc k ! e_cy k) # drop (e_cy k + 1) (doc k)"
    using ins_newline_ok [OF I(1,2) True I(6)] by blast
  then show ?thesis using True frame_stores storesD [of k k1] by (simp add: view_def)
next
  case False
  then show ?thesis using set_msg_frame keo_invD(1) [OF assms] by (simp add: ins_newline_def view_def)
qed

lemma open_line_view:
  assumes "keo_inv k"
  shows "view (open_line b k) = a_open b (view k) \<and> frame k (open_line b k) \<and>
    e_mode (open_line b k) = (if e_n k < MAXL then 1 else e_mode k)"
proof (cases "e_n k < MAXL")
  case True
  note I = keo_invD [OF assms]
  let ?y = "if b then e_cy k + 1 else e_cy k"
  obtain k1 where "open_line b k = k1\<lparr>e_n := e_n k + 1, e_cy := ?y, e_cx := 0, e_dirty := True, e_mode := 1\<rparr>"
    "stores k k1" "doc (open_line b k) = take ?y (doc k) @ [] # drop ?y (doc k)"
    using open_line_ok [OF I(1,2) True] by blast
  then show ?thesis using True frame_stores by (simp add: view_def Let_def)
next
  case False
  then show ?thesis using set_msg_frame keo_invD(1) [OF assms] by (simp add: open_line_def view_def)
qed

lemma del_line_view:
  assumes "keo_inv k"
  shows "view (del_line k) = a_delline (view k) \<and> frame k (del_line k) \<and> e_mode (del_line k) = e_mode k"
proof (cases "e_n k \<le> 1")
  case True
  note I = keo_invD [OF assms]
  have n: "e_n k = 1" using True I by simp
  have m: "0 < MAXL" by (simp add: MAXL_def)
  note k1 = set_len_ok [OF I(1) m, of 0]
  have "doc (set_len 0 0 k) = [[]]"
    using k1 storesD(2) [OF k1(1)] n by (intro doc_cong) (simp_all add: row_text_def)
  then show ?thesis using True k1(1) frame_stores [OF k1(1)] storesD [OF k1(1)] by (simp add: del_line_def view_def)
next
  case False
  note I = keo_invD [OF assms]
  obtain k1 where "del_line_at (e_cy k) k = k1\<lparr>e_n := e_n k - 1\<rparr>" "stores k k1"
    "doc (del_line_at (e_cy k) k) = take (e_cy k) (doc k) @ drop (e_cy k + 1) (doc k)"
    using del_line_at_ok [OF I(1,2,3)] by blast
  then show ?thesis using False frame_stores storesD [of k k1] by (simp add: del_line_def view_def)
qed

lemma ins_backspace_view:
  assumes "keo_inv k"
  shows "view (ins_backspace k) = a_backspace (view k) \<and> frame k (ins_backspace k) \<and> e_mode (ins_backspace k) = e_mode k"
proof -
  note I = keo_invD [OF assms]
  consider "0 < e_cx k" | "e_cx k = 0" "0 < e_cy k" "len k (e_cy k - 1) + len k (e_cy k) < MAXC"
    | "e_cx k = 0" "\<not> (0 < e_cy k \<and> len k (e_cy k - 1) + len k (e_cy k) < MAXC)" by auto
  moreover have p: "len k (e_cy k - 1) = length (doc k ! (e_cy k - 1))"
    using I length_row_text [OF I(1), of "e_cy k - 1"] by (simp add: doc_nth)
  ultimately show ?thesis
  proof cases
    case 1
    then show ?thesis
      using I del_char_view [of "k\<lparr>e_cx := e_cx k - 1\<rparr>"] by (simp add: ins_backspace_def Let_def view_def)
  next
    case 2
    obtain k1 where "ins_backspace k = k1\<lparr>e_n := e_n k - 1, e_cy := e_cy k - 1, e_cx := len k (e_cy k - 1), e_dirty := True\<rparr>"
      "stores k k1" "doc (ins_backspace k) = take (e_cy k - 1) (doc k) @ (doc k ! (e_cy k - 1) @ doc k ! e_cy k) # drop (e_cy k + 1) (doc k)"
      using join_line_ok [OF I(1,2,3) 2] by blast
    then show ?thesis using 2 p I(5) frame_stores storesD [of k k1] by (simp add: view_def)
  next
    case 3
    then show ?thesis using p I by (auto simp: ins_backspace_def Let_def view_def frame_refl)
  qed
qed

text \<open>
  The specification of a key in normal mode, given whether a \<open>d\<close> or a \<open>g\<close> is pending, and in insert
  mode. The mode is part of the result.
\<close>

definition a_normal :: "bool \<Rightarrow> bool \<Rightarrow> byte \<Rightarrow> view \<Rightarrow> view \<times> nat" where
  "a_normal pd pg c v =
     (let (ls, x, y) = v; n = length (ls ! y) in
      if c = ch (CHR ''h'') \<or> c = KEY_LEFT then ((ls, x - 1, y), 0)
      else if c = ch (CHR ''l'') \<or> c = KEY_RIGHT then ((ls, min (x + 1) n, y), 0)
      else if c = ch (CHR ''j'') \<or> c = KEY_DOWN then ((ls, x, min (y + 1) (length ls - 1)), 0)
      else if c = ch (CHR ''k'') \<or> c = KEY_UP then ((ls, x, y - 1), 0)
      else if c = ch (CHR ''i'') then (v, 1)
      else if c = ch (CHR ''a'') then ((ls, min (x + 1) n, y), 1)
      else if c = ch (CHR ''A'') then ((ls, n, y), 1)
      else if c = ch (CHR ''o'') then (a_open True v, if length ls < MAXL then 1 else 0)
      else if c = ch (CHR ''O'') then (a_open False v, if length ls < MAXL then 1 else 0)
      else if c = ch (CHR ''x'') \<or> c = KEY_DEL then (a_delete v, 0)
      else if c = ch (CHR ''d'') then (if pd then (a_delline v, 0) else (v, 0))
      else if c = ch (CHR ''g'') then (if pg then ((ls, x, 0), 0) else (v, 0))
      else if c = ch (CHR ''G'') then ((ls, x, length ls - 1), 0)
      else if c = ch (CHR ''0'') then ((ls, 0, y), 0)
      else if c = ch (CHR ''$'') then ((ls, n - 1, y), 0)
      else if c = ch (CHR '':'') then (v, 2)
      else (v, 0))"

definition a_insert :: "byte \<Rightarrow> view \<Rightarrow> view \<times> nat" where
  "a_insert c v =
     (let (ls, x, y) = v in
      if c = 27 then (v, 0)
      else if c = KEY_LEFT then ((ls, x - 1, y), 1)
      else if c = KEY_RIGHT then ((ls, min (x + 1) (length (ls ! y)), y), 1)
      else if c = KEY_DOWN then ((ls, x, min (y + 1) (length ls - 1)), 1)
      else if c = KEY_UP then ((ls, x, y - 1), 1)
      else if c = 10 then (a_newline v, 1)
      else if c = 8 then (a_backspace v, 1)
      else if 32 \<le> c \<and> c < 127 then (a_char c v, 1)
      else (v, 1))"

definition cmd_frame :: "keo \<Rightarrow> keo \<Rightarrow> bool" where
  "cmd_frame k k' \<longleftrightarrow> arr_ok k' \<and> e_fname k' = e_fname k \<and> (e_cmd k' = e_cmd k \<or> e_cmd k' = [])
     \<and> length (e_msg k') \<le> max 79 (length (e_msg k))"

lemma cmd_frameI: "frame k k' \<Longrightarrow> cmd_frame k k'"
  by (simp add: frame_def cmd_frame_def)

lemma cmd_frame_upd [simp]:
  "cmd_frame k (k'\<lparr>e_cx := x\<rparr>) = cmd_frame k k'" "cmd_frame k (k'\<lparr>e_cy := y\<rparr>) = cmd_frame k k'"
  "cmd_frame k (k'\<lparr>e_mode := m\<rparr>) = cmd_frame k k'" "cmd_frame k (k'\<lparr>e_pd := b\<rparr>) = cmd_frame k k'"
  "cmd_frame k (k'\<lparr>e_pg := b\<rparr>) = cmd_frame k k'"
  by (simp_all add: cmd_frame_def)

lemma view_upd [simp]:
  "view (k\<lparr>e_mode := m\<rparr>) = view k" "view (k\<lparr>e_pd := b\<rparr>) = view k" "view (k\<lparr>e_pg := b\<rparr>) = view k"
  "view (k\<lparr>e_cmd := cm\<rparr>) = view k" "view (k\<lparr>e_msg := ms\<rparr>) = view k"
  "view (k\<lparr>e_cx := x\<rparr>) = (doc k, x, e_cy k)" "view (k\<lparr>e_cy := y\<rparr>) = (doc k, e_cx k, y)"
  by (simp_all add: view_def)

definition obs :: "keo \<Rightarrow> view \<times> nat" where
  "obs k = (view k, e_mode k)"

lemma normal_key_refines:
  assumes "keo_inv k"
  shows "cmd_frame k (normal_key c k)"
    and "e_mode k = 0 \<Longrightarrow> (view (normal_key c k), e_mode (normal_key c k)) = a_normal (e_pd k) (e_pg k) c (view k)"
proof -
  note I = keo_invD [OF assms]
  have dc: "view (del_char k) = a_delete (view k) \<and> frame k (del_char k) \<and> e_mode (del_char k) = e_mode k"
    using del_char_view I by simp
  note V = open_line_view [OF assms] del_line_view [OF assms] dc
  have F: "cmd_frame k k" "cmd_frame k (del_char k)" "cmd_frame k (del_line k)" "\<And>b. cmd_frame k (open_line b k)"
    using V frame_refl [OF I(1)] by (auto intro: cmd_frameI)
  have c: "cmd_frame k (k\<lparr>e_mode := 2, e_cmd := []\<rparr>)" using I(1) by (simp add: cmd_frame_def)
  show "cmd_frame k (normal_key c k)"
    using F c by (simp add: normal_key_def Let_def)
  have vk: "view k = (doc k, e_cx k, e_cy k)" by (simp add: view_def)
  have m: "min (e_cx k + 1) (len k (e_cy k)) = (if e_cx k < len k (e_cy k) then e_cx k + 1 else e_cx k)"
    "min (e_cy k + 1) (e_n k - 1) = (if e_cy k < e_n k - 1 then e_cy k + 1 else e_cy k)"
    using I by (auto simp: min_def)
  show "(view (normal_key c k), e_mode (normal_key c k)) = a_normal (e_pd k) (e_pg k) c (view k)" if "e_mode k = 0"
    unfolding obs_def [symmetric] a_normal_def normal_key_def vk prod.case Let_def length_doc I(5) [symmetric] m
      if_distrib [of obs]
    by (intro if_cong refl) (use that V in \<open>auto simp: obs_def vk\<close>)
qed

lemma keys_differ:
  "KEY_RIGHT \<noteq> KEY_LEFT" "KEY_DOWN \<noteq> KEY_LEFT" "KEY_DOWN \<noteq> KEY_RIGHT" "KEY_UP \<noteq> KEY_LEFT"
  "KEY_UP \<noteq> KEY_RIGHT" "KEY_UP \<noteq> KEY_DOWN"
  "KEY_LEFT \<noteq> 27" "KEY_RIGHT \<noteq> 27" "KEY_DOWN \<noteq> 27" "KEY_UP \<noteq> 27"
  by (simp_all add: key_defs)

lemma arrow_keys:
  "normal_key KEY_LEFT k = (if e_cx k > 0 then k\<lparr>e_cx := e_cx k - 1\<rparr> else k)\<lparr>e_pd := False, e_pg := False\<rparr>"
  "normal_key KEY_RIGHT k = (if e_cx k < len k (e_cy k) then k\<lparr>e_cx := e_cx k + 1\<rparr> else k)\<lparr>e_pd := False, e_pg := False\<rparr>"
  "normal_key KEY_DOWN k = (if e_cy k < e_n k - 1 then k\<lparr>e_cy := e_cy k + 1\<rparr> else k)\<lparr>e_pd := False, e_pg := False\<rparr>"
  "normal_key KEY_UP k = (if e_cy k > 0 then k\<lparr>e_cy := e_cy k - 1\<rparr> else k)\<lparr>e_pd := False, e_pg := False\<rparr>"
proof -
  have ne: "\<And>x. x \<in> {KEY_LEFT, KEY_RIGHT, KEY_DOWN, KEY_UP} \<Longrightarrow> x \<notin> ch ` {CHR ''h'', CHR ''l'', CHR ''j'', CHR ''k'', CHR ''d'', CHR ''g''}"
    by (auto simp: key_defs ch_def)
  from keys_differ ne [of KEY_LEFT] ne [of KEY_RIGHT] ne [of KEY_DOWN] ne [of KEY_UP]
  show "normal_key KEY_LEFT k = (if e_cx k > 0 then k\<lparr>e_cx := e_cx k - 1\<rparr> else k)\<lparr>e_pd := False, e_pg := False\<rparr>"
    "normal_key KEY_RIGHT k = (if e_cx k < len k (e_cy k) then k\<lparr>e_cx := e_cx k + 1\<rparr> else k)\<lparr>e_pd := False, e_pg := False\<rparr>"
    "normal_key KEY_DOWN k = (if e_cy k < e_n k - 1 then k\<lparr>e_cy := e_cy k + 1\<rparr> else k)\<lparr>e_pd := False, e_pg := False\<rparr>"
    "normal_key KEY_UP k = (if e_cy k > 0 then k\<lparr>e_cy := e_cy k - 1\<rparr> else k)\<lparr>e_pd := False, e_pg := False\<rparr>"
    by (simp_all add: normal_key_def Let_def)
qed

lemma insert_key_refines:
  assumes "keo_inv k" "e_mode k = 1"
  shows "cmd_frame k (insert_key c k) \<and> (view (insert_key c k), e_mode (insert_key c k)) = a_insert c (view k)"
proof -
  note I = keo_invD [OF assms(1)]
  have F: "cmd_frame k k" using frame_refl [OF I(1)] by (rule cmd_frameI)
  have vk: "view k = (doc k, e_cx k, e_cy k)" by (simp add: view_def)
  consider "c = 27" | "c \<in> {KEY_UP, KEY_DOWN, KEY_LEFT, KEY_RIGHT}" | "c = 10" | "c = 8"
    | "c \<notin> {27, KEY_UP, KEY_DOWN, KEY_LEFT, KEY_RIGHT, 10, 8}" by blast
  then show ?thesis
  proof cases
    case 1
    then show ?thesis using F I assms(2) by (simp add: insert_key_def a_insert_def vk)
  next
    case 2
    then have n: "insert_key c k = normal_key c k" by (auto simp: insert_key_def keys_differ)
    consider "c = KEY_LEFT" | "c = KEY_RIGHT" | "c = KEY_DOWN" | "c = KEY_UP" using 2 by blast
    then show ?thesis
      unfolding n using F I assms(2) by cases (auto simp: a_insert_def vk arrow_keys keys_differ min_def)
  next
    case 3
    then show ?thesis
      using ins_newline_view [OF assms(1)] assms(2) by (simp add: insert_key_def a_insert_def vk key_defs cmd_frameI)
  next
    case 4
    then show ?thesis
      using ins_backspace_view [OF assms(1)] assms(2) by (simp add: insert_key_def a_insert_def vk key_defs cmd_frameI)
  next
    case 5
    then show ?thesis
      using ins_char_view [OF assms(1), of c] assms(2) F I by (auto simp: insert_key_def a_insert_def vk cmd_frameI)
  qed
qed

section \<open>Invariant\<close>

definition cursor_ok :: "view \<Rightarrow> bool" where
  "cursor_ok v = (case v of (ls, x, y) \<Rightarrow> lines_ok ls \<and> y < length ls \<and> x \<le> length (ls ! y))"

lemma lines_ok_nth: "lines_ok ls \<Longrightarrow> y < length ls \<Longrightarrow> length (ls ! y) < MAXC \<and> 10 \<notin> set (ls ! y)"
  by (simp add: lines_ok_def)

lemma lines_ok_upd: "lines_ok ls \<Longrightarrow> length l < MAXC \<Longrightarrow> 10 \<notin> set l \<Longrightarrow> lines_ok (ls[y := l])"
  using set_update_subset_insert [of ls y l] by (auto simp: lines_ok_def)

lemma a_steps_ok:
  assumes "cursor_ok v"
  shows "lines_ok (fst (a_newline v))" "lines_ok (fst (a_delete v))" "lines_ok (fst (a_backspace v))"
    "lines_ok (fst (a_open b v))" "lines_ok (fst (a_delline v))" "c \<noteq> 10 \<Longrightarrow> lines_ok (fst (a_char c v))"
proof -
  obtain ls x y where v: "v = (ls, x, y)" by (cases v)
  have l: "lines_ok ls" "y < length ls" "x \<le> length (ls ! y)" using assms by (simp_all add: cursor_ok_def v)
  note n = lines_ok_nth [OF l(1,2)]
  have del: "lines_ok (fst (a_delete (ls, z, y)))" for z
    using n by (auto intro!: lines_ok_upd [OF l(1)] dest: in_set_takeD in_set_dropD simp: min_def)
  have "x < MAXC" "length (ls ! y) - x < MAXC" using l(3) n by auto
  then show "lines_ok (fst (a_newline v))"
    using l(1,2) by (auto simp: v lines_ok_def dest: in_set_takeD in_set_dropD)
  show "lines_ok (fst (a_delete v))" using del by (simp add: v)
  show "lines_ok (fst (a_backspace v))"
    using del [of "x - 1"] l n lines_ok_nth [OF l(1), of "y - 1"]
    by (auto simp: v lines_ok_def dest: in_set_takeD in_set_dropD)
  show "lines_ok (fst (a_open b v))"
    using l by (auto simp: v Let_def lines_ok_def MAXC_def dest: in_set_takeD in_set_dropD)
  show "lines_ok (fst (a_delline v))"
    using l by (auto simp: v lines_ok_def MAXC_def MAXL_def dest: in_set_takeD in_set_dropD)
  show "lines_ok (fst (a_char c v))" if "c \<noteq> 10"
    using l n that by (auto simp: v intro!: lines_ok_upd dest: in_set_takeD in_set_dropD)
qed

lemma a_keys_ok:
  assumes "cursor_ok v"
  shows "lines_ok (fst (fst (a_normal pd pg c v)))" "snd (a_normal pd pg c v) \<le> 2"
    "lines_ok (fst (fst (a_insert c v)))" "snd (a_insert c v) \<le> 2"
proof -
  obtain ls x y where v: "v = (ls, x, y)" by (cases v)
  have l: "lines_ok ls" using assms by (simp add: cursor_ok_def v)
  note S = a_steps_ok [OF assms, unfolded v]
  show "lines_ok (fst (fst (a_normal pd pg c v)))" unfolding a_normal_def v Let_def prod.case using S l by simp
  show "snd (a_normal pd pg c v) \<le> 2" unfolding a_normal_def v Let_def prod.case by simp
  show "lines_ok (fst (fst (a_insert c v)))" unfolding a_insert_def v Let_def prod.case using S l by simp
  show "snd (a_insert c v) \<le> 2" unfolding a_insert_def v Let_def prod.case by simp
qed

lemma keo_inv_cursor: "keo_inv k \<Longrightarrow> cursor_ok (view k)"
  by (simp add: keo_inv_def keo_mid_def cursor_ok_def view_def)

lemma keo_mid_frame:
  assumes "keo_mid k" "cmd_frame k k'" "lines_ok (fst (view k'))" "e_mode k' \<le> 2"
  shows "keo_mid k'"
  using assms by (auto simp: keo_mid_def cmd_frame_def view_def)

lemma key_mid:
  assumes "keo_inv k"
  shows "e_mode k = 0 \<Longrightarrow> keo_mid (normal_key c k)" "e_mode k = 1 \<Longrightarrow> keo_mid (insert_key c k)"
proof -
  have m: "keo_mid k" using assms by (simp add: keo_inv_def)
  note A = a_keys_ok [OF keo_inv_cursor [OF assms]]
  show "keo_mid (normal_key c k)" if "e_mode k = 0"
    using keo_mid_frame [OF m normal_key_refines(1) [OF assms, of c]] normal_key_refines(2) [OF assms that, of c]
      A(1,2) [of "e_pd k" "e_pg k" c] by (metis fst_conv snd_conv)
  show "keo_mid (insert_key c k)" if "e_mode k = 1"
    using keo_mid_frame [OF m] insert_key_refines [OF assms that, of c] A(3,4) [of c] by (metis fst_conv snd_conv)
qed

lemma clamp_inv: "keo_mid k \<Longrightarrow> keo_inv (clamp k)"
proof -
  assume m: "keo_mid k"
  define cy where "cy = (if e_cy k > e_n k - 1 then e_n k - 1 else e_cy k)"
  have n: "1 \<le> e_n k" "e_n k \<le> MAXL" "arr_ok k" using m by (simp_all add: keo_mid_def lines_ok_def)
  have cy: "cy < e_n k" using n by (auto simp: cy_def)
  then have "len k cy = length (doc k ! cy)" using n length_row_text by (simp add: doc_nth)
  then show ?thesis
    using m cy unfolding clamp_def Let_def cy_def [symmetric] by (auto simp: keo_inv_def keo_mid_def TXT_ROWS_def)
qed

lemma save_keeps: "save io k w = (r, k1, w1) \<Longrightarrow> keo_mid k \<Longrightarrow> keo_mid k1"
  by (auto simp: save_def Let_def keo_mid_def split: if_splits option.splits prod.splits)

lemma set_msg_mid: "keo_mid k \<Longrightarrow> keo_mid (set_msg m k)"
  by (simp add: set_msg_def keo_mid_def)

lemma do_save_mid: "do_save io k w = Cont k1 w1 \<Longrightarrow> keo_mid k \<Longrightarrow> keo_mid k1"
  by (auto simp: do_save_def Let_def set_msg_mid split: if_splits prod.splits dest: save_keeps)

lemma exec_cmd_mid:
  assumes "exec_cmd io k w = Cont k1 w1" "keo_mid k"
  shows "keo_mid k1"
proof -
  have "keo_mid (k\<lparr>e_fname := take 127 (drop 2 (e_cmd k))\<rparr>)" using assms(2) by (simp add: keo_mid_def)
  then show ?thesis
    using assms set_msg_mid [of k] do_save_mid [of io _ w k1 w1]
    by (auto simp: exec_cmd_def Let_def split: if_splits)
qed

lemma cmd_key_mid:
  assumes "cmd_key io c k w = Cont k1 w1" "keo_mid k"
  shows "keo_mid k1"
proof -
  have m: "keo_mid (k\<lparr>e_mode := 0\<rparr>)" using assms(2) by (simp add: keo_mid_def)
  show ?thesis
  proof (cases "c = 10")
    case True
    then show ?thesis using exec_cmd_mid [of io "k\<lparr>e_mode := 0\<rparr>"] m assms(1) by (simp add: cmd_key_def)
  next
    case False
    then show ?thesis using assms m by (auto simp: cmd_key_def keo_mid_def split: if_splits)
  qed
qed

lemma keo_turn_inv:
  assumes "keo_inv k" "keo_turn io c k w = Cont k1 w1"
  shows "keo_inv k1"
proof -
  let ?k = "k\<lparr>e_msg := []\<rparr>"
  have i: "keo_inv ?k" using assms(1) by (simp add: keo_inv_def keo_mid_def)
  then have m: "keo_mid ?k" "e_mode k \<le> 2" by (simp_all add: keo_inv_def keo_mid_def)
  have "keo_mid k2" if "(if e_mode ?k = 0 then Cont (normal_key c ?k) w
      else if e_mode ?k = 1 then Cont (insert_key c ?k) w else cmd_key io c ?k w) = Cont k2 w2" for k2 w2
    using that key_mid [OF i, of c] cmd_key_mid [OF _ m(1)] by (auto split: if_splits)
  then show ?thesis
    using assms(2) clamp_inv unfolding keo_turn_def draw_def Let_def
    by (cases "if e_mode ?k = 0 then Cont (normal_key c ?k) w
      else if e_mode ?k = 1 then Cont (insert_key c ?k) w else cmd_key io c ?k w") auto
qed

lemma keo_run_inv: "keo_run io keys r = Cont k w \<Longrightarrow> (\<And>k w. r = Cont k w \<Longrightarrow> keo_inv k) \<Longrightarrow> keo_inv k"
  by (induction keys arbitrary: r) (auto split: outcome.splits dest: keo_turn_inv)

section \<open>Loading and saving\<close>

text \<open>What loading a byte does to the lines read so far.\<close>

definition a_load :: "byte \<Rightarrow> cstr list \<Rightarrow> cstr list" where
  "a_load b ls =
     (if b = 10 then (if length ls < MAXL then ls @ [[]] else ls)
      else if length (last ls) < MAXC - 1 then butlast ls @ [last ls @ [b]] else ls)"

definition rows :: "nat \<times> keo \<Rightarrow> cstr list" where
  "rows = (\<lambda>(li, k). map (row_text k) [0..<li + 1])"

definition load_ok :: "keo \<Rightarrow> nat \<times> keo \<Rightarrow> bool" where
  "load_ok k0 = (\<lambda>(li, k). li < MAXL \<and> stores k0 k \<and> lines_ok (rows (li, k)))"

lemma rows_last: "last (rows (li, k)) = row_text k li" "butlast (rows (li, k)) = map (row_text k) [0..<li]"
  "length (rows (li, k)) = li + 1"
  by (simp_all add: rows_def)

lemma load_byte_ok:
  assumes "load_ok k0 (li, k)"
  shows "load_ok k0 (load_byte b (li, k)) \<and> rows (load_byte b (li, k)) = a_load b (rows (li, k))"
proof -
  have li: "li < MAXL" and st: "stores k0 k" and lo: "lines_ok (rows (li, k))" using assms by (simp_all add: load_ok_def)
  note a = storesD(1) [OF st]
  have len: "len k li = length (row_text k li)" using length_row_text [OF a li] by simp
  consider "b = 10" "li + 1 < MAXL" | "b = 10" "\<not> li + 1 < MAXL" | "b \<noteq> 10" "len k li < MAXC - 1" | "b \<noteq> 10" "\<not> len k li < MAXC - 1"
    by blast
  then show ?thesis
  proof cases
    case 1
    note s1 = set_len_ok [OF a 1(2), of 0]
    have "row_text (set_len (li + 1) 0 k) i = (if i = li + 1 then [] else row_text k i)" for i
      using s1(2,3) by (simp add: row_text_def)
    then have "rows (load_byte b (li, k)) = rows (li, k) @ [[]]" using 1 by (simp add: load_byte_def rows_def)
    moreover have "lines_ok (rows (li, k) @ [[]])" using lo 1 by (simp add: lines_ok_def rows_last MAXC_def)
    ultimately show ?thesis
      using 1 stores_trans [OF st s1(1)] by (simp add: load_byte_def load_ok_def a_load_def rows_last)
  next
    case 3
    have c: "len k li < MAXC" "len k li + 1 \<le> MAXC" using 3 by simp_all
    note s1 = set_cell_ok [OF a li c(1), of b]
    note s2 = set_len_ok [OF storesD(1) [OF s1(1)] li c(2)]
    let ?k = "set_len li (len k li + 1) (set_cell li (len k li) b k)"
    have L: "length (e_lines k) = MAXL" "length (e_lines k ! li) = MAXC" using a li by (simp_all add: arr_ok_def)
    have "row_text ?k i = (if i = li then row_text k li @ [b] else row_text k i)" for i
      using s2(2,3) s1(2,3) L li c(1) by (auto simp: row_text_def take_Suc_conv_app_nth)
    then have r: "rows (load_byte b (li, k)) = butlast (rows (li, k)) @ [last (rows (li, k)) @ [b]]"
      using 3 by (simp add: load_byte_def rows_last) (simp add: rows_def)
    have "lines_ok (butlast (rows (li, k)) @ [last (rows (li, k)) @ [b]])"
      using lo 3 len by (auto simp: lines_ok_def rows_last dest: in_set_butlastD) (simp add: rows_def)+
    then show ?thesis
      using r 3 len li stores_trans [OF stores_trans [OF st s1(1)] s2(1)]
      by (simp add: load_byte_def load_ok_def a_load_def rows_last)
  qed (use assms len in \<open>simp_all add: load_byte_def a_load_def rows_last\<close>)
qed

lemma load_bytes_ok:
  "load_ok k0 s \<Longrightarrow> load_ok k0 (fold load_byte bs s) \<and> rows (fold load_byte bs s) = fold a_load bs (rows s)"
proof (induction bs arbitrary: s)
  case (Cons b bs)
  obtain li k where "s = (li, k)" by (cases s)
  with Cons load_byte_ok [of k0 li k b] show ?case by simp
qed simp

lemma load_line: "10 \<notin> set l \<Longrightarrow> length m + length l < MAXC \<Longrightarrow> fold a_load l (pre @ [m]) = pre @ [m @ l]"
  by (induction l arbitrary: m) (auto simp: a_load_def)

lemma load_lines:
  "\<forall>l \<in> set ls. length l < MAXC \<and> 10 \<notin> set l \<Longrightarrow> length pre + length ls < MAXL \<Longrightarrow>
     fold a_load (concat (map (\<lambda>l. l @ [10]) ls)) (pre @ [[]]) = pre @ ls @ [[]]"
proof (induction ls arbitrary: pre)
  case (Cons l ls)
  have "fold a_load l (pre @ [[]]) = pre @ [l]" using load_line [of l "[]" pre] Cons.prems by simp
  moreover have "a_load 10 (pre @ [l]) = (pre @ [l]) @ [[]]" using Cons.prems by (simp add: a_load_def)
  ultimately show ?case using Cons.IH [of "pre @ [l]"] Cons.prems by (simp del: append.assoc)
qed simp

lemma save_buf_Some:
  "save_buf k is buf = Some out \<Longrightarrow> out = buf @ concat (map (\<lambda>i. row_text k i @ [10]) is) \<and> (is \<noteq> [] \<longrightarrow> length out \<le> FILE_MAX)"
proof (induction "is" arbitrary: buf)
  case (Cons i "is")
  then have b: "length buf + len k i + 1 \<le> FILE_MAX"
    "save_buf k is (buf @ take (len k i) (e_lines k ! i) @ [10]) = Some out" by (auto split: if_splits)
  from Cons.IH [OF b(2)] b(1) show ?case by (cases "is = []") (auto simp: row_text_def)
qed simp

definition loaded :: "byte list \<Rightarrow> cstr list" where
  "loaded buf = (let ls = fold a_load buf [[]] in
     if buf \<noteq> [] \<and> last buf = 10 \<and> 1 < length ls then butlast ls else ls)"

lemma load_effect:
  assumes "arr_ok k" "length (e_fname k) \<le> 127" "length (e_cmd k) \<le> 127"
    and "io_fread io (e_fname k) FILE_MAX w = ((n, buf), w1)"
  obtains k' where "load io k w = (k', w1)" "keo_mid k'"
    "length buf = nat n \<Longrightarrow> doc k' = (if n \<le> 0 then [[]] else loaded buf)"
    "e_fname k' = e_fname k" "e_cx k' = 0" "e_cy k' = 0" "\<not> e_dirty k'" "e_mode k' = 0"
proof -
  have z: "0 < MAXL" by (simp add: MAXL_def)
  define k0 where "k0 = (set_len 0 0 k)\<lparr>e_n := 1, e_cx := 0, e_cy := 0, e_top := 0, e_dirty := False, e_mode := 0, e_msg := []\<rparr>"
  note s0 = set_len_ok [OF assms(1) z, of 0]
  have k0: "arr_ok k0" "row_text k0 0 = []" "e_fname k0 = e_fname k" "e_cmd k0 = e_cmd k"
    using storesD [OF s0(1)] s0(3) by (simp_all add: k0_def) (simp add: row_text_def)
  have r0: "rows (0, k0) = [[]]" using k0(2) by (simp add: rows_def)
  then have l0: "load_ok k0 (0, k0)"
    using z stores_refl [OF k0(1)] by (simp add: load_ok_def lines_ok_def MAXC_def)
  show thesis
  proof (cases "n \<le> 0")
    case True
    have "doc k0 = [[]]" using r0 by (simp add: rows_def doc_def k0_def)
    moreover have "keo_mid k0" using calculation k0 z assms(2,3) by (simp add: keo_mid_def lines_ok_def MAXC_def) (simp add: k0_def)
    moreover have "load io k w = (k0, w1)" using True assms(4) by (simp add: load_def Let_def k0_def)
    ultimately show thesis using that [of k0] True k0 by (simp add: k0_def)
  next
    case False
    let ?b = "take (nat n) buf"
    obtain li k1 where f: "fold load_byte ?b (0, k0) = (li, k1)" by (meson surj_pair)
    have L: "load_ok k0 (li, k1)" "rows (li, k1) = fold a_load ?b [[]]"
      using load_bytes_ok [OF l0, of ?b] f r0 by simp_all
    define N where "N = (if buf ! (nat n - 1) = 10 \<and> li + 1 > 1 then li else li + 1)"
    have S: "stores k0 k1" "lines_ok (rows (li, k1))" using L(1) by (simp_all add: load_ok_def)
    note D = storesD [OF S(1)]
    have N: "1 \<le> N" "N \<le> li + 1" by (simp_all add: N_def)
    then have dt: "doc (k1\<lparr>e_n := N\<rparr>) = take N (rows (li, k1))" by (simp add: doc_def rows_def take_map take_upt del: upt_Suc)
    then have "lines_ok (doc (k1\<lparr>e_n := N\<rparr>))"
      using S(2) N by (auto simp: lines_ok_def rows_last dest: in_set_takeD)
    then have "keo_mid (k1\<lparr>e_n := N\<rparr>)"
      using D k0 assms(2,3) by (simp add: keo_mid_def) (simp add: k0_def)
    moreover have "load io k w = (k1\<lparr>e_n := N\<rparr>, w1)"
      using False assms(4) f by (simp add: load_def Let_def k0_def N_def)
    moreover have "doc (k1\<lparr>e_n := N\<rparr>) = loaded buf" if n: "length buf = nat n"
    proof -
      have "buf \<noteq> []" using n False by auto
      then have "last buf = buf ! (nat n - 1)" using n by (simp add: last_conv_nth)
      then show ?thesis
        unfolding dt using \<open>buf \<noteq> []\<close> L(2) [symmetric] n
        by (auto simp: N_def loaded_def Let_def rows_last butlast_conv_take)
    qed
    ultimately show thesis using that [of "k1\<lparr>e_n := N\<rparr>"] False D k0 by (simp add: k0_def)
  qed
qed

lemma loaded_lines:
  assumes "lines_ok ls"
  shows "loaded (concat (map (\<lambda>l. l @ [10]) ls)) = (if length ls < MAXL then ls else butlast ls)"
proof -
  let ?b = "concat (map (\<lambda>l. l @ [10]) ls)"
  have ls: "\<forall>l \<in> set ls. length l < MAXC \<and> 10 \<notin> set l" "ls \<noteq> []" "length ls \<le> MAXL"
    using assms by (auto simp: lines_ok_def)
  obtain xs l where x: "ls = xs @ [l]" using ls(2) by (cases ls rule: rev_cases) auto
  then have b: "?b \<noteq> []" "last ?b = 10" by simp_all
  show ?thesis
  proof (cases "length ls < MAXL")
    case True
    then have "fold a_load ?b [[]] = ls @ [[]]" using load_lines [OF ls(1), of "[]"] by simp
    then show ?thesis using True b ls(2) by (simp add: loaded_def Let_def)
  next
    case False
    have "fold a_load (concat (map (\<lambda>l. l @ [10]) xs)) [[]] = xs @ [[]]"
      using load_lines [of xs "[]"] ls x by simp
    moreover have "fold a_load l (xs @ [[]]) = xs @ [l]" using load_line [of l "[]" xs] ls x by simp
    moreover have "a_load 10 (xs @ [l]) = xs @ [l]" using False x by (simp add: a_load_def)
    ultimately have "fold a_load ?b [[]] = ls" using x by simp
    moreover have "1 < length ls" using False by (simp add: MAXL_def)
    ultimately show ?thesis using False b by (simp add: loaded_def Let_def)
  qed
qed

lemma draw_fst: "fst (draw k) = clamp k"
  by (simp add: draw_def Let_def)

lemma doc_clamp [simp]: "doc (clamp k) = doc k"
  by (simp add: clamp_def Let_def)

lemma boot_ok: "arr_ok keo_boot" "e_cmd keo_boot = []"
  by (simp_all add: keo_boot_def arr_ok_def)

section \<open>The file service\<close>

text \<open>
  What the editor relies on: a successful write to an acceptable name makes the next read of the
  whole file return the bytes written.
\<close>

locale file_service =
  fixes fread :: "cstr \<Rightarrow> nat \<Rightarrow> 'w \<Rightarrow> (int \<times> byte list) \<times> 'w"
    and fwrite :: "cstr \<Rightarrow> byte list \<Rightarrow> 'w \<Rightarrow> int \<times> 'w"
    and good :: "'w \<Rightarrow> cstr \<Rightarrow> bool"
  assumes read_back: "good w p \<Longrightarrow> length b \<le> FILE_MAX \<Longrightarrow> fwrite p b w = (0, w') \<Longrightarrow>
      \<exists>w2. fread p FILE_MAX w' = ((int (length b), b), w2)"
begin

abbreviation io :: "'w sysio" where
  "io \<equiv> \<lparr>io_fread = fread, io_fwrite = fwrite\<rparr>"

lemma save_exit:
  assumes "do_save io k w = Exit w'" "good w (e_fname k)" "1 \<le> e_n k"
  shows "\<exists>w2. io_fread io (e_fname k) FILE_MAX w' =
    ((int (length (concat (map (\<lambda>l. l @ [10]) (doc k)))), concat (map (\<lambda>l. l @ [10]) (doc k))), w2)" "e_fname k \<noteq> []"
proof -
  obtain buf where b: "save_buf k [0..<e_n k] [] = Some buf" "fwrite (e_fname k) buf w = (0, w')" "e_fname k \<noteq> []"
    using assms(1) by (auto simp: do_save_def save_def Let_def fs_codes split: if_splits option.splits prod.splits)
  have "buf = concat (map (\<lambda>l. l @ [10]) (doc k))" "length buf \<le> FILE_MAX"
    using save_buf_Some [OF b(1)] assms(3) by (auto simp: doc_def comp_def)
  with read_back [OF assms(2) _ b(2)] show "\<exists>w2. io_fread io (e_fname k) FILE_MAX w' =
    ((int (length (concat (map (\<lambda>l. l @ [10]) (doc k)))), concat (map (\<lambda>l. l @ [10]) (doc k))), w2)"
    by simp
  show "e_fname k \<noteq> []" by (rule b(3))
qed

lemma reopen:
  assumes "keo_inv k" "do_save io k w = Exit w'" "good w (e_fname k)"
  obtains k' w2 where "keo_start io (Some (e_fname k)) w' = Cont k' w2" "keo_inv k'"
    "doc k' = loaded (concat (map (\<lambda>l. l @ [10]) (doc k)))" "e_fname k' = e_fname k" "\<not> e_dirty k'"
proof -
  let ?b = "concat (map (\<lambda>l. l @ [10]) (doc k))" and ?k = "keo_boot\<lparr>e_fname := e_fname k\<rparr>"
  have n: "1 \<le> e_n k" using keo_invD(8) [OF assms(1)] .
  then have "doc k \<noteq> []" using length_doc [of k] by (metis list.size(3) not_one_le_zero)
  then have "0 < int (length ?b)" by (cases "doc k") auto
  obtain w2 where r: "io_fread io (e_fname k) FILE_MAX w' = ((int (length ?b), ?b), w2)"
    using save_exit(1) [OF assms(2,3) n] by blast
  have f: "length (e_fname k) \<le> 127" "take 127 (e_fname k) = e_fname k"
    using assms(1) by (simp_all add: keo_inv_def keo_mid_def)
  obtain k' where k': "load io ?k w' = (k', w2)" "keo_mid k'" "doc k' = loaded ?b" "e_fname k' = e_fname k" "\<not> e_dirty k'"
    by (rule load_effect [of ?k io w' "int (length ?b)" ?b w2])
      (use boot_ok f r \<open>0 < int (length ?b)\<close> in auto)
  obtain a as where "e_fname k = a # as" using save_exit(2) [OF assms(2,3) n] by (cases "e_fname k") auto
  then have "keo_start io (Some (e_fname k)) w' = Cont (clamp k') w2"
    using k'(1) f(2) by (simp add: keo_start_def draw_fst)
  moreover have "e_fname (clamp k') = e_fname k" "\<not> e_dirty (clamp k')" using k'(4,5) by (simp_all add: clamp_def Let_def)
  ultimately show thesis using that clamp_inv [OF k'(2)] k'(3) by simp
qed

end

text \<open>The RAM file system is such a service.\<close>

definition ram_io :: "ramfs sysio" where
  "ram_io = \<lparr>io_fread = (\<lambda>p n s. (fs_fread_ram s p n, s)), io_fwrite = (\<lambda>p b s. ram_fwrite s p b)\<rparr>"

interpretation ram: file_service "\<lambda>p n s. (fs_fread_ram s p n, s)" "\<lambda>p b s. ram_fwrite s p b" "\<lambda>s p. fs_ok s \<and> plain p"
proof
  fix s p b s'
  assume "fs_ok s \<and> plain p" "length b \<le> FILE_MAX" "ram_fwrite s p b = (0, s')"
  then show "\<exists>w2. (fs_fread_ram s' p FILE_MAX, s') = ((int (length b), b), w2)"
    using fwrite_read_back [of s p b s' FILE_MAX] by (simp add: fs_codes)
qed

section \<open>Properties\<close>

text \<open>
  The editor never leaves its arrays: whatever file it is started on, whatever the kernel answers
  and whatever keys are pressed, no store is outside the 256 by 256 arrays, the document has between
  1 and 256 lines of at most 255 bytes without newlines, the cursor is on a line and at most just
  behind its end, and that line is in the visible part of the screen.
\<close>

theorem keo_invariant:
  assumes "keo_run io keys (keo_start io arg w) = Cont k w'"
  shows "keo_inv k"
proof (rule keo_run_inv [OF assms])
  fix k w1 assume s: "keo_start io arg w = Cont k w1"
  then obtain a where a: "arg = Some a" "a \<noteq> []" by (auto simp: keo_start_def split: option.splits list.splits)
  let ?k = "keo_boot\<lparr>e_fname := take 127 a\<rparr>"
  obtain n buf w2 where r: "io_fread io (e_fname ?k) FILE_MAX w = ((n, buf), w2)" by (metis surj_pair)
  obtain k' where "load io ?k w = (k', w2)" "keo_mid k'"
    by (rule load_effect [of ?k io w n buf w2]) (use boot_ok r in auto)
  then show "keo_inv k" using s a clamp_inv [of k'] by (cases a) (auto simp: keo_start_def draw_fst)
qed

lemma keo_start_mode: "a \<noteq> [] \<Longrightarrow> \<exists>k w'. keo_start io (Some a) w = Cont k w' \<and> e_mode k = 0 \<and> keo_inv k \<and> e_fname k = take 127 a"
proof -
  assume "a \<noteq> []"
  then obtain b bs where a: "a = b # bs" by (cases a) auto
  let ?k = "keo_boot\<lparr>e_fname := take 127 a\<rparr>"
  obtain n buf w2 where r: "io_fread io (e_fname ?k) FILE_MAX w = ((n, buf), w2)" by (metis surj_pair)
  obtain k' where "load io ?k w = (k', w2)" "keo_mid k'" "e_fname k' = e_fname ?k" "e_mode k' = 0"
    by (rule load_effect [of ?k io w n buf w2]) (use boot_ok r in auto)
  then show ?thesis
    using a clamp_inv [of k'] by (intro exI [of _ "clamp k'"] exI [of _ w2])
      (simp add: keo_start_def draw_fst, simp add: clamp_def Let_def)
qed

theorem keo_invariant_witness:
  "\<exists>k s'. keo_run ram_io [105] (keo_start ram_io (Some [97]) ram_boot) = Cont k s' \<and> keo_inv k"
proof -
  obtain k0 s0 where "keo_start ram_io (Some [97]) ram_boot = Cont k0 s0" "e_mode k0 = 0"
    using keo_start_mode [of "[97]" ram_io ram_boot] by auto
  then obtain k s' where "keo_run ram_io [105] (keo_start ram_io (Some [97]) ram_boot) = Cont k s'"
    by (simp add: keo_turn_def)
  with keo_invariant [OF this] show ?thesis by blast
qed

text \<open>
  The keys edit the document as their description says (C17): in normal and in insert mode, the
  document, the cursor and the mode after a key are those of the abstract editor, which works on a
  list of lines.
\<close>

theorem keo_refines_editor:
  assumes "keo_inv k"
  shows "(e_mode k = 0 \<longrightarrow> (view (normal_key c k), e_mode (normal_key c k)) = a_normal (e_pd k) (e_pg k) c (view k))
    \<and> (e_mode k = 1 \<longrightarrow> (view (insert_key c k), e_mode (insert_key c k)) = a_insert c (view k))"
  using normal_key_refines(2) [OF assms] insert_key_refines [OF assms] by blast

text \<open>An editor with the letters \<open>ab\<close> on its only line.\<close>

definition keo_ab :: keo where
  "keo_ab = set_len 0 2 (set_cell 0 1 98 (set_cell 0 0 97 (keo_boot\<lparr>e_fname := [slash, 97], e_mode := 1, e_cx := 1\<rparr>)))"

lemma keo_ab: "keo_inv keo_ab" "doc keo_ab = [[97, 98]]" "e_fname keo_ab = [slash, 97]" "e_mode keo_ab = 1" "e_cx keo_ab = 1"
  "e_cy keo_ab = 0" "e_n keo_ab = 1"
proof -
  show d: "doc keo_ab = [[97, 98]]"
    by (simp add: keo_ab_def doc_def row_text_def set_len_def set_cell_def keo_boot_def keo_consts numeral_eq_Suc)
  have "arr_ok keo_ab"
    by (simp add: keo_ab_def arr_ok_def set_len_def set_cell_def keo_boot_def keo_consts nth_list_update)
  then show "keo_inv keo_ab"
    unfolding keo_inv_def keo_mid_def lines_ok_def d
    by (simp add: keo_ab_def set_len_def set_cell_def keo_boot_def keo_consts)
qed (simp_all add: keo_ab_def set_len_def set_cell_def keo_boot_def keo_consts)

theorem keo_refines_editor_witness:
  "keo_inv keo_ab \<and> view (insert_key 99 keo_ab) = ([[97, 99, 98]], 2, 0) \<and> view (insert_key 8 keo_ab) = ([[98]], 0, 0)"
  using keo_refines_editor [OF keo_ab(1), of 99] keo_refines_editor [OF keo_ab(1), of 8] keo_ab
  by (simp add: a_insert_def view_def key_defs MAXC_def)



section \<open>The screen\<close>

lemma dec_digits_length: "n < 1000 \<Longrightarrow> length (dec_digits n) \<le> 3"
  by (subst dec_digits.simps, subst dec_digits.simps, subst dec_digits.simps) auto

lemma pad_to_length [simp]: "length row \<le> w \<Longrightarrow> length (pad_to w row) = w"
  by (simp add: pad_to_def)

lemma fill_to_length: "length row \<le> w \<Longrightarrow> length (fill_to w s row) \<le> w"
  by (simp add: fill_to_def)

lemma status_row_length:
  assumes "e_cy k < 256" "e_cx k < 256"
  shows "length (status_row k) = 80"
proof -
  let ?r0 = "fill_to 40 (e_fname k) (cs ''keo '')"
  let ?r1 = "if e_dirty k \<and> length ?r0 < 80 then ?r0 @ [ch (CHR ''*'')] else ?r0"
  have "length ?r0 \<le> 40" by (rule fill_to_length) (simp add: cs_def)
  then have "length (pad_to 52 ?r1) = 52" by (intro pad_to_length) simp
  then have "length (keo_emit_dec (keo_emit_dec (pad_to 52 ?r1) (e_cy k + 1) @ [ch (CHR '','')]) (e_cx k + 1) @ [32]) \<le> 80"
    using dec_digits_length [of "e_cy k + 1"] dec_digits_length [of "e_cx k + 1"] assms by (simp add: keo_emit_dec_def)
  then show ?thesis unfolding status_row_def Let_def by (intro pad_to_length fill_to_length)
qed

text \<open>
  Drawing (C38): the state after a drawing satisfies the invariant; every row written, the status line
  with its two numbers included, has exactly 80 bytes, so the row buffer is never overrun; row \<open>r\<close> of
  the screen shows the line \<open>top + r\<close> of the document, cut to 80 columns and padded with blanks, or a
  tilde below the last line; and the cursor is left on the screen, on the row that shows its line.
\<close>

theorem draw_shows_document:
  assumes "keo_mid k0" "draw k0 = (k, out)"
  shows "keo_inv k \<and> doc k = doc k0 \<and> (\<forall>b. Write b \<in> set out \<longrightarrow> length b = 80)
    \<and> (\<forall>r < TXT_ROWS. text_row k (e_top k + r) =
          pad_to 80 (if e_top k + r < length (doc k) then take 80 (doc k ! (e_top k + r)) else [126])
        \<and> (\<exists>pre post. out = pre @ [SetColor 0x0F 0, Goto r 0, Write (text_row k (e_top k + r))] @ post))
    \<and> (\<exists>y x. last out = Goto y x \<and> y < 25 \<and> x < 80 \<and> (e_mode k \<noteq> 2 \<longrightarrow> e_top k + y = e_cy k \<and> x = min (e_cx k) 79))"
proof -
  have k: "k = clamp k0" using assms(2) by (simp add: draw_def Let_def prod_eq_iff)
  have i: "keo_inv k" "doc k = doc k0" using clamp_inv [OF assms(1)] k by simp_all
  note I = keo_invD [OF i(1)]
  let ?T = "concat (map (\<lambda>r. [SetColor 0x0F 0, Goto r 0, Write (text_row k (e_top k + r))]) [0..<TXT_ROWS])"
  let ?S = "[SetColor 0 0x07, Goto ROW_STAT 0, Write (status_row k), SetColor 0x0F 0, Goto ROW_CMD 0, Write (cmd_row k),
    (if e_mode k = 2 then Goto ROW_CMD (min (1 + length (e_cmd k)) 79) else Goto (e_cy k - e_top k) (min (e_cx k) 79))]"
  have out: "out = ?T @ ?S" using assms(2) by (simp add: draw_def Let_def k [symmetric])
  have tr: "length (text_row k li) = 80" for li by (simp add: text_row_def)
  have "length (cmd_row k) = 80" by (auto simp: cmd_row_def intro!: pad_to_length fill_to_length)
  moreover have "length (status_row k) = 80" using status_row_length I by (simp add: keo_consts)
  ultimately have w: "\<forall>b. Write b \<in> set out \<longrightarrow> length b = 80" using tr by (auto simp: out)
  have t: "text_row k li = pad_to 80 (if li < length (doc k) then take 80 (doc k ! li) else [126])" for li
    by (simp add: text_row_def doc_nth row_text_def ch_def min.commute)
  have s: "\<exists>pre post. out = pre @ [SetColor 0x0F 0, Goto r 0, Write (text_row k (e_top k + r))] @ post" if "r < TXT_ROWS" for r
  proof -
    have "[0..<TXT_ROWS] = [0..<r] @ r # [r + 1..<TXT_ROWS]" 
      using that upt_add_eq_append [of 0 r "TXT_ROWS - r"] upt_conv_Cons [of r TXT_ROWS] by simp
    then show ?thesis unfolding out by auto
  qed
  have "e_top k \<le> e_cy k" "e_cy k < e_top k + TXT_ROWS" using i(1) by (simp_all add: keo_inv_def)
  then have "\<exists>y x. last out = Goto y x \<and> y < 25 \<and> x < 80 \<and> (e_mode k \<noteq> 2 \<longrightarrow> e_top k + y = e_cy k \<and> x = min (e_cx k) 79)"
    by (auto simp: out keo_consts)
  with i w t s show ?thesis by blast
qed

theorem draw_shows_document_witness:
  "\<exists>k out. draw keo_ab = (k, out) \<and> keo_inv k \<and> text_row k 0 = pad_to 80 [97, 98]"
proof -
  have m: "keo_mid keo_ab" using keo_ab(1) by (simp add: keo_inv_def)
  obtain k out where d: "draw keo_ab = (k, out)" by (meson surj_pair)
  have "e_top k = 0" using d keo_ab by (auto simp: draw_def Let_def clamp_def)
  moreover have "e_n k = 1" using d keo_ab by (auto simp: draw_def Let_def clamp_def)
  ultimately show ?thesis using draw_shows_document [OF m d] d keo_ab(2) by (auto simp: TXT_ROWS_def)
qed

end
