(* ===== verification/Expr.thy ===== *)
theory Expr
  imports Prelude "HOL-Library.Signed_Division"
begin

text \<open>
  The integer expression evaluator of the calculator, \<^verbatim>\<open>user/expr.c\<close>, and the calculator's
  number output, \<^verbatim>\<open>user/calc.c\<close>. The static pointer \<open>pos\<close> is passed as the rest of the line and
  the flag \<open>*ok\<close> as a truth value. Arithmetic is on \<open>long\<close>: a result outside its 64 bits is
  undefined behaviour in C (and for a division, a trap), which is the value \<open>None\<close>.
\<close>

section \<open>Arithmetic on long\<close>

definition LONG_MIN :: int where "LONG_MIN = - (2 ^ 63)"
definition LONG_MAX :: int where "LONG_MAX = 2 ^ 63 - 1"

definition chk :: "int \<Rightarrow> int option" where
  "chk v = (if LONG_MIN \<le> v \<and> v \<le> LONG_MAX then Some v else None)"

section \<open>The parser\<close>

definition is_sp :: "byte \<Rightarrow> bool" where
  "is_sp c \<longleftrightarrow> c = 32 \<or> c = 9"

definition is_dig :: "byte \<Rightarrow> bool" where
  "is_dig c \<longleftrightarrow> 48 \<le> c \<and> c \<le> 57"

definition skip :: "cstr \<Rightarrow> cstr" where
  "skip s = dropWhile is_sp s"

fun num_loop :: "int \<Rightarrow> cstr \<Rightarrow> (int \<times> cstr) option" where
  "num_loop v [] = Some (v, [])"
| "num_loop v (c # s) = (if is_dig c
     then (case chk (v * 10) of None \<Rightarrow> None | Some w \<Rightarrow>
           (case chk (w + (int (unat c) - 48)) of None \<Rightarrow> None | Some w' \<Rightarrow> num_loop w' s))
     else Some (v, c # s))"

definition starts_dig :: "cstr \<Rightarrow> bool" where
  "starts_dig s \<longleftrightarrow> (case s of [] \<Rightarrow> False | c # _ \<Rightarrow> is_dig c)"

definition parse_num :: "cstr \<Rightarrow> bool \<Rightarrow> (int \<times> cstr \<times> bool) option" where
  "parse_num s ok =
     (let s1 = skip s in
      case num_loop 0 s1 of None \<Rightarrow> None
      | Some (v, s2) \<Rightarrow> Some (v, s2, ok \<and> starts_dig s1))"

function parse_factor :: "cstr \<Rightarrow> bool \<Rightarrow> (int \<times> cstr \<times> bool) option"
  and parse_term :: "cstr \<Rightarrow> bool \<Rightarrow> (int \<times> cstr \<times> bool) option"
  and term_loop :: "int \<Rightarrow> cstr \<Rightarrow> bool \<Rightarrow> (int \<times> cstr \<times> bool) option"
  and parse_expr :: "cstr \<Rightarrow> bool \<Rightarrow> (int \<times> cstr \<times> bool) option"
  and expr_loop :: "int \<Rightarrow> cstr \<Rightarrow> bool \<Rightarrow> (int \<times> cstr \<times> bool) option"
where
  "parse_factor s ok =
     (case skip s of
        [] \<Rightarrow> parse_num [] ok
      | c # s2 \<Rightarrow>
        if c = ch (CHR ''('') then
          (case parse_expr s2 ok of None \<Rightarrow> None
           | Some (v, s3, ok1) \<Rightarrow>
             (case skip s3 of
                [] \<Rightarrow> Some (v, [], False)
              | d # s4 \<Rightarrow> if d = ch (CHR '')'') then Some (v, s4, ok1) else Some (v, d # s4, False)))
        else if c = ch (CHR ''-'') then
          (case parse_factor s2 ok of None \<Rightarrow> None
           | Some (v, s3, ok1) \<Rightarrow> map_option (\<lambda>w. (w, s3, ok1)) (chk (- v)))
        else parse_num (c # s2) ok)"
| "parse_term s ok =
     (case parse_factor s ok of None \<Rightarrow> None | Some (v, s1, ok1) \<Rightarrow> term_loop v s1 ok1)"
| "term_loop v s ok =
     (case skip s of
        [] \<Rightarrow> Some (v, [], ok)
      | c # s2 \<Rightarrow>
        if c \<noteq> ch (CHR ''*'') \<and> c \<noteq> ch (CHR ''/'') \<and> c \<noteq> ch (CHR ''%'') then Some (v, c # s2, ok)
        else (case parse_factor s2 ok of None \<Rightarrow> None
          | Some (r, s3, ok1) \<Rightarrow>
            if \<not> ok1 then Some (0, s3, ok1)
            else if c = ch (CHR ''*'') then
              (case chk (v * r) of None \<Rightarrow> None | Some w \<Rightarrow> term_loop w s3 ok1)
            else if r = 0 then term_loop v s3 False
            else (case chk (v sdiv r) of None \<Rightarrow> None
              | Some q \<Rightarrow> term_loop (if c = ch (CHR ''/'') then q else v smod r) s3 ok1)))"
| "parse_expr s ok =
     (case parse_term s ok of None \<Rightarrow> None | Some (v, s1, ok1) \<Rightarrow> expr_loop v s1 ok1)"
| "expr_loop v s ok =
     (case skip s of
        [] \<Rightarrow> Some (v, [], ok)
      | c # s2 \<Rightarrow>
        if c \<noteq> ch (CHR ''+'') \<and> c \<noteq> ch (CHR ''-'') then Some (v, c # s2, ok)
        else (case parse_term s2 ok of None \<Rightarrow> None
          | Some (r, s3, ok1) \<Rightarrow>
            if \<not> ok1 then Some (0, s3, ok1)
            else (case chk (if c = ch (CHR ''+'') then v + r else v - r) of None \<Rightarrow> None
              | Some w \<Rightarrow> expr_loop w s3 ok1)))"
  by pat_completeness auto

lemma skip_len: "length (skip s) \<le> length s"
  by (simp add: skip_def length_dropWhile_le)

lemma skip_ConsD: "skip s = c # t \<Longrightarrow> length t < length s"
  using skip_len [of s] by simp

lemma num_loop_len: "num_loop v s = Some (w, t) \<Longrightarrow> length t \<le> length s"
proof (induction s arbitrary: v)
  case (Cons c s)
  then show ?case by (auto split: if_splits option.splits simp: le_SucI)
qed simp

lemma parse_num_len: "parse_num s ok = Some (v, t, ok') \<Longrightarrow> length t \<le> length s"
  using skip_len [of s]
  by (auto simp: parse_num_def Let_def split: option.splits dest!: num_loop_len)

abbreviation parse_dom where
  "parse_dom \<equiv> parse_factor_parse_term_term_loop_parse_expr_expr_loop_dom"

lemmas parse_pinduct = parse_factor_parse_term_term_loop_parse_expr_expr_loop.pinduct

lemma parse_len:
  "parse_dom (Inl (Inl (s1, k1))) \<Longrightarrow>
     (\<And>r t k. parse_factor s1 k1 = Some (r, t, k) \<Longrightarrow> length t \<le> length s1)"
  "parse_dom (Inl (Inr (s2, k2))) \<Longrightarrow>
     (\<And>r t k. parse_term s2 k2 = Some (r, t, k) \<Longrightarrow> length t \<le> length s2)"
  "parse_dom (Inr (Inl (v3, s3, k3))) \<Longrightarrow>
     (\<And>r t k. term_loop v3 s3 k3 = Some (r, t, k) \<Longrightarrow> length t \<le> length s3)"
  "parse_dom (Inr (Inr (Inl (s4, k4)))) \<Longrightarrow>
     (\<And>r t k. parse_expr s4 k4 = Some (r, t, k) \<Longrightarrow> length t \<le> length s4)"
  "parse_dom (Inr (Inr (Inr (v5, s5, k5)))) \<Longrightarrow>
     (\<And>r t k. expr_loop v5 s5 k5 = Some (r, t, k) \<Longrightarrow> length t \<le> length s5)"
proof (induction s1 k1 and s2 k2 and v3 s3 k3 and s4 k4 and v5 s5 k5 rule: parse_pinduct)
  case (1 s ok)
  show ?case
  proof (cases "skip s")
    case Nil
    then show ?thesis using 1 by (auto simp: parse_factor.psimps dest: parse_num_len)
  next
    case (Cons c u)
    note u = skip_ConsD [OF Cons] and eq = parse_factor.psimps [OF "1.hyps"]
    consider "c = ch (CHR ''('')" | "c \<noteq> ch (CHR ''('')" "c = ch (CHR ''-'')"
      | "c \<noteq> ch (CHR ''('')" "c \<noteq> ch (CHR ''-'')" by blast
    then show ?thesis
    proof cases
      case 1
      with "1.prems" Cons obtain x y z where pe: "parse_expr u ok = Some (x, y, z)"
        unfolding eq by (auto split: option.splits)
      have "length (skip y) \<le> length u"
        using "1.IH"(1) [OF Cons 1 pe] skip_len [of y] by simp
      moreover have "length t \<le> length (skip y)"
        using "1.prems" 1 Cons pe unfolding eq
        by (auto split: if_splits list.splits dest: arg_cong [of _ _ length])
      ultimately show ?thesis using u by simp
    next
      case 2
      have "length y \<le> length u" if "parse_factor u ok = Some (x, y, z)" for x y z
        using "1.IH"(2) [OF Cons 2 that] .
      then show ?thesis
        using "1.prems" u 2 Cons unfolding eq by (fastforce split: option.splits)
    next
      case 3
      then show ?thesis
        using "1.prems" Cons skip_len [of s] unfolding eq by (auto dest: parse_num_len)
    qed
  qed
next
  case (2 s ok)
  then show ?case
    by (fastforce simp: parse_term.psimps split: option.splits)
next
  case (3 v s ok)
  show ?case
  proof (cases "skip s")
    case Nil
    then show ?thesis using 3 by (auto simp: term_loop.psimps)
  next
    case (Cons c u)
    note u = skip_ConsD [OF Cons] and eq = term_loop.psimps [OF "3.hyps"]
    show ?thesis
    proof (cases "c \<noteq> ch (CHR ''*'') \<and> c \<noteq> ch (CHR ''/'') \<and> c \<noteq> ch (CHR ''%'')")
      case True
      then show ?thesis using "3.prems" Cons skip_len [of s] unfolding eq by auto
    next
      case False
      with "3.prems" Cons obtain x y z where pf: "parse_factor u ok = Some (x, y, z)"
        unfolding eq by (auto split: option.splits)
      have y: "length y \<le> length u" using "3.IH"(1) [OF Cons False pf] .
      have "length t \<le> length y"
        using "3.prems" False "3.IH"(2-4) [OF Cons False pf refl refl]
        unfolding eq Cons list.case pf option.case prod.case if_not_P [OF False]
        by (auto split: if_splits option.splits)
      with u y show ?thesis by simp
    qed
  qed
next
  case (4 s ok)
  then show ?case
    by (fastforce simp: parse_expr.psimps split: option.splits)
next
  case (5 v s ok)
  show ?case
  proof (cases "skip s")
    case Nil
    then show ?thesis using 5 by (auto simp: expr_loop.psimps)
  next
    case (Cons c u)
    note u = skip_ConsD [OF Cons] and eq = expr_loop.psimps [OF "5.hyps"]
    show ?thesis
    proof (cases "c \<noteq> ch (CHR ''+'') \<and> c \<noteq> ch (CHR ''-'')")
      case True
      then show ?thesis using "5.prems" Cons skip_len [of s] unfolding eq by auto
    next
      case False
      with "5.prems" Cons obtain x y z where pf: "parse_term u ok = Some (x, y, z)"
        unfolding eq by (auto split: option.splits)
      have y: "length y \<le> length u" using "5.IH"(1) [OF Cons False pf] .
      have "length t \<le> length y"
        using "5.prems" False "5.IH"(2) [OF Cons False pf refl refl]
        unfolding eq Cons list.case pf option.case prod.case if_not_P [OF False]
        by (auto split: if_splits option.splits)
      with u y show ?thesis by simp
    qed
  qed
qed

termination parse_factor
proof (relation "measure (\<lambda>x. case x of Inl (Inl (s, ok)) \<Rightarrow> 4 * length s + 1
     | Inl (Inr (s, ok)) \<Rightarrow> 4 * length s + 2 | Inr (Inl (v, s, ok)) \<Rightarrow> 4 * length s + 1
     | Inr (Inr (Inl (s, ok))) \<Rightarrow> 4 * length s + 3 | Inr (Inr (Inr (v, s, ok))) \<Rightarrow> 4 * length s + 1)")
qed (auto dest!: skip_ConsD parse_len)

declare parse_factor.simps [simp del] parse_term.simps [simp del] term_loop.simps [simp del]
  parse_expr.simps [simp del] expr_loop.simps [simp del]

lemmas parse_induct = parse_factor_parse_term_term_loop_parse_expr_expr_loop.induct

definition expr_eval :: "cstr \<Rightarrow> bool \<Rightarrow> (int \<times> bool) option" where
  "expr_eval s ok =
     (case parse_expr s ok of None \<Rightarrow> None | Some (v, t, ok1) \<Rightarrow> Some (v, ok1 \<and> skip t = []))"

section \<open>The calculator\<close>

text \<open>\<open>tmp\<close> of \<open>put_dec\<close>, least significant digit first.\<close>

fun dec_tmp :: "nat \<Rightarrow> byte list" where
  "dec_tmp u = (if u = 0 then [] else (48 + word_of_nat (u mod 10)) # dec_tmp (u div 10))"

declare dec_tmp.simps [simp del]

text \<open>The bytes \<open>put_dec\<close> writes; \<open>u\<close> is \<open>(unsigned long)(-(v + 1)) + 1\<close> for negative \<open>v\<close>.\<close>

definition dec_of :: "int \<Rightarrow> cstr" where
  "dec_of v =
     (let u = (if v < 0 then nat (- (v + 1)) + 1 else nat v)
      in (if v < 0 then [ch (CHR ''-'')] else []) @ rev (if u = 0 then [48] else dec_tmp u))"

definition put_dec :: "int \<Rightarrow> cstr" where
  "put_dec v = dec_of v @ [10]"

text \<open>
  The line reader of \<open>user_main\<close>: the line so far, the keys still to come; the result is the line,
  the echoed bytes and the keys left, or \<open>None\<close> if the keys run out and the reader waits.
\<close>

fun calc_readline :: "cstr \<Rightarrow> byte list \<Rightarrow> (cstr \<times> byte list \<times> byte list) option" where
  "calc_readline line [] = None"
| "calc_readline line (c # keys) =
     (if c = 10 then Some (line, [10], keys)
      else if c = 8 then
        (if 0 < length line
         then map_option (\<lambda>(l, e, k). (l, 8 # e, k)) (calc_readline (butlast line) keys)
         else calc_readline line keys)
      else if 32 \<le> c \<and> c < 127 \<and> length line < 127
        then map_option (\<lambda>(l, e, k). (l, c # e, k)) (calc_readline (line @ [c]) keys)
      else calc_readline line keys)"

fun calc_same :: "cstr \<Rightarrow> cstr \<Rightarrow> bool" where
  "calc_same (a # as) (b # bs) = (a = b \<and> calc_same as bs)"
| "calc_same [] [] = True"
| "calc_same _ _ = False"

datatype calc_act = CalcExit | CalcPrint cstr | CalcUndefined

definition calc_line :: "cstr \<Rightarrow> calc_act" where
  "calc_line line =
     (if calc_same line (cs ''exit'') then CalcExit
      else (case expr_eval line True of None \<Rightarrow> CalcUndefined
        | Some (v, ok) \<Rightarrow> if \<not> ok then CalcPrint (cs ''err'' @ [10]) else CalcPrint (put_dec v)))"

section \<open>Specification: expressions and their values\<close>

datatype bop = Plus | Minus | Times | Divide | Modulo

datatype ast = Num nat | Neg ast | Bin bop ast ast

text \<open>The value, or \<open>None\<close> on a division by zero or a result outside \<open>long\<close>.\<close>

fun apply_bop :: "bop \<Rightarrow> int \<Rightarrow> int \<Rightarrow> int option" where
  "apply_bop Plus a b = chk (a + b)"
| "apply_bop Minus a b = chk (a - b)"
| "apply_bop Times a b = chk (a * b)"
| "apply_bop Divide a b = (if b = 0 then None else chk (a sdiv b))"
| "apply_bop Modulo a b = (if b = 0 then None else map_option (\<lambda>_. a smod b) (chk (a sdiv b)))"

fun value_of :: "ast \<Rightarrow> int option" where
  "value_of (Num n) = chk (int n)"
| "value_of (Neg a) = Option.bind (value_of a) (\<lambda>v. chk (- v))"
| "value_of (Bin f a b) = Option.bind (value_of a) (\<lambda>x. Option.bind (value_of b) (apply_bop f x))"

text \<open>
  The usual notation: multiplicative operators bind tighter, both kinds associate to the left,
  parentheses only where the structure needs them.
\<close>

fun is_add :: "bop \<Rightarrow> bool" where
  "is_add Plus = True" | "is_add Minus = True" | "is_add _ = False"

fun bop_char :: "bop \<Rightarrow> byte" where
  "bop_char Plus = ch (CHR ''+'')" | "bop_char Minus = ch (CHR ''-'')"
| "bop_char Times = ch (CHR ''*'')" | "bop_char Divide = ch (CHR ''/'')"
| "bop_char Modulo = ch (CHR ''%'')"

datatype lvl = LExpr | LTerm | LFactor

fun show_at :: "lvl \<Rightarrow> ast \<Rightarrow> cstr" where
  "show_at l (Num n) = dec_of (int n)"
| "show_at l (Neg a) = ch (CHR ''-'') # show_at LFactor a"
| "show_at l (Bin f a b) =
     (let body = (if is_add f then show_at LExpr a @ [32, bop_char f, 32] @ show_at LTerm b
                  else show_at LTerm a @ [32, bop_char f, 32] @ show_at LFactor b)
      in if l = LFactor \<or> (l = LTerm \<and> is_add f) then ch (CHR ''('') # body @ [ch (CHR '')'')] else body)"

section \<open>Reading numbers back\<close>

lemmas char_simps = ch_def of_char_def

definition no_dig :: "cstr \<Rightarrow> bool" where
  "no_dig s \<longleftrightarrow> \<not> starts_dig s"

lemma digit_byte:
  assumes "d < 10"
  shows "unat (48 + word_of_nat d :: byte) = 48 + d" "is_dig (48 + word_of_nat d)"
    "\<not> is_sp (48 + word_of_nat d)"
proof -
  show u: "unat (48 + word_of_nat d :: byte) = 48 + d"
    using assms by (simp add: unat_word_ariths unat_of_nat)
  then show "is_dig (48 + word_of_nat d)" and "\<not> is_sp (48 + word_of_nat d)"
    using assms by (simp_all add: is_dig_def is_sp_def word_le_nat_alt word_unat_eq_iff)
qed

lemma num_loop_dec:
  "num_loop 0 (rev (dec_tmp n) @ rest) =
     (if int n \<le> LONG_MAX then num_loop (int n) rest else None)"
proof (induction n arbitrary: rest rule: dec_tmp.induct)
  case (1 n)
  show ?case
  proof (cases "n = 0")
    case True
    then show ?thesis by (simp add: dec_tmp.simps LONG_MAX_def)
  next
    case False
    let ?d = "48 + word_of_nat (n mod 10) :: byte"
    have split: "int n = int (n div 10) * 10 + int (n mod 10)"
      using div_mult_mod_eq [of "int n" 10] by (simp add: zdiv_int zmod_int)
    have "num_loop 0 (rev (dec_tmp n) @ rest) = num_loop 0 (rev (dec_tmp (n div 10)) @ ?d # rest)"
      using False by (simp add: dec_tmp.simps [of n])
    also have "\<dots> = (if int (n div 10) \<le> LONG_MAX then num_loop (int (n div 10)) (?d # rest) else None)"
      by (rule 1 [OF False])
    also have "\<dots> = (if int n \<le> LONG_MAX then num_loop (int n) rest else None)"
      using digit_byte [of "n mod 10"] split by (auto simp: chk_def LONG_MIN_def LONG_MAX_def)
    finally show ?thesis .
  qed
qed

lemma num_loop_stop: "no_dig rest \<Longrightarrow> num_loop v rest = Some (v, rest)"
  by (cases rest) (auto simp: no_dig_def starts_dig_def)

lemma dec_tmp_Nil: "dec_tmp n = [] \<longleftrightarrow> n = 0"
  by (subst dec_tmp.simps) simp

lemma dec_tmp_digits: "c \<in> set (dec_tmp n) \<Longrightarrow> \<exists>d < 10. c = 48 + word_of_nat d"
proof (induction n rule: dec_tmp.induct)
  case (1 n)
  then show ?case
    by (subst (asm) (2) dec_tmp.simps) (auto split: if_splits intro: exI [of _ "n mod 10"])
qed

lemma dec_of_nat: "dec_of (int n) = rev (if n = 0 then [48] else dec_tmp n)"
  by (simp add: dec_of_def)

lemma dec_of_Cons: "\<exists>d u. d < 10 \<and> dec_of (int n) = (48 + word_of_nat d) # u"
proof (cases "n = 0")
  case True
  then show ?thesis by (intro exI [of _ 0]) (simp add: dec_of_def)
next
  case False
  then have "dec_tmp n \<noteq> []" by (simp add: dec_tmp_Nil)
  then have "last (dec_tmp n) \<in> set (dec_tmp n)" "rev (dec_tmp n) = last (dec_tmp n) # rev (butlast (dec_tmp n))"
    by (simp, metis append_butlast_last_id rev.simps(2) rev_rev_ident)
  moreover obtain d where "d < 10" "last (dec_tmp n) = 48 + word_of_nat d"
    using dec_tmp_digits calculation(1) by blast
  ultimately have "dec_of (int n) = (48 + word_of_nat d) # rev (butlast (dec_tmp n))"
    using False by (simp only: dec_of_nat if_False)
  with \<open>d < 10\<close> show ?thesis by blast
qed

lemma num_loop_dec_of:
  assumes "no_dig rest"
  shows "num_loop 0 (dec_of (int n) @ rest) = map_option (\<lambda>v. (v, rest)) (chk (int n))"
proof (cases "n = 0")
  case True
  then show ?thesis
    using assms by (simp add: dec_of_def num_loop_stop chk_def LONG_MIN_def LONG_MAX_def is_dig_def)
next
  case False
  then show ?thesis
    using num_loop_dec [of n rest] assms
    by (simp add: dec_of_nat num_loop_stop chk_def LONG_MIN_def)
qed

lemma skip_Cons: "skip (c # s) = (if is_sp c then skip s else c # s)"
  by (simp add: skip_def)

lemma skip_skip [simp]: "skip (skip s) = skip s"
  by (simp add: skip_def)

lemma skip_Nil [simp]: "skip [] = []"
  by (simp add: skip_def)

lemma parse_skip:
  "parse_num (skip s) ok = parse_num s ok" "parse_factor (skip s) ok = parse_factor s ok"
  "parse_term (skip s) ok = parse_term s ok" "parse_expr (skip s) ok = parse_expr s ok"
  "term_loop v (skip s) ok = term_loop v s ok" "expr_loop v (skip s) ok = expr_loop v s ok"
proof -
  show n: "parse_num (skip s) ok = parse_num s ok" by (simp add: parse_num_def)
  show f: "parse_factor (skip s) ok = parse_factor s ok" by (simp add: parse_factor.simps)
  show t: "parse_term (skip s) ok = parse_term s ok" by (simp add: parse_term.simps f)
  show "parse_expr (skip s) ok = parse_expr s ok" by (simp add: parse_expr.simps t)
  show "term_loop v (skip s) ok = term_loop v s ok" by (simp add: term_loop.simps)
  show "expr_loop v (skip s) ok = expr_loop v s ok" by (simp add: expr_loop.simps)
qed

lemma parse_space:
  "parse_factor (32 # s) ok = parse_factor s ok" "parse_term (32 # s) ok = parse_term s ok"
  using parse_skip(2,3) [of "32 # s"] parse_skip(2,3) [of s] by (simp_all add: skip_Cons is_sp_def)

lemma parse_factor_num:
  assumes "no_dig rest"
  shows "parse_factor (dec_of (int n) @ rest) ok = map_option (\<lambda>v. (v, rest, ok)) (chk (int n))"
proof -
  obtain d u where d: "d < 10" and eq: "dec_of (int n) @ rest = (48 + word_of_nat d) # u"
    using dec_of_Cons [of n] by auto
  let ?c = "48 + word_of_nat d :: byte"
  have sk: "skip (?c # u) = ?c # u" using digit_byte [OF d] by (simp add: skip_Cons)
  have nc: "?c \<noteq> ch (CHR ''('')" "?c \<noteq> ch (CHR ''-'')"
    using d by (auto simp: char_simps word_unat_eq_iff digit_byte)
  have "parse_factor (?c # u) ok = parse_num (?c # u) ok"
    by (simp add: parse_factor.simps sk nc)
  also have "\<dots> = map_option (\<lambda>v. (v, rest, ok)) (chk (int n))"
    using num_loop_dec_of [OF assms, of n] d
    unfolding eq parse_num_def sk Let_def
    by (simp add: starts_dig_def digit_byte option.map_comp comp_def split: option.splits)
  finally show ?thesis using eq by simp
qed

section \<open>A failure is final\<close>

definition bad :: "(int \<times> cstr \<times> bool) option \<Rightarrow> bool" where
  "bad r \<longleftrightarrow> (\<forall>v t. r \<noteq> Some (v, t, True))"

lemma bad_simps [simp]: "bad None" "bad (Some (v, t, k)) \<longleftrightarrow> \<not> k"
  by (auto simp: bad_def)

lemma bad_map [simp]: "bad (map_option (\<lambda>w. (w, t, False)) x)"
  by (cases x) auto

lemma bad_cases: "bad r \<Longrightarrow> (r = None \<Longrightarrow> P) \<Longrightarrow> (\<And>v t. r = Some (v, t, False) \<Longrightarrow> P) \<Longrightarrow> P"
  by (cases r) auto

lemma parse_num_False: "bad (parse_num s False)"
  by (simp add: parse_num_def Let_def split: option.splits)

lemma parse_bad:
  "\<not> k1 \<Longrightarrow> bad (parse_factor s1 k1)"
  "\<not> k2 \<Longrightarrow> bad (parse_term s2 k2)"
  "\<not> k3 \<Longrightarrow> bad (term_loop v3 s3 k3)"
  "\<not> k4 \<Longrightarrow> bad (parse_expr s4 k4)"
  "\<not> k5 \<Longrightarrow> bad (expr_loop v5 s5 k5)"
proof (induction s1 k1 and s2 k2 and v3 s3 k3 and s4 k4 and v5 s5 k5 rule: parse_induct)
  case (1 s ok)
  then show ?case
    using parse_num_False
    by (subst parse_factor.simps) (auto split: option.splits list.splits elim!: bad_cases)
next
  case (2 s ok)
  then show ?case by (subst parse_term.simps) (auto split: option.splits elim!: bad_cases)
next
  case (3 v s ok)
  then show ?case by (subst term_loop.simps) (auto split: option.splits list.splits elim!: bad_cases)
next
  case (4 s ok)
  then show ?case by (subst parse_expr.simps) (auto split: option.splits elim!: bad_cases)
next
  case (5 v s ok)
  then show ?case by (subst expr_loop.simps) (auto split: option.splits list.splits elim!: bad_cases)
qed

lemma parse_term_bad: "bad (parse_factor s ok) \<Longrightarrow> bad (parse_term s ok)"
  by (auto simp: parse_term.simps parse_bad elim!: bad_cases)

lemma parse_expr_bad: "bad (parse_term s ok) \<Longrightarrow> bad (parse_expr s ok)"
  by (auto simp: parse_expr.simps parse_bad elim!: bad_cases)

section \<open>What follows a subexpression\<close>

text \<open>
  \<open>no_mul\<close>: after blanks, no multiplicative operator follows, so a term ends here; \<open>no_op\<close>: no
  operator at all, so an expression ends here.
\<close>

definition no_mul :: "cstr \<Rightarrow> bool" where
  "no_mul s \<longleftrightarrow> (case skip s of [] \<Rightarrow> True | c # _ \<Rightarrow> c \<notin> {ch (CHR ''*''), ch (CHR ''/''), ch (CHR ''%'')})"

definition no_op :: "cstr \<Rightarrow> bool" where
  "no_op s \<longleftrightarrow> no_mul s \<and> (case skip s of [] \<Rightarrow> True | c # _ \<Rightarrow> c \<notin> {ch (CHR ''+''), ch (CHR ''-'')})"

lemma follow_simps [simp]:
  "no_dig []" "no_op []" "no_dig (32 # s)" "no_dig (ch (CHR '')'') # s)" "no_op (ch (CHR '')'') # s)"
  "is_add f \<Longrightarrow> no_mul (32 # bop_char f # s)"
  by (cases f; simp add: no_dig_def starts_dig_def no_op_def no_mul_def skip_Cons is_sp_def
      char_simps is_dig_def)+

lemma term_loop_stop: "no_mul s \<Longrightarrow> term_loop v s ok = Some (v, skip s, ok)"
  by (subst term_loop.simps) (auto simp: no_mul_def split: list.splits)

lemma expr_loop_stop: "no_op s \<Longrightarrow> expr_loop v s ok = Some (v, skip s, ok)"
  by (subst expr_loop.simps) (auto simp: no_op_def split: list.splits)

lemma no_op_mul: "no_op s \<Longrightarrow> no_mul s"
  by (simp add: no_op_def)

lemma bop_not_sp: "\<not> is_sp (bop_char f)"
  by (cases f) (simp_all add: is_sp_def char_simps)

lemma term_loop_op:
  assumes "\<not> is_add f"
  shows "term_loop x (32 # bop_char f # 32 # s) True =
     (case parse_factor s True of None \<Rightarrow> None
      | Some (r, t, k) \<Rightarrow> if \<not> k then Some (0, t, k) else
         (case apply_bop f x r of Some w \<Rightarrow> term_loop w t True
          | None \<Rightarrow> if f \<noteq> Times \<and> r = 0 then term_loop x t False else None))"
  using assms
  by (cases f)
     (simp_all add: term_loop.simps [of x "32 # _"] skip_Cons bop_not_sp parse_space char_simps is_sp_def
       split: option.splits)

lemma expr_loop_op:
  assumes "is_add f"
  shows "expr_loop x (32 # bop_char f # 32 # s) True =
     (case parse_term s True of None \<Rightarrow> None
      | Some (r, t, k) \<Rightarrow> if \<not> k then Some (0, t, k) else
         (case apply_bop f x r of Some w \<Rightarrow> expr_loop w t True | None \<Rightarrow> None))"
  using assms
  by (cases f)
     (simp_all add: expr_loop.simps [of x "32 # _"] skip_Cons bop_not_sp parse_space char_simps is_sp_def
       split: option.splits)

lemma parse_factor_paren:
  "parse_factor (ch (CHR ''('') # s) ok =
     (case parse_expr s ok of None \<Rightarrow> None
      | Some (v, t, k) \<Rightarrow>
        (case skip t of [] \<Rightarrow> Some (v, [], False)
         | d # u \<Rightarrow> if d = ch (CHR '')'') then Some (v, u, k) else Some (v, d # u, False)))"
  by (subst parse_factor.simps) (simp add: skip_Cons is_sp_def char_simps)

lemma parse_factor_neg:
  "parse_factor (ch (CHR ''-'') # s) ok =
     (case parse_factor s ok of None \<Rightarrow> None
      | Some (v, t, k) \<Rightarrow> map_option (\<lambda>w. (w, t, k)) (chk (- v)))"
  by (subst parse_factor.simps) (simp add: skip_Cons is_sp_def char_simps)

section \<open>The evaluator computes the value\<close>

text \<open>
  The three levels of the grammar, for an expression that has a value and for one that has none.
\<close>

definition factor_ok :: "ast \<Rightarrow> cstr \<Rightarrow> bool" where
  "factor_ok a s \<longleftrightarrow> (\<forall>rest. no_dig rest \<longrightarrow>
     (case value_of a of Some v \<Rightarrow> parse_factor (s @ rest) True = Some (v, rest, True)
      | None \<Rightarrow> bad (parse_factor (s @ rest) True)))"

definition term_ok :: "ast \<Rightarrow> cstr \<Rightarrow> bool" where
  "term_ok a s \<longleftrightarrow> (\<forall>rest. no_dig rest \<longrightarrow>
     (case value_of a of Some v \<Rightarrow> parse_term (s @ rest) True = term_loop v rest True
      | None \<Rightarrow> bad (parse_term (s @ rest) True)))"

definition expr_ok :: "ast \<Rightarrow> cstr \<Rightarrow> bool" where
  "expr_ok a s \<longleftrightarrow> (\<forall>rest. no_dig rest \<longrightarrow> no_mul rest \<longrightarrow>
     (case value_of a of Some v \<Rightarrow> parse_expr (s @ rest) True = expr_loop v rest True
      | None \<Rightarrow> bad (parse_expr (s @ rest) True)))"

lemma factor_term: "factor_ok a s \<Longrightarrow> term_ok a s"
  by (cases "value_of a") (simp_all add: factor_ok_def term_ok_def parse_term_bad, simp add: parse_term.simps)

lemma term_expr: "term_ok a s \<Longrightarrow> expr_ok a s"
  by (cases "value_of a")
     (simp_all add: expr_ok_def term_ok_def parse_expr_bad, simp add: parse_expr.simps term_loop_stop parse_skip)

lemma expr_paren:
  assumes "expr_ok a s"
  shows "factor_ok a (ch (CHR ''('') # s @ [ch (CHR '')'')])"
proof -
  have np: "no_mul (ch (CHR '')'') # rest)" for rest by (rule no_op_mul) simp
  have sk: "skip (ch (CHR '')'') # rest) = ch (CHR '')'') # rest" for rest
    by (simp add: skip_Cons is_sp_def char_simps)
  show ?thesis
    unfolding factor_ok_def
  proof (intro allI impI)
    fix rest
    note * = assms [unfolded expr_ok_def, rule_format, OF follow_simps(4) np, of rest]
    show "case value_of a of None \<Rightarrow> bad (parse_factor ((ch (CHR ''('') # s @ [ch (CHR '')'')]) @ rest) True)
      | Some v \<Rightarrow> parse_factor ((ch (CHR ''('') # s @ [ch (CHR '')'')]) @ rest) True = Some (v, rest, True)"
      using *
      by (auto simp: parse_factor_paren sk expr_loop_stop split: option.splits list.splits elim!: bad_cases)
  qed
qed

lemma factor_neg: "factor_ok a s \<Longrightarrow> factor_ok (Neg a) (ch (CHR ''-'') # s)"
  unfolding factor_ok_def
  by (auto simp: parse_factor_neg split: option.splits elim!: bad_cases)

lemma term_bin:
  assumes "term_ok a s" "factor_ok b t" "\<not> is_add f"
  shows "term_ok (Bin f a b) (s @ [32, bop_char f, 32] @ t)"
  unfolding term_ok_def
proof (intro allI impI)
  fix rest assume r: "no_dig rest"
  note A = assms(1) [unfolded term_ok_def, rule_format, of "32 # bop_char f # 32 # t @ rest"]
  note B = assms(2) [unfolded factor_ok_def, rule_format, OF r]
  show "case value_of (Bin f a b) of None \<Rightarrow> bad (parse_term ((s @ [32, bop_char f, 32] @ t) @ rest) True)
      | Some v \<Rightarrow> parse_term ((s @ [32, bop_char f, 32] @ t) @ rest) True = term_loop v rest True"
    using A B by (auto simp: term_loop_op [OF assms(3)] parse_bad split: option.splits elim!: bad_cases)
qed

lemma expr_bin:
  assumes "expr_ok a s" "term_ok b t" "is_add f"
  shows "expr_ok (Bin f a b) (s @ [32, bop_char f, 32] @ t)"
  unfolding expr_ok_def
proof (intro allI impI)
  fix rest assume r: "no_dig rest" "no_mul rest"
  note A = assms(1) [unfolded expr_ok_def, rule_format, of "32 # bop_char f # 32 # t @ rest"]
  note B = assms(2) [unfolded term_ok_def, rule_format, OF r(1)]
  show "case value_of (Bin f a b) of None \<Rightarrow> bad (parse_expr ((s @ [32, bop_char f, 32] @ t) @ rest) True)
      | Some v \<Rightarrow> parse_expr ((s @ [32, bop_char f, 32] @ t) @ rest) True = expr_loop v rest True"
    using A B r
    by (auto simp: expr_loop_op [OF assms(3)] term_loop_stop parse_skip assms(3)
        split: option.splits elim!: bad_cases)
qed

lemma show_ok:
  "factor_ok a (show_at LFactor a) \<and> term_ok a (show_at LTerm a) \<and> expr_ok a (show_at LExpr a)"
proof (induction a)
  case (Num n)
  have "factor_ok (Num n) (dec_of (int n))"
    by (auto simp: factor_ok_def parse_factor_num split: option.splits)
  then show ?case by (simp add: factor_term term_expr)
next
  case (Neg a)
  then show ?case by (simp add: factor_neg factor_term term_expr)
next
  case (Bin f a b)
  show ?case
  proof (cases "is_add f")
    case True
    then have "expr_ok (Bin f a b) (show_at LExpr a @ [32, bop_char f, 32] @ show_at LTerm b)"
      using Bin.IH by (intro expr_bin) auto
    with True show ?thesis using expr_paren factor_term by (fastforce simp: Let_def)
  next
    case False
    then have "term_ok (Bin f a b) (show_at LTerm a @ [32, bop_char f, 32] @ show_at LFactor b)"
      using Bin.IH by (intro term_bin) auto
    with False show ?thesis using expr_paren term_expr by (fastforce simp: Let_def)
  qed
qed


section \<open>The calculator's lines\<close>

lemma dec_of_neg:
  "v < 0 \<Longrightarrow> dec_of v = ch (CHR ''-'') # dec_of (- v)"
proof -
  assume "v < 0"
  then have "nat (- (v + 1)) + 1 = nat (- v)" by simp
  with \<open>v < 0\<close> show ?thesis by (simp add: dec_of_def)
qed

lemma parse_factor_dec:
  assumes "LONG_MIN < v" "v \<le> LONG_MAX"
  shows "parse_factor (dec_of v) True = Some (v, [], True)"
proof (cases "v < 0")
  case True
  then have "parse_factor (dec_of (int (nat (- v)))) True = Some (- v, [], True)"
    using assms parse_factor_num [of "[]" "nat (- v)" True] by (simp add: chk_def LONG_MIN_def LONG_MAX_def)
  then show ?thesis
    using True assms by (simp add: dec_of_neg parse_factor_neg chk_def)
next
  case False
  then show ?thesis
    using assms parse_factor_num [of "[]" "nat v" True] by (simp add: chk_def LONG_MIN_def)
qed

lemma expr_eval_dec:
  assumes "LONG_MIN < v" "v \<le> LONG_MAX"
  shows "expr_eval (dec_of v) True = Some (v, True)"
  using parse_factor_dec [OF assms]
  by (simp add: expr_eval_def parse_expr.simps parse_term.simps term_loop_stop expr_loop_stop no_op_mul)

lemma dec_of_head: "\<exists>c u. dec_of v = c # u \<and> c \<noteq> ch (CHR ''e'')"
proof (cases "v < 0")
  case True
  then show ?thesis by (simp add: dec_of_neg char_simps)
next
  case False
  obtain d u where "d < 10" "dec_of (int (nat v)) = (48 + word_of_nat d) # u"
    using dec_of_Cons by blast
  moreover have "48 + word_of_nat d \<noteq> ch (CHR ''e'')"
    using digit_byte(1) [OF \<open>d < 10\<close>] \<open>d < 10\<close> by (auto simp: char_simps word_unat_eq_iff)
  ultimately show ?thesis using False by auto
qed

text \<open>
  The calculator's output reads back (C37): typing the decimal text the calculator printed for a
  value makes it print the same text again, for every value but \<open>LONG_MIN\<close> (whose digits
  overflow while they are read), and no printed number is the \<open>exit\<close> command.
\<close>

theorem calc_output_reads_back:
  assumes "LONG_MIN < v" "v \<le> LONG_MAX"
  shows "calc_line (butlast (put_dec v)) = CalcPrint (put_dec v)"
proof -
  obtain c u where "dec_of v = c # u" "c \<noteq> ch (CHR ''e'')" using dec_of_head by blast
  then have "\<not> calc_same (dec_of v) (cs ''exit'')" by (simp add: cs_def)
  then show ?thesis using expr_eval_dec [OF assms] by (simp add: calc_line_def put_dec_def)
qed

theorem calc_output_reads_back_witness:
  "LONG_MIN < -1234567890123 \<and> -1234567890123 \<le> LONG_MAX
   \<and> calc_line (butlast (put_dec (-1234567890123))) = CalcPrint (put_dec (-1234567890123))"
  using calc_output_reads_back [of "-1234567890123"] by (simp add: LONG_MIN_def LONG_MAX_def)

subsection \<open>The line editor\<close>

text \<open>What the keys before the newline leave in the line: printable keys append, backspace removes.\<close>

definition edit_key :: "byte \<Rightarrow> cstr \<Rightarrow> cstr" where
  "edit_key c line =
     (if c = 8 then butlast line
      else if 32 \<le> c \<and> c < 127 \<and> length line < 127 then line @ [c] else line)"

lemma calc_readline_edit:
  assumes "10 \<notin> set keys"
  shows "\<exists>e. calc_readline line (keys @ 10 # more) = Some (fold edit_key keys line, e @ [10], more)"
  using assms
proof (induction keys arbitrary: line)
  case Nil
  then show ?case by (simp add: exI [of _ "[]"])
next
  case (Cons c keys)
  then obtain e where
    e: "calc_readline (edit_key c line) (keys @ 10 # more) =
      Some (fold edit_key keys (edit_key c line), e @ [10], more)" by auto
  have id: "\<exists>d. x = map_option (\<lambda>(l, e, k). (l, d @ e, k)) x" for x :: "(cstr \<times> byte list \<times> byte list) option"
    by (rule exI [of _ "[]"], cases x) auto
  have "fold edit_key (c # keys) line = fold edit_key keys (edit_key c line)" by simp
  moreover have "\<exists>d. calc_readline line (c # keys @ 10 # more) =
      map_option (\<lambda>(l, e, k). (l, d @ e, k)) (calc_readline (edit_key c line) (keys @ 10 # more))"
    using Cons.prems
    by (cases "c = 8"; cases "32 \<le> c \<and> c < 127 \<and> length line < 127")
       (auto simp: edit_key_def split: if_splits
          intro: id exI [of _ "[8]"] exI [of _ "[c]"])
  ultimately show ?case using e by auto
qed

definition line_ok :: "cstr \<Rightarrow> bool" where
  "line_ok line \<longleftrightarrow> length line \<le> 127 \<and> (\<forall>c \<in> set line. 32 \<le> c \<and> c < 127)"

lemma edit_key_ok: "line_ok line \<Longrightarrow> line_ok (edit_key c line)"
  by (auto simp: edit_key_def line_ok_def dest: in_set_butlastD)

lemma fold_edit_ok: "line_ok line \<Longrightarrow> line_ok (fold edit_key keys line)"
  by (induction keys arbitrary: line) (simp_all add: edit_key_ok)

text \<open>
  The line buffer is never overrun: whatever keys are pressed before the newline, the reader
  returns, consumes exactly the keys up to the newline, and hands over the edited line, which has
  at most 127 bytes (so its NUL fits in \<open>line[128]\<close>), all printable.
\<close>

theorem calc_readline_bounded:
  assumes "10 \<notin> set keys"
  shows "\<exists>line e. calc_readline [] (keys @ 10 # more) = Some (line, e @ [10], more)
     \<and> line = fold edit_key keys [] \<and> length line \<le> 127 \<and> (\<forall>c \<in> set line. 32 \<le> c \<and> c < 127)"
  using calc_readline_edit [OF assms, of "[]" more] fold_edit_ok [of "[]" keys]
  by (auto simp: line_ok_def)

theorem calc_readline_bounded_witness:
  "10 \<notin> set [49 :: byte, 43, 8, 50] \<and>
   (\<exists>line e. calc_readline [] ([49, 43, 8, 50] @ 10 # [51]) = Some (line, e @ [10], [51])
     \<and> line = fold edit_key [49, 43, 8, 50] [] \<and> length line \<le> 127 \<and> (\<forall>c \<in> set line. 32 \<le> c \<and> c < 127))"
  using calc_readline_bounded [of "[49, 43, 8, 50]" "[51]"] by (simp del: calc_readline.simps fold_simps)

text \<open>
  A line the calculator does not survive: dividing the smallest \<open>long\<close> by \<open>-1\<close> (also taking
  the remainder) has no representable quotient; the check for a zero divisor lets it through to
  the division instruction, which traps.
\<close>

theorem calc_division_traps:
  "calc_line (cs ''(-9223372036854775807-1)/-1'') = CalcUndefined
   \<and> calc_line (cs ''(-9223372036854775807-1)%-1'') = CalcUndefined"
  by code_simp

end
