(* ===== verification/Shell.thy ===== *)
theory Shell
  imports Keyboard Expr Ramfs
begin

text \<open>
  The shell \<^verbatim>\<open>user/shell.c\<close>: its line reader with history, and the commands. The kernel calls the
  commands make are the fields of the parameter \<open>shsys\<close>, functions on the state of the kernel; what is
  written to the terminal is a list of output events.
\<close>

section \<open>Strings\<close>

fun start :: "cstr \<Rightarrow> cstr \<Rightarrow> bool" where
  "start s [] = True"
| "start (c # s) (p # ps) = (c = p \<and> start s ps)"
| "start [] (p # ps) = False"

definition skip_sp :: "cstr \<Rightarrow> cstr" where
  "skip_sp s = dropWhile (\<lambda>c. c = 32 \<or> c = 9) s"

definition trim_end :: "cstr \<Rightarrow> cstr" where
  "trim_end s = rev (dropWhile (\<lambda>c. c = 32 \<or> c = 9) (rev s))"

text \<open>\<open>None\<close> is the result -1; \<open>Some None\<close> a number that overflows while it is read.\<close>

definition parse_idx :: "cstr \<Rightarrow> int option option" where
  "parse_idx s =
     (case num_loop 0 s of
        None \<Rightarrow> Some None
      | Some (v, rest) \<Rightarrow> if \<not> starts_dig s \<or> rest \<noteq> [] then None else Some (Some v))"

section \<open>History\<close>

definition HIST_N :: nat where "HIST_N = 16"

record hist =
  h_lines :: "cstr list"
  h_count :: nat

definition hist_boot :: hist where
  "hist_boot = \<lparr>h_lines = replicate HIST_N [], h_count = 0\<rparr>"

definition hist_push :: "cstr \<Rightarrow> hist \<Rightarrow> hist" where
  "hist_push line h =
     (if line = [] then h
      else if h_count h > 0 \<and> same_condition (h_lines h ! (h_count h - 1)) line then h
      else if h_count h < HIST_N then
        h\<lparr>h_lines := (h_lines h)[h_count h := line], h_count := h_count h + 1\<rparr>
      else h\<lparr>h_lines := (fold (\<lambda>i hs. hs[i := hs ! (i + 1)]) [0..<HIST_N - 1] (h_lines h))[HIST_N - 1 := line]\<rparr>)"

section \<open>Reading a line\<close>

text \<open>
  One key other than the newline: the line so far and \<open>hidx\<close>, and the bytes echoed. The line buffer
  has 128 bytes; only the part before \<open>i\<close> is ever used, and is the list.
\<close>

definition hist_move :: "hist \<Rightarrow> byte \<Rightarrow> int \<Rightarrow> int option" where
  "hist_move h k hidx =
     (if k = KEY_UP then
        (if h_count h = 0 then None
         else Some (if hidx < 0 then int (h_count h) - 1 else if hidx > 0 then hidx - 1 else hidx))
      else if hidx < 0 then None
      else Some (if hidx = int (h_count h) - 1 then -1 else hidx + 1))"

definition sh_key :: "hist \<Rightarrow> byte \<Rightarrow> cstr \<times> int \<Rightarrow> (cstr \<times> int) \<times> byte list" where
  "sh_key h k = (\<lambda>(line, hidx).
     if k = KEY_UP \<or> k = KEY_DOWN then
       (case hist_move h k hidx of
          None \<Rightarrow> ((line, hidx), [])
        | Some nh \<Rightarrow>
          let new = (if nh \<ge> 0 then take 127 (h_lines h ! nat nh) else []) in
          ((new, nh), replicate (length line) 8 @ new))
     else if k = 8 then
       (if length line > 0 then ((butlast line, -1), [8]) else ((line, -1), []))
     else if 32 \<le> k \<and> k < 127 \<and> length line < 127 then ((line @ [k], -1), [k])
     else ((line, -1), []))"

fun sh_readline :: "hist \<Rightarrow> cstr \<times> int \<Rightarrow> byte list \<Rightarrow> (cstr \<times> byte list \<times> byte list) option" where
  "sh_readline h s [] = None"
| "sh_readline h s (k # keys) =
     (if k = 10 then Some (fst s, [10], keys)
      else let (s1, echo) = sh_key h k s
           in map_option (\<lambda>(l, e, rest). (l, echo @ e, rest)) (sh_readline h s1 keys))"

section \<open>Commands\<close>

record 'w shsys =
  sy_listdir :: "cstr \<Rightarrow> nat \<Rightarrow> 'w \<Rightarrow> (int \<times> byte list) \<times> 'w"
  sy_chdir :: "cstr \<Rightarrow> 'w \<Rightarrow> int \<times> 'w"
  sy_mkdir :: "cstr \<Rightarrow> 'w \<Rightarrow> int \<times> 'w"
  sy_meminfo :: "nat \<Rightarrow> 'w \<Rightarrow> (int \<times> byte list) \<times> 'w"
  sy_lsmod :: "nat \<Rightarrow> 'w \<Rightarrow> (int \<times> byte list) \<times> 'w"
  sy_partlist :: "nat \<Rightarrow> 'w \<Rightarrow> (int \<times> byte list) \<times> 'w"
  sy_run :: "cstr \<Rightarrow> cstr option \<Rightarrow> 'w \<Rightarrow> int option \<times> 'w"
  sy_mount :: "int \<Rightarrow> 'w \<Rightarrow> int \<times> 'w"
  sy_fread :: "cstr \<Rightarrow> nat \<Rightarrow> 'w \<Rightarrow> (int \<times> byte list) \<times> 'w"
  sy_getcwd :: "nat \<Rightarrow> 'w \<Rightarrow> int \<times> byte list"

text \<open>
  \<open>sy_run\<close> returns no result when the program was started: the shell is gone then. So it is after the
  reboot and power-off calls. \<open>Undef\<close> is the overflow in \<open>parse_idx\<close>.
\<close>

datatype sh_out = Say cstr | Wr "byte list" | ClearScr | SetCol nat nat

datatype 'w sh_res = Done "sh_out list" 'w | Rebooted | PoweredOff | Replaced 'w | Undef

definition say :: "string \<Rightarrow> sh_out" where
  "say s = Say (cs s @ [10])"

definition wr_pos :: "int \<times> byte list \<Rightarrow> sh_out list" where
  "wr_pos = (\<lambda>(n, buf). if n > 0 then [Wr (take (nat n) buf)] else [])"

definition cmd_ls :: "'w shsys \<Rightarrow> cstr \<Rightarrow> 'w \<Rightarrow> 'w sh_res" where
  "cmd_ls sys arg w =
     (let ((n, out), w1) = sy_listdir sys (trim_end (skip_sp arg)) 2048 w
      in Done (if n < 0 then [say ''bad path''] else wr_pos (n, out)) w1)"

definition cmd_cd :: "'w shsys \<Rightarrow> cstr \<Rightarrow> 'w \<Rightarrow> 'w sh_res" where
  "cmd_cd sys arg w =
     (let (r, w1) = sy_chdir sys (trim_end (skip_sp arg)) w
      in Done (if r \<noteq> 0 then [say ''bad path''] else []) w1)"

definition cmd_mkdir :: "'w shsys \<Rightarrow> cstr \<Rightarrow> 'w \<Rightarrow> 'w sh_res" where
  "cmd_mkdir sys arg w =
     (let (r, w1) = sy_mkdir sys (trim_end (skip_sp arg)) w
      in Done (if r = FS_USAGE then [say ''usage: mkdir name'']
               else if r = FS_BADPATH then [say ''bad path'']
               else if r = FS_BADNAME then [say ''bad name'']
               else if r = FS_EXISTS then [say ''exists'']
               else if r = FS_FULL then [say ''full'']
               else if r = FS_RO then [say ''read-only'']
               else []) w1)"

definition sh_help :: "sh_out list" where
  "sh_help = map say [''Available Command:'', ''help - Command List:'', ''echo - Print the Text:'', ''info - About:'',
     ''reboot - Restart:'', ''poweroff - Power off:'', ''ls - List files:'', ''cd - Change dir:'',
     ''mkdir - Make dir:'', ''sin - Run as superuser:'', ''mem - Show memory:'', ''run - Run program:'',
     ''moon - Mount disk:'', ''clear - Clear program'', ''cat - Show file:'', ''keo - Edit file:'']"

definition sh_run :: "'w shsys \<Rightarrow> cstr \<Rightarrow> cstr option \<Rightarrow> 'w \<Rightarrow> 'w sh_res" where
  "sh_run sys name arg w =
     (case sy_run sys name arg w of
        (None, w1) \<Rightarrow> Replaced w1
      | (Some r, w1) \<Rightarrow> Done (if r \<noteq> 0 then [say ''no such program''] else []) w1)"

definition cmd_moon :: "'w shsys \<Rightarrow> cstr \<Rightarrow> 'w \<Rightarrow> 'w sh_res" where
  "cmd_moon sys arg w =
     (if same_condition arg (cs ''-u'') then let (r, w1) = sy_mount sys (-1) w in Done [] w1
      else case parse_idx arg of
        None \<Rightarrow> Done [say ''cannot moon''] w
      | Some None \<Rightarrow> Undef
      | Some (Some idx) \<Rightarrow>
        let (r, w1) = sy_mount sys idx w in Done (if r \<noteq> 0 then [say ''cannot moon''] else []) w1)"

lemma start_length: "start s p \<Longrightarrow> length p \<le> length s"
  by (induction s p rule: start.induct) auto

function running :: "'w shsys \<Rightarrow> cstr \<Rightarrow> 'w \<Rightarrow> 'w sh_res" where
  "running sys line w =
     (if line = [] then Done [] w
      else if same_condition line (cs ''help'') then Done sh_help w
      else if same_condition line (cs ''echo'') then Done [Say [10]] w
      else if start line (cs ''echo '') then Done [Say (drop 5 line), Say [10]] w
      else if same_condition line (cs ''clear'') then Done [ClearScr] w
      else if same_condition line (cs ''info'') then Done [say ''Inaneos beta 0.0.2 version''] w
      else if same_condition line (cs ''reboot'') then Rebooted
      else if same_condition line (cs ''poweroff'') \<or> same_condition line (cs ''shutdown'') then PoweredOff
      else if same_condition line (cs ''ls'') then cmd_ls sys [] w
      else if start line (cs ''ls '') then cmd_ls sys (drop 3 line) w
      else if same_condition line (cs ''cd'') then cmd_cd sys [] w
      else if start line (cs ''cd '') then cmd_cd sys (drop 3 line) w
      else if same_condition line (cs ''mkdir'') then cmd_mkdir sys [] w
      else if start line (cs ''mkdir '') then cmd_mkdir sys (drop 6 line) w
      else if same_condition line (cs ''sin'') then Done [say ''usage: sin command''] w
      else if start line (cs ''sin '') then running sys (drop 4 line) w
      else if same_condition line (cs ''mem'') then
        (let (r, w1) = sy_meminfo sys 256 w in Done (wr_pos r) w1)
      else if same_condition line (cs ''run'') then
        (let (r, w1) = sy_lsmod sys 256 w in Done (wr_pos r) w1)
      else if start line (cs ''run '') then sh_run sys (trim_end (skip_sp (drop 4 line))) None w
      else if same_condition line (cs ''keo'') then Done [say ''usage: keo file''] w
      else if start line (cs ''keo '') then sh_run sys (cs ''keo'') (Some (trim_end (skip_sp (drop 4 line)))) w
      else if same_condition line (cs ''moon'') then
        (let ((n, buf), w1) = sy_partlist sys 256 w in Done (if n > 0 then wr_pos (n, buf) else [say ''no disk'']) w1)
      else if start line (cs ''moon '') then cmd_moon sys (trim_end (skip_sp (drop 5 line))) w
      else if start line (cs ''cat '') then
        (let ((n, big), w1) = sy_fread sys (trim_end (skip_sp (drop 4 line))) 2048 w
         in Done (if n < 0 then [say ''cannot read''] else wr_pos (n, big)) w1)
      else Done [Say line, say '': Command Not Found''] w)"
  by pat_completeness auto
termination running
  by (relation "measure (\<lambda>(sys, line, w). length line)") (auto dest: start_length)

declare running.simps [simp del]

definition sh_prompt :: "'w shsys \<Rightarrow> 'w \<Rightarrow> sh_out list" where
  "sh_prompt sys w =
     [SetCol 0x0A 0, Say (cs ''root@inaneos:'')] @ wr_pos (sy_getcwd sys 128 w) @ [Say (cs ''# ''), SetCol 0x0F 0]"

text \<open>
  The main loop over a stream of keys: each turn writes the prompt, reads a line with its echo, stores it
  in the history and runs it, until the keys run out (the shell waits) or a command does not return.
  The result has the lines that were read and what was written, the number of turns is bounded by \<open>n\<close>.
\<close>

fun sh_loop :: "'w shsys \<Rightarrow> nat \<Rightarrow> hist \<Rightarrow> 'w \<Rightarrow> byte list \<Rightarrow> cstr list \<times> sh_out list \<times> hist \<times> 'w sh_res" where
  "sh_loop sys 0 h w keys = ([], [], h, Done [] w)"
| "sh_loop sys (Suc n) h w keys =
     (case sh_readline h ([], -1) keys of
        None \<Rightarrow> ([], sh_prompt sys w, h, Done [] w)
      | Some (line, echo, rest) \<Rightarrow>
        let h1 = hist_push line h; out = sh_prompt sys w @ [Wr echo] in
        (case running sys line w of
           Done o1 w1 \<Rightarrow>
             (case sh_loop sys n h1 w1 rest of (ls, o2, h2, r) \<Rightarrow> (line # ls, out @ o1 @ o2, h2, r))
         | r \<Rightarrow> ([line], out, h1, r)))"

section \<open>The history is the last sixteen lines\<close>

definition entries :: "hist \<Rightarrow> cstr list" where
  "entries h = take (h_count h) (h_lines h)"

definition hist_ok :: "hist \<Rightarrow> bool" where
  "hist_ok h \<longleftrightarrow> length (h_lines h) = HIST_N \<and> h_count h \<le> HIST_N \<and> (\<forall>l \<in> set (entries h). line_ok l)"

text \<open>The unbounded history: empty lines and repetitions of the previous entry are not stored.\<close>

definition remember :: "cstr \<Rightarrow> cstr list \<Rightarrow> cstr list" where
  "remember l hs = (if l = [] \<or> (hs \<noteq> [] \<and> last hs = l) then hs else hs @ [l])"

definition newest :: "cstr list \<Rightarrow> cstr list" where
  "newest hs = drop (length hs - HIST_N) hs"

lemma shift_left: "m < length r \<Longrightarrow> fold (\<lambda>i hs. hs[i := hs ! (i + 1)]) [0..<m] r = tl (take (m + 1) r) @ drop m r"
proof (induction m)
  case 0
  then show ?case by (cases r) auto
next
  case (Suc m)
  then have d: "drop m r = r ! m # drop (Suc m) r" "take (m + 2) r = take (m + 1) r @ [r ! (m + 1)]" "take (m + 1) r \<noteq> []"
    by (auto simp add: Cons_nth_drop_Suc take_Suc_conv_app_nth)
  have l: "length (tl (take (m + 1) r)) = m" using Suc.prems by simp
  let ?f = "tl (take (m + 1) r) @ drop m r"
  have "?f ! (m + 1) = r ! (m + 1)" using l Suc.prems by (simp add: nth_append)
  then have "?f[m := ?f ! (m + 1)] = tl (take (m + 1) r) @ r ! (m + 1) # drop (Suc m) r"
    using l d(1) by (simp add: list_update_append)
  then show ?case using Suc d(2,3) by simp
qed

lemma newest_length: "length (newest hs) = min (length hs) HIST_N"
  by (simp add: newest_def)

lemma newest_snoc: "newest (hs @ [l]) = (if length hs < HIST_N then hs @ [l] else tl (newest hs) @ [l])"
proof (cases "length hs < HIST_N")
  case False
  then have "length hs + 1 - HIST_N = Suc (length hs - HIST_N)" by simp
  moreover have "1 - HIST_N = 0" by (simp add: HIST_N_def)
  ultimately show ?thesis using False by (simp add: newest_def drop_Suc tl_drop)
qed (simp add: newest_def)

lemma hist_push_entries:
  assumes "hist_ok h" "entries h = newest hs"
  shows "entries (hist_push l h) = newest (remember l hs)"
proof -
  have L: "length (h_lines h) = HIST_N" "h_count h \<le> HIST_N" using assms(1) by (simp_all add: hist_ok_def)
  have c: "h_count h = min (length hs) HIST_N" using assms(2) L newest_length [of hs] by (metis entries_def length_take min.absorb1 min.commute)
  have e: "hs \<noteq> [] \<Longrightarrow> h_lines h ! (h_count h - 1) = last hs"
  proof -
    assume ne: "hs \<noteq> []"
    have "0 < length hs" using ne by simp
    then have "0 < h_count h" using c by (simp add: HIST_N_def)
    then obtain n where n: "h_count h = Suc n" by (cases "h_count h") auto
    then have "h_lines h ! (h_count h - 1) = last (entries h)"
      using L(1,2) by (simp add: entries_def take_Suc_conv_app_nth)
    then show ?thesis using ne by (simp add: assms(2) newest_def last_drop HIST_N_def)
  qed
  consider "l = []" | "hs \<noteq> []" "last hs = l" | "l \<noteq> []" "hs = [] \<or> last hs \<noteq> l" by blast
  then show ?thesis
  proof cases
    case 3
    then have nd: "\<not> (h_count h > 0 \<and> same_condition (h_lines h ! (h_count h - 1)) l)"
      using e c by (auto simp: same_condition_eq)
    show ?thesis
    proof (cases "length hs < HIST_N")
      case True
      then have "entries h = hs" using assms(2) by (simp add: newest_def)
      then show ?thesis
        using True 3 nd c L by (auto simp: hist_push_def remember_def newest_snoc entries_def take_Suc_conv_app_nth)
    next
      case False
      then have full: "h_count h = HIST_N" "h_lines h = newest hs" using c assms(2) L by (simp_all add: entries_def)
      let ?s = "fold (\<lambda>i hs. hs[i := hs ! (i + 1)]) [0..<HIST_N - 1] (h_lines h)"
      have "?s = tl (h_lines h) @ drop (HIST_N - 1) (h_lines h)"
        using shift_left [of "HIST_N - 1" "h_lines h"] L by (simp add: HIST_N_def)
      moreover have t: "length (tl (h_lines h)) = HIST_N - 1" "length (drop (HIST_N - 1) (h_lines h)) = 1" using L by (simp_all add: HIST_N_def)
      moreover obtain a where "drop (HIST_N - 1) (h_lines h) = [a]" using t(2) by (metis One_nat_def length_0_conv length_Suc_conv)
      ultimately have "?s[HIST_N - 1 := l] = tl (h_lines h) @ [l]" by (simp add: list_update_append)
      then show ?thesis
        using False 3 nd full by (auto simp: hist_push_def remember_def newest_snoc entries_def newest_length HIST_N_def)
    qed
  next
    case 2
    then show ?thesis using e c assms(2)
      by (cases "l = []") (auto simp: hist_push_def remember_def same_condition_eq HIST_N_def)
  qed (use assms in \<open>simp add: hist_push_def remember_def\<close>)
qed

lemma hist_push_ok:
  assumes "hist_ok h" "line_ok l"
  shows "hist_ok (hist_push l h)"
proof -
  have "entries h = newest (entries h)" using assms(1) by (simp add: newest_def entries_def hist_ok_def)
  then have "entries (hist_push l h) = newest (remember l (entries h))" using hist_push_entries assms(1) by blast
  then have "\<forall>x \<in> set (entries (hist_push l h)). line_ok x"
    using assms by (auto simp: newest_def remember_def hist_ok_def dest: in_set_dropD)
  moreover have "length (fold (\<lambda>i hs. hs[i := hs ! (i + 1)]) is r) = length r" for "is" and r :: "cstr list"
    by (induction "is" arbitrary: r) auto
  ultimately show ?thesis using assms(1) by (auto simp: hist_ok_def hist_push_def)
qed

section \<open>The line reader\<close>

text \<open>What a terminal shows of echoed bytes: a backspace removes the last character.\<close>

definition shown :: "byte list \<Rightarrow> cstr \<Rightarrow> cstr" where
  "shown = fold (\<lambda>c l. if c = 8 then butlast l else l @ [c])"

lemma shown_append: "shown (a @ b) l = shown b (shown a l)"
  by (simp add: shown_def)

lemma shown_erase: "shown (replicate (length l) 8) l = []"
  by (induction l rule: rev_induct) (auto simp: shown_def)

lemma shown_text: "8 \<notin> set b \<Longrightarrow> shown b l = l @ b"
  by (induction b arbitrary: l) (auto simp: shown_def)

lemma line_ok_no8: "line_ok l \<Longrightarrow> 8 \<notin> set l"
  by (auto simp: line_ok_def)

lemma line_ok_take: "line_ok l \<Longrightarrow> take 127 l = l"
  by (simp add: line_ok_def)

text \<open>The index into the history is -1 or that of an entry.\<close>

definition idx_ok :: "hist \<Rightarrow> int \<Rightarrow> bool" where
  "idx_ok h i \<longleftrightarrow> -1 \<le> i \<and> i < int (h_count h)"

lemma entry_ok: "hist_ok h \<Longrightarrow> i < h_count h \<Longrightarrow> line_ok (h_lines h ! i)"
  using nth_mem [of i "entries h"] by (auto simp: hist_ok_def entries_def)

lemma hist_move_ok: "idx_ok h i \<Longrightarrow> hist_move h k i = Some nh \<Longrightarrow> idx_ok h nh"
  by (auto simp: idx_ok_def hist_move_def split: if_splits)

lemma sh_key_ok:
  assumes "hist_ok h" "line_ok line" "idx_ok h i" "sh_key h k (line, i) = ((line', i'), echo)"
  shows "line_ok line' \<and> idx_ok h i' \<and> shown echo line = line'"
proof (cases "k = KEY_UP \<or> k = KEY_DOWN")
  case True
  show ?thesis
  proof (cases "hist_move h k i")
    case None
    then show ?thesis using True assms by (simp add: sh_key_def shown_def)
  next
    case (Some nh)
    let ?new = "if nh \<ge> 0 then take 127 (h_lines h ! nat nh) else []"
    have nh: "idx_ok h nh" using hist_move_ok [OF assms(3) Some] .
    have n: "line_ok ?new"
      using entry_ok [OF assms(1), of "nat nh"] nh line_ok_take by (auto simp: idx_ok_def line_ok_def)
    have "line' = ?new" "i' = nh" "echo = replicate (length line) 8 @ ?new"
      using assms(4) True Some by (auto simp: sh_key_def Let_def)
    then show ?thesis using n nh line_ok_no8 [OF n] by (simp add: shown_append shown_erase shown_text)
  qed
next
  case False
  then show ?thesis
    using assms by (auto simp: sh_key_def shown_def line_ok_def idx_ok_def split: if_splits dest: in_set_butlastD)
qed

lemma sh_readline_ok:
  assumes "hist_ok h" "line_ok line" "idx_ok h i" "10 \<notin> set keys"
  shows "\<exists>l e. sh_readline h (line, i) (keys @ 10 # later) = Some (l, e @ [10], later) \<and> line_ok l \<and> shown e line = l"
  using assms(2-4)
proof (induction keys arbitrary: line i)
  case Nil
  then show ?case by (intro exI [of _ line] exI [of _ "[]"]) (simp add: shown_def)
next
  case (Cons k keys)
  obtain line' i' e1 where k: "sh_key h k (line, i) = ((line', i'), e1)" by (metis surj_pair)
  note s = sh_key_ok [OF assms(1) Cons.prems(1,2) k]
  obtain l e where "sh_readline h (line', i') (keys @ 10 # later) = Some (l, e @ [10], later)" "line_ok l" "shown e line' = l"
    using Cons.IH [of line' i'] s Cons.prems(3) by auto
  then show ?case
    using k s Cons.prems(3) by (intro exI [of _ l] exI [of _ "e1 @ e"]) (auto simp: shown_append)
qed

lemma sh_ups:
  assumes "hist_ok h" "n < h_count h"
  shows "fst (fold (\<lambda>k s. fst (sh_key h k s)) (replicate (Suc n) KEY_UP) (l, -1)) = h_lines h ! (h_count h - 1 - n)
    \<and> snd (fold (\<lambda>k s. fst (sh_key h k s)) (replicate (Suc n) KEY_UP) (l, -1)) = int (h_count h - 1 - n)"
  using assms(2)
proof (induction n)
  case 0
  then show ?case
    using line_ok_take [OF entry_ok [OF assms(1), of "h_count h - 1"]]
    by (simp add: sh_key_def hist_move_def Let_def nat_diff_distrib of_nat_diff)
next
  case (Suc n)
  let ?s = "fold (\<lambda>k s. fst (sh_key h k s)) (replicate (Suc n) KEY_UP) (l, -1)"
  have s: "?s = (h_lines h ! (h_count h - 1 - n), int (h_count h - 1 - n))" using Suc by (simp add: prod_eq_iff)
  have r: "replicate (Suc (Suc n)) KEY_UP = replicate (Suc n) KEY_UP @ [KEY_UP]" by (simp add: replicate_append_same)
  define z where "z = h_count h - 1 - Suc n"
  have z: "h_count h - 1 - n = Suc z" "z < h_count h" using Suc.prems by (simp_all add: z_def)
  have "hist_move h KEY_UP (int (Suc z)) = Some (int z)" using z by (simp add: hist_move_def)
  then have "fst (sh_key h KEY_UP ?s) = (h_lines h ! z, int z)"
    unfolding s z(1) using line_ok_take [OF entry_ok [OF assms(1) z(2)]] by (simp add: sh_key_def Let_def)
  then show ?case unfolding r z_def [symmetric] by simp
qed

lemma hist_boot_ok: "hist_ok hist_boot" "entries hist_boot = newest []"
  by (simp_all add: hist_boot_def hist_ok_def entries_def newest_def)

lemma sh_readline_None: "10 \<notin> set keys \<Longrightarrow> sh_readline h s keys = None"
  by (induction keys arbitrary: s) (auto split: prod.splits)

lemma sh_readline_line:
  assumes "hist_ok h" "sh_readline h ([], -1) keys = Some (l, e, rest)"
  shows "line_ok l \<and> shown (butlast e) [] = l \<and> (\<exists>ks. keys = ks @ 10 # rest \<and> 10 \<notin> set ks)"
proof -
  have "10 \<in> set keys" using assms(2) sh_readline_None by fastforce
  then obtain ks later where k: "keys = ks @ 10 # later" "10 \<notin> set ks" using split_list_first by fastforce
  have "line_ok []" "idx_ok h (-1)" by (simp_all add: line_ok_def idx_ok_def)
  from sh_readline_ok [OF assms(1) this k(2), of later] show ?thesis using assms(2) k by auto
qed

lemma sh_loop_history:
  assumes "hist_ok h" "entries h = newest hs" "sh_loop sys n h w keys = (ls, out, h2, r)"
  shows "hist_ok h2 \<and> entries h2 = newest (fold remember ls hs) \<and> (\<forall>l \<in> set ls. line_ok l)"
  using assms
proof (induction n arbitrary: h hs w keys ls out h2 r)
  case (Suc n)
  show ?case
  proof (cases "sh_readline h ([], -1) keys")
    case None
    then show ?thesis using Suc.prems by auto
  next
    case (Some x)
    obtain line e rest where x: "x = (line, e, rest)" by (cases x)
    have lo: "line_ok line" using sh_readline_line [OF Suc.prems(1)] Some x by blast
    note ok = hist_push_ok [OF Suc.prems(1) lo] hist_push_entries [OF Suc.prems(1,2), of line]
    show ?thesis
    proof (cases "running sys line w")
      case (Done o1 w1)
      obtain ls1 o2 h3 r1 where l: "sh_loop sys n (hist_push line h) w1 rest = (ls1, o2, h3, r1)" by (cases "sh_loop sys n (hist_push line h) w1 rest")
      show ?thesis using Suc.IH [OF ok l] Suc.prems(3) Some x Done l lo by (auto simp: Let_def)
    qed (use Suc.prems(3) Some x ok lo in \<open>auto simp: Let_def\<close>)
  qed
qed auto

section \<open>Properties\<close>

text \<open>
  The line reader: whatever keys come before the newline, history keys included, the line handed to
  the command has at most 127 characters, all printable, so it fits its buffer with the NUL, and it
  is exactly what the echo has left on the screen; the keys after the newline are left for the
  next line.
\<close>

theorem shell_line_is_what_is_shown:
  assumes "hist_ok h" "10 \<notin> set keys"
  shows "\<exists>l e. sh_readline h ([], -1) (keys @ 10 # later) = Some (l, e @ [10], later)
    \<and> length l \<le> 127 \<and> (\<forall>c \<in> set l. 32 \<le> c \<and> c < 127) \<and> shown e [] = l"
proof -
  have "line_ok []" "idx_ok h (-1)" by (simp_all add: line_ok_def idx_ok_def)
  from sh_readline_ok [OF assms(1) this assms(2), of later] show ?thesis by (auto simp: line_ok_def)
qed

theorem shell_line_is_what_is_shown_witness:
  "hist_ok hist_boot \<and> (\<exists>l e. sh_readline hist_boot ([], -1) ([108, 120, 8, KEY_UP, 115] @ 10 # [97]) = Some (l, e @ [10], [97])
    \<and> length l \<le> 127 \<and> (\<forall>c \<in> set l. 32 \<le> c \<and> c < 127) \<and> shown e [] = l)"
proof -
  have "10 \<notin> set [108, 120, 8, KEY_UP, 115]" by (simp add: KEY_UP_def)
  from shell_line_is_what_is_shown [OF hist_boot_ok(1) this, of "[97]"] show ?thesis using hist_boot_ok(1) by blast
qed

text \<open>
  The history (C31): after any number of turns of the main loop the history is exactly the newest
  sixteen of the lines read so far, without the empty ones and without immediate repetitions, in
  order; and pressing the up key \<open>i + 1\<close> times on a new line recalls its \<open>i\<close>-th newest entry.
\<close>

theorem shell_history:
  assumes "sh_loop sys n hist_boot w keys = (ls, out, h, r)"
  shows "entries h = newest (fold remember ls [])
    \<and> (\<forall>i < length (entries h). fst (fold (\<lambda>k s. fst (sh_key h k s)) (replicate (i + 1) KEY_UP) ([], -1)) = rev (entries h) ! i)"
proof -
  have o: "hist_ok h" "entries h = newest (fold remember ls [])"
    using sh_loop_history [OF hist_boot_ok assms] by auto
  have len: "length (entries h) = h_count h" using o(1) by (simp add: entries_def hist_ok_def)
  show ?thesis
  proof (intro conjI allI impI)
    fix i assume i: "i < length (entries h)"
    have "rev (entries h) ! i = h_lines h ! (h_count h - 1 - i)"
      using i len o(1) by (simp add: rev_nth) (simp add: entries_def)
    then show "fst (fold (\<lambda>k s. fst (sh_key h k s)) (replicate (i + 1) KEY_UP) ([], -1)) = rev (entries h) ! i"
      using sh_ups [OF o(1), of i "[]"] i len by simp
  qed (rule o(2))
qed

text \<open>A kernel that refuses every call.\<close>

definition no_sys :: "unit shsys" where
  "no_sys = \<lparr>sy_listdir = (\<lambda>p n w. ((-1, []), w)), sy_chdir = (\<lambda>p w. (-1, w)), sy_mkdir = (\<lambda>p w. (-1, w)),
     sy_meminfo = (\<lambda>n w. ((-1, []), w)), sy_lsmod = (\<lambda>n w. ((-1, []), w)), sy_partlist = (\<lambda>n w. ((-1, []), w)),
     sy_run = (\<lambda>p a w. (Some (-1), w)), sy_mount = (\<lambda>i w. (-1, w)), sy_fread = (\<lambda>p n w. ((-1, []), w)),
     sy_getcwd = (\<lambda>n w. (-1, []))\<rparr>"

theorem shell_history_witness:
  "\<exists>ls out h r. sh_loop no_sys 2 hist_boot () [104, 10, 104, 10] = (ls, out, h, r) \<and> entries h = newest (fold remember ls [])"
proof -
  obtain ls out h r where l: "sh_loop no_sys 2 hist_boot () [104, 10, 104, 10] = (ls, out, h, r)"
    by (cases "sh_loop no_sys 2 hist_boot () [104, 10, 104, 10]")
  with shell_history [OF l] show ?thesis by blast
qed

end
