(* ===== verification/Spec2Isabelle.thy ===== *)
theory Spec2Isabelle
  imports Boot Keo Shell
begin

text \<open>
  A verification library for inaneos, a small monolithic x86-64 kernel with its drivers, file systems and user programs. File names
  below are those of the repository; a definition has the name of the C function it translates, or of the loop of it.

  \<^bold>\<open>The program.\<close> GRUB loads the kernel and a list of modules. \<^verbatim>\<open>kernel/kernel.c\<close> sets up the frame allocator, the console, the
  processor tables, the file systems and the network card, registers the modules and enters the first one, the shell. From then on
  the kernel runs only inside system calls (\<^verbatim>\<open>kernel/syscall.c\<close>) and inside the keyboard interrupt. There is one program at a time: starting
  one clears the user area, loads an ELF image from a module and never returns to the caller. File calls go to a tree in RAM or,
  while a partition is mounted, to a FAT32 driver over an ATA driver.

  \<^bold>\<open>Theories, from the bottom to the top.\<close>

  \<^item> \<open>Prelude\<close>: C scalars as words, C strings as the bytes before the NUL, port writes as events, general lemmas, the two
    collections of facts \<open>model_simps\<close> and \<open>inv_intros\<close>. \<open>Codec\<close>: little-endian fields of sector buffers (\<^verbatim>\<open>kernel/fat.c\<close>).
  \<^item> \<open>Keyboard\<close> (\<^verbatim>\<open>drivers/keyboard\<close>): record \<open>kbd\<close> for the decoder flags and the ring; \<open>kbd_step\<close> interleaves interrupts and reads.
  \<^item> \<open>Vga\<close> (\<^verbatim>\<open>drivers/vga\<close>): record \<open>vga\<close> for the 2000 cells, the cursor with its pending wrap, the colours and the port trace.
  \<^item> \<open>Cpu\<close> (\<^verbatim>\<open>arch/x86_64/idt.c\<close>, \<^verbatim>\<open>gdt.c\<close>, \<^verbatim>\<open>msr.h\<close>): gates, descriptors, register halves, and the exception message.
  \<^item> \<open>Pmm\<close> (\<^verbatim>\<open>kernel/pmm.c\<close>), \<open>Vmm\<close> (\<^verbatim>\<open>arch/x86_64/vmm.c\<close>), \<open>Elf\<close> (\<^verbatim>\<open>kernel/elf.c\<close>), \<open>Exec\<close> (\<^verbatim>\<open>kernel/exec.c\<close>): memory. The record
    \<open>vm\<close> is the tree's root, physical memory as 64-bit words at their addresses, and the allocator; page tables, ELF images,
    programs and their stacks all live in that one memory, so that a mapping that destroys a table or an image is visible.
  \<^item> \<open>Ide\<close> (\<^verbatim>\<open>drivers/ide\<close>), \<open>Part\<close> (\<^verbatim>\<open>kernel/part.c\<close>), \<open>Fat\<close> and \<open>Fatdir\<close> (\<^verbatim>\<open>kernel/fat.c\<close>), \<open>Ramfs\<close> and \<open>Fs\<close> (\<^verbatim>\<open>kernel/fs.c\<close>): storage.
    The record \<open>vfs\<close> joins the state of the two file systems, the partition table and the mount flags.
  \<^item> \<open>Pci\<close> (\<^verbatim>\<open>drivers/pci\<close>, \<^verbatim>\<open>drivers/nic/nic.c\<close>), \<open>Net\<close> (\<^verbatim>\<open>drivers/nic/e1000.c\<close>, \<^verbatim>\<open>drivers/net\<close>): the bus and the network card; \<open>tx_step\<close>
    interleaves the driver with the controller.
  \<^item> \<open>Syscall\<close> (\<^verbatim>\<open>kernel/syscall.c\<close>): record \<open>kernel\<close> for the joint state, \<open>syscall_dispatcher\<close> over a saved register frame; \<open>sys_end\<close>
    lists how a call can end (return, enter a program, wait for a key, halt, reset, exception, endless loop, overrun).
    \<open>session\<close> is the step relation of programs, interrupts and calls.
  \<^item> \<open>Boot\<close> (\<^verbatim>\<open>kernel/kernel.c\<close>): \<open>kernel_main\<close> over the state of all components.
  \<^item> \<open>Expr\<close> (\<^verbatim>\<open>user/expr.c\<close>, \<^verbatim>\<open>user/calc.c\<close>), \<open>Shell\<close> (\<^verbatim>\<open>user/shell.c\<close>), \<open>Keo\<close> (\<^verbatim>\<open>user/keo.c\<close>): the programs. System calls are the operations of
    the kernel theories or, in the shell, a parameter record.

  \<^bold>\<open>What the lemmas show.\<close>

  \<^item> Memory: the allocator's bitmap refines a set of free frames (locale \<open>frame_allocator\<close>); \<open>vmm_map\<close> and \<open>vmm_unmap_range\<close> change the
    translation of exactly the pages they name and keep the invariant \<open>pt_inv\<close> (tables are distinct and never free); \<open>owned\<close> and \<open>keeps\<close>
    frame every other page and byte. On this rest the loader, program start with its stack layout, \<open>SYS_RUN\<close>, and
    the way from power-on to the first program.
  \<^item> Storage: in the locale \<open>ata_drive\<close> the driver is a block device (\<open>block_dev\<close>, by \<open>sublocale\<close>); the partition and FAT lemmas are proved
    there over its sectors. The RAM file system refines a map from paths to files and directories. The mount switch keeps the two apart. A
    file written by one call is what a later call reads, through the page tables of the caller.
  \<^item> Console, keyboard, programs: the screen shows the text written, wrapped and scrolled; keys arrive in order as a bounded queue
    (\<open>bounded_queue\<close>); the evaluator agrees with a reference semantics of expressions; the shell's history and the editor's
    keys refine list-based specifications, and the editor's save and load rely on the locale \<open>file_service\<close>.
  \<^item> System: the invariant \<open>kernel_inv\<close> holds from the end of \<open>kernel_main\<close> through every session.
  \<^item> Defects: theorems that state what the code does where that is not what it means to do, such as frames freed that were never
    allocated, unchecked program addresses, a transmit ring that can stop for good.

  \<^bold>\<open>Interfaces.\<close> \<open>le_codec\<close> is interpreted by the 16- and 32-bit accessors, \<open>bounded_queue\<close> by the keyboard ring, \<open>frame_allocator\<close> by
  \<^verbatim>\<open>pmm.c\<close>, \<open>block_dev\<close> by the ATA driver on every drive of \<open>ata_drive\<close>, \<open>file_service\<close> by the RAM file system. The providers of \<open>ata_drive\<close> and
  \<open>pci_bus\<close> are hardware; they are interpreted by a simulated drive and a simulated bus, which show that the protocols can be met.

  \<^bold>\<open>Bounds and fuel.\<close> A cluster chain on a disk can be cyclic, so the functions that follow one take a fuel and report when it runs out;
  theorems that such a call returns ask for more fuel than the chain is long, or hold for every fuel. Polling loops have the
  code's own counters. The loop of \<open>vmm_unmap_range\<close>, whose address can wrap, has the value None when it does not end. All other
  loops terminate: their functions are total. The copies of a program's strings into the kernel are bounded
  by the code. The results \<open>Endless\<close> and \<open>Overrun\<close> of a call are such a loop or a FAT chain that outlasts the fuel, and a store past a fixed buffer of the FAT driver. Stack
  arguments are strings of at most 2000 bytes in the theorems, more than the 31 and 127 bytes that the callers let through.

  \<^bold>\<open>Not modelled.\<close> Assembly (\<^verbatim>\<open>boot.S\<close>, \<^verbatim>\<open>syscall.S\<close>, \<^verbatim>\<open>usermode.S\<close>, \<^verbatim>\<open>_start.S\<close>, the interrupt stubs, the single instructions of \<^verbatim>\<open>io.h\<close> and the
  call wrappers of \<^verbatim>\<open>syscall.h\<close>): its effect at each boundary is a value (\<open>Enter\<close>, a register frame, a table register) or a hardware parameter.
  The kernel stack, the translation look-aside buffer and the timing of devices have no state. The file \<^verbatim>\<open>idt.c\<close> of the root directory is an old
  32-bit copy that is not built. The first half of \<^verbatim>\<open>user/calc.c\<close> is an unused copy of the evaluator. Build scripts, linker
  scripts and boot loader configuration are no code of the running system.
\<close>

end
